(* ===== verification/Prelude.thy ===== *)
theory Prelude
  imports Main "HOL-Library.Word"
begin

text \<open>
  Shared vocabulary of the development: the machine integer types of the i386 target, the
  ways a kernel function can fail to return, the sequencing operator for fallible code, and
  the generic facts on words and lists that the component theories use.
\<close>

unbundle bit_operations_syntax

section \<open>Types of the target machine\<close>

type_synonym u8 = "8 word"
type_synonym u16 = "16 word"
type_synonym u32 = "32 word"
type_synonym u64 = "64 word"

text \<open>
  How a call can end other than by returning: \<open>kernel_panic\<close> (with the message of the call
  site), the \<open>#DE\<close> exception of a division, an access through a pointer that designates
  no object of the type the code reads, and spinning on a lock that another thread holds.
\<close>

datatype kfault =
    Panic string
  | DivideError
  | BadAccess u32
  | Blocked

type_synonym 'a result = "kfault + 'a"

text \<open>Sequencing of fallible code: the first fault ends the whole call.\<close>

definition bindE :: "'e + 'a \<Rightarrow> ('a \<Rightarrow> 'e + 'b) \<Rightarrow> 'e + 'b" where
  "bindE r f = (case r of Inl e \<Rightarrow> Inl e | Inr x \<Rightarrow> f x)"

section \<open>Collections\<close>

named_theorems word_nat "a word operation read through unat"

section \<open>Sequencing\<close>

lemma bindE_simps [simp]:
  "bindE (Inl e) f = Inl e"
  "bindE (Inr x) f = f x"
  by (simp_all add: bindE_def)

lemma bindE_assoc: "bindE (bindE r f) g = bindE r (\<lambda>x. bindE (f x) g)"
  by (cases r) simp_all

lemma bindE_eq_Inr_iff: "bindE r f = Inr y \<longleftrightarrow> (\<exists>x. r = Inr x \<and> f x = Inr y)"
  by (cases r) simp_all

lemma bindE_InrE:
  assumes "bindE r f = Inr y"
  obtains x where "r = Inr x" and "f x = Inr y"
  using assms by (auto simp: bindE_eq_Inr_iff)

section \<open>Words read as natural numbers\<close>

lemma unat_u8_bound [simp]: "unat (x :: u8) < 256"
  using unsigned_less [of x] by simp

lemma unat_u16_bound [simp]: "unat (x :: u16) < 65536"
  using unsigned_less [of x] by simp

lemma unat_u32_bound [simp]: "unat (x :: u32) < 4294967296"
  using unsigned_less [of x] by simp

lemma unat_u64_bound [simp]: "unat (x :: u64) < 18446744073709551616"
  using unsigned_less [of x] by simp

lemma unat_ucast_mod [word_nat]:
  "unat (ucast (x :: 'a::len word) :: 'b::len word) = unat x mod 2 ^ LENGTH('b)"
  by (simp add: unsigned_ucast_eq take_bit_eq_mod)

lemma unat_ucast_widen:
  "LENGTH('a) \<le> LENGTH('b) \<Longrightarrow> unat (ucast (x :: 'a::len word) :: 'b::len word) = unat x"
proof -
  assume len: "LENGTH('a) \<le> LENGTH('b)"
  have "unat x < 2 ^ LENGTH('a)" by (rule unsigned_less)
  also have "(2::nat) ^ LENGTH('a) \<le> 2 ^ LENGTH('b)" using len by simp
  finally show ?thesis by (simp add: unat_ucast_mod)
qed

lemma unat_ucast_wider [simp]:
  "unat (ucast (a :: u8) :: u16) = unat a"
  "unat (ucast (a :: u8) :: u32) = unat a"
  "unat (ucast (b :: u16) :: u32) = unat b"
  "unat (ucast (c :: u32) :: u64) = unat c"
  by (simp_all add: unat_ucast_widen)

lemma unat_drop_bit_div [word_nat]: "unat (drop_bit n (x :: 'a::len word)) = unat x div 2 ^ n"
  by (simp only: unat_drop_bit_eq) (simp add: drop_bit_eq_div)

lemma unat_push_bit_mod [word_nat]:
  "unat (push_bit n (x :: 'a::len word)) = unat x * 2 ^ n mod 2 ^ LENGTH('a)"
  by (simp only: unsigned_push_bit_eq) (simp add: take_bit_eq_mod push_bit_eq_mult)

lemmas unat_div_word [word_nat] = unat_div_distrib
lemmas unat_mod_word [word_nat] = unat_mod_distrib

lemma unat_add_small:
  "unat (x :: 'a::len word) + unat y < 2 ^ LENGTH('a) \<Longrightarrow> unat (x + y) = unat x + unat y"
  by (simp add: unat_add_lem)

lemma unat_mult_small:
  "unat (x :: 'a::len word) * unat y < 2 ^ LENGTH('a) \<Longrightarrow> unat (x * y) = unat x * unat y"
  by (simp add: unat_mult_lem)

lemma unat_sub_small: "unat y \<le> unat x \<Longrightarrow> unat (x - y) = unat x - unat y"
  by (simp add: unat_sub word_le_nat_alt)

lemma unat_of_nat_small: "n < 2 ^ LENGTH('a) \<Longrightarrow> unat (of_nat n :: 'a::len word) = n"
  by (simp add: unat_of_nat)

lemma unat_add_of_nat:
  assumes "unat (x :: 'a::len word) + k < 2 ^ LENGTH('a)"
  shows "unat (x + of_nat k) = unat x + k"
proof -
  have "k < 2 ^ LENGTH('a)" using assms by simp
  then have "unat (of_nat k :: 'a word) = k" by (rule unat_of_nat_small)
  then show ?thesis using unat_add_small [of x "of_nat k"] assms by simp
qed

lemma unat_plus_one: "x < y \<Longrightarrow> unat (x + 1) = Suc (unat x)" for x y :: "'a::len word"
proof -
  assume "x < y"
  then have "Suc (unat x) \<le> unat y" by (simp add: word_less_nat_alt Suc_leI)
  also have "unat y < 2 ^ LENGTH('a)" by (rule unsigned_less)
  finally show ?thesis using unat_add_small [of x 1] by simp
qed

lemma unat_uminus: "x \<noteq> 0 \<Longrightarrow> unat (- x) + unat x = 2 ^ LENGTH('a)" for x :: "'a::len word"
proof -
  assume "x \<noteq> 0"
  then have "uint x \<noteq> 0" by (simp add: unsigned_eq_0_iff)
  then have "uint (- x) = 2 ^ LENGTH('a) - uint x"
    by (simp add: uint_word_ariths zmod_zminus1_eq_if)
  then have "uint (- x) + uint x = 2 ^ LENGTH('a)" by simp
  then have "int (unat (- x) + unat x) = int (2 ^ LENGTH('a))" by simp
  then show ?thesis by (simp only: of_nat_eq_iff)
qed

lemma word_eq_unat_iff: "x = y \<longleftrightarrow> unat x = unat y"
  by (simp add: word_unat_eq_iff)

end
