(* ===== verification/Memory.thy ===== *)
theory Memory
  imports Prelude
begin

text \<open>
  The flat address space that the C code reads and writes through pointers: one byte per
  32-bit address, with little-endian 32-bit loads and stores, NUL-terminated strings and
  half-open address ranges. Pointer arithmetic is word arithmetic, so it wraps as it does on
  the machine; an address \<open>a\<close> lies in the \<open>n\<close> bytes from \<open>p\<close> when \<open>a - p < n\<close>.
\<close>

section \<open>Bytes, words and strings in memory\<close>

type_synonym mem = "u32 \<Rightarrow> u8"

definition load32 :: "mem \<Rightarrow> u32 \<Rightarrow> u32" where
  "load32 m p =
     ucast (m p) OR push_bit 8 (ucast (m (p + 1)))
       OR push_bit 16 (ucast (m (p + 2))) OR push_bit 24 (ucast (m (p + 3)))"

definition store32 :: "mem \<Rightarrow> u32 \<Rightarrow> u32 \<Rightarrow> mem" where
  "store32 m p v =
     m(p := ucast v,
       p + 1 := ucast (drop_bit 8 v),
       p + 2 := ucast (drop_bit 16 v),
       p + 3 := ucast (drop_bit 24 v))"

definition in_range :: "u32 \<Rightarrow> u32 \<Rightarrow> u32 \<Rightarrow> bool" where
  "in_range p n a \<longleftrightarrow> a - p < n"

text \<open>The \<open>n\<close> bytes from \<open>p\<close>, as a list.\<close>

definition bytes_at :: "mem \<Rightarrow> u32 \<Rightarrow> nat \<Rightarrow> u8 list" where
  "bytes_at m p n = map (\<lambda>i. m (p + of_nat i)) [0..<n]"

text \<open>The NUL-terminated string that starts at an address.\<close>

fun str_at :: "mem \<Rightarrow> u32 \<Rightarrow> u8 list \<Rightarrow> bool" where
  "str_at m p [] \<longleftrightarrow> m p = 0"
| "str_at m p (c # s) \<longleftrightarrow> c \<noteq> 0 \<and> m p = c \<and> str_at m (p + 1) s"

text \<open>A string that lies inside the address space and not at the null pointer.\<close>

definition valid_str :: "mem \<Rightarrow> u32 \<Rightarrow> u8 list \<Rightarrow> bool" where
  "valid_str m p s \<longleftrightarrow> str_at m p s \<and> p \<noteq> 0 \<and> unat p + length s < 4294967296"

section \<open>Words in memory\<close>

lemma bytes_of_word:
  "ucast (ucast v :: u8) OR push_bit 8 (ucast (ucast (drop_bit 8 v) :: u8))
     OR push_bit 16 (ucast (ucast (drop_bit 16 v) :: u8))
     OR push_bit 24 (ucast (ucast (drop_bit 24 v) :: u8)) = v"
  for v :: u32
proof (rule bit_word_eqI)
  fix n assume n: "n < LENGTH(32)"
  then consider "n < 8" | "8 \<le> n" "n < 16" | "16 \<le> n" "n < 24" | "24 \<le> n" "n < 32"
    by force
  then show "bit (ucast (ucast v :: u8) OR push_bit 8 (ucast (ucast (drop_bit 8 v) :: u8))
     OR push_bit 16 (ucast (ucast (drop_bit 16 v) :: u8))
     OR push_bit 24 (ucast (ucast (drop_bit 24 v) :: u8)) :: u32) n = bit v n"
    by cases (auto simp: bit_simps)
qed

lemma small_offsets [simp]:
  "p \<noteq> p + 1" "p \<noteq> p + 2" "p \<noteq> p + 3" "p + 1 \<noteq> p" "p + 2 \<noteq> p" "p + 3 \<noteq> p"
  for p :: u32
  by simp_all

lemma load32_store32 [simp]: "load32 (store32 m p v) p = v"
  by (simp add: load32_def store32_def bytes_of_word)

text \<open>A store leaves alone every word that shares no byte with it.\<close>

lemma load32_store32_disjoint:
  assumes "4 \<le> p - q" and "4 \<le> q - p"
  shows "load32 (store32 m q v) p = load32 m p"
proof -
  define d where "d = p - q"
  have p: "p = q + d" by (simp add: d_def)
  have "4 \<le> d" and "4 \<le> - d" using assms by (simp_all add: d_def)
  then have "d \<notin> {0, 1, 2, 3, - 1, - 2, - 3}" by (auto simp: word_le_nat_alt)
  then have neq: "d + i \<noteq> j" if "i \<in> {0, 1, 2, 3}" "j \<in> {0, 1, 2, 3}" for i j
    using that by (auto simp: eq_diff_eq [symmetric])
  have "store32 m q v (p + i) = m (p + i)" if "i \<in> {0, 1, 2, 3}" for i
    using neq [OF that, of 0] neq [OF that, of 1] neq [OF that, of 2] neq [OF that, of 3]
    by (simp add: store32_def p add.assoc)
  from this [of 0] this [of 1] this [of 2] this [of 3] show ?thesis
    by (simp add: load32_def)
qed

section \<open>Strings in memory\<close>

lemma str_at_nth: "str_at m p s \<Longrightarrow> i < length s \<Longrightarrow> m (p + of_nat i) = s ! i"
proof (induction s arbitrary: p i)
  case (Cons c s)
  then show ?case by (cases i) (auto simp: add.assoc [symmetric] simp flip: add.assoc)
qed simp

lemma str_at_end: "str_at m p s \<Longrightarrow> m (p + of_nat (length s)) = 0"
  by (induction s arbitrary: p) (auto simp flip: add.assoc)

lemma str_at_nonzero: "str_at m p s \<Longrightarrow> 0 \<notin> set s"
  by (induction s arbitrary: p) auto

lemma str_at_copy:
  "(\<And>i. i \<le> length s \<Longrightarrow> m (p + of_nat i) = m' (q + of_nat i)) \<Longrightarrow> str_at m p s = str_at m' q s"
proof (induction s arbitrary: p q)
  case (Cons c s)
  have "str_at m (p + 1) s = str_at m' (q + 1) s"
    using Cons.prems [of "Suc _"] by (intro Cons.IH) (simp add: add.assoc)
  with Cons.prems [of 0] show ?case by simp
qed simp

lemmas str_at_cong = str_at_copy [where q = p and p = p for p]

lemma str_at_append: "str_at m p (s @ t) \<Longrightarrow> str_at m (p + of_nat (length s)) t"
  by (induction s arbitrary: p) (auto simp flip: add.assoc)

lemma str_at_unique: "str_at m p s \<Longrightarrow> str_at m p t \<Longrightarrow> s = t"
proof (induction s arbitrary: p t)
  case Nil
  then show ?case by (cases t) auto
next
  case (Cons c s)
  then show ?case by (cases t) auto
qed

text \<open>A string is shorter than the address space: its terminator is none of its characters.\<close>

lemma str_at_length:
  assumes "str_at m p s"
  shows "length s < 4294967296"
proof (rule ccontr)
  define k where "k = length s mod 2 ^ LENGTH(32)"
  assume "\<not> length s < 4294967296"
  then have "2 ^ LENGTH(32) \<le> length s" by simp
  moreover have "k < 2 ^ LENGTH(32)" unfolding k_def by (rule mod_less_divisor) simp
  ultimately have less: "k < length s" by (rule less_le_trans [rotated])
  have "(of_nat (length s) :: u32) = of_nat k"
    unfolding k_def by (simp only: word_eq_unat_iff unat_of_nat mod_mod_trivial)
  then have "m (p + of_nat k) = 0" using str_at_end [OF assms] by simp
  then have "0 \<in> set s" using str_at_nth [OF assms less] nth_mem [OF less] by simp
  then show False using str_at_nonzero [OF assms] by simp
qed

lemma valid_strD:
  assumes "valid_str m p s"
  shows "str_at m p s" and "i \<le> length s \<Longrightarrow> p + of_nat i \<noteq> 0"
proof -
  show "str_at m p s" using assms by (simp add: valid_str_def)
  assume i: "i \<le> length s"
  have p: "0 < unat p" "unat p + length s < 4294967296"
    using assms by (simp_all add: valid_str_def unat_gt_0)
  then have "unat (p + of_nat i) = unat p + i"
    using i by (subst unat_add_small) (simp_all add: unat_of_nat)
  with p show "p + of_nat i \<noteq> 0" by auto
qed

section \<open>Ranges\<close>

lemma in_range_offsets:
  fixes p :: u32
  assumes x: "x < 4294967296" and y: "y + s \<le> 4294967296" and s: "s < 4294967296"
  shows "in_range (p + of_nat y) (of_nat s) (p + of_nat x) \<longleftrightarrow> y \<le> x \<and> x < y + s"
proof (cases "y \<le> x")
  case True
  have "(p + of_nat x) - (p + of_nat y) = (of_nat (x - y) :: u32)" using True by (simp add: of_nat_diff)
  moreover have "unat (of_nat (x - y) :: u32) = x - y" using x by (intro unat_of_nat_small) simp
  moreover have "unat (of_nat s :: u32) = s" using s by (intro unat_of_nat_small) simp
  ultimately show ?thesis using True by (auto simp: in_range_def word_less_nat_alt)
next
  case False
  then have less: "x < y" by simp
  show ?thesis
  proof (cases "s = 0")
    case True
    then show ?thesis by (simp add: in_range_def)
  next
    case nz: False
    then have "y - x < 4294967296" using y less by linarith
    then have d: "unat (of_nat (y - x) :: u32) = y - x" by (intro unat_of_nat_small) simp
    have "(p + of_nat x) - (p + of_nat y) = - (of_nat (y - x) :: u32)"
      using less by (simp add: of_nat_diff)
    moreover have "(of_nat (y - x) :: u32) \<noteq> 0" using d less by auto
    ultimately have "unat ((p + of_nat x) - (p + of_nat y)) + (y - x) = 4294967296"
      using unat_uminus [of "of_nat (y - x) :: u32"] d by simp
    moreover have "unat (of_nat s :: u32) = s" using s by (intro unat_of_nat_small) simp
    ultimately show ?thesis using less y by (simp add: in_range_def word_less_nat_alt)
  qed
qed

lemma bytes_at_nth: "i < n \<Longrightarrow> bytes_at m p n ! i = m (p + of_nat i)"
  by (simp add: bytes_at_def)

lemma length_bytes_at [simp]: "length (bytes_at m p n) = n"
  by (simp add: bytes_at_def)

lemma bytes_at_cong:
  "(\<And>i. i < n \<Longrightarrow> m (p + of_nat i) = m' (q + of_nat i)) \<Longrightarrow> bytes_at m p n = bytes_at m' q n"
  by (simp add: bytes_at_def)

end
