(* ===== verification/KString.thy ===== *)
theory KString
  imports Memory
begin

text \<open>
  The functions of \<open>libk/src/all/string\<close> and \<open>libk/src/all/ctype\<close> over the flat memory.
  A function that writes returns the new memory beside its C result. The loops over a
  caller-given size are total; the loops that look for a terminating NUL may run forever on a
  memory without one, so they return an option and the theorems prove that they return on
  every string.
\<close>

section \<open>Block functions\<close>

function memcpy_loop :: "mem \<Rightarrow> u32 \<Rightarrow> u32 \<Rightarrow> u32 \<Rightarrow> u32 \<Rightarrow> mem" where
  "memcpy_loop m dst src sz i =
     (if i < sz then memcpy_loop (m(dst + i := m (src + i))) dst src sz (i + 1) else m)"
  by pat_completeness auto
termination
  by (relation "measure (\<lambda>(m, dst, src, sz, i). unat sz - unat i)")
    (auto simp: unat_plus_one word_less_nat_alt)

definition memcpy :: "mem \<Rightarrow> u32 \<Rightarrow> u32 \<Rightarrow> u32 \<Rightarrow> u32 \<times> mem" where
  "memcpy m dst src sz = (dst, memcpy_loop m dst src sz 0)"

text \<open>The descending loop of \<open>memmove\<close>: \<open>for (i = sz; i != 0; i--) dst[i-1] = src[i-1]\<close>.\<close>

function memmove_down :: "mem \<Rightarrow> u32 \<Rightarrow> u32 \<Rightarrow> u32 \<Rightarrow> mem" where
  "memmove_down m dst src i =
     (if i \<noteq> 0 then memmove_down (m(dst + (i - 1) := m (src + (i - 1)))) dst src (i - 1) else m)"
  by pat_completeness auto
termination
  by (relation "measure (\<lambda>(m, dst, src, i). unat i)") (auto simp: unat_minus_one unat_gt_0)

definition memmove :: "mem \<Rightarrow> u32 \<Rightarrow> u32 \<Rightarrow> u32 \<Rightarrow> u32 \<times> mem" where
  "memmove m dst src sz =
     (dst, if dst < src then memcpy_loop m dst src sz 0 else memmove_down m dst src sz)"

text \<open>The \<open>int\<close> argument of \<open>memset\<close> is converted to \<open>unsigned char\<close>.\<close>

function memset_loop :: "mem \<Rightarrow> u32 \<Rightarrow> u32 \<Rightarrow> u32 \<Rightarrow> u32 \<Rightarrow> mem" where
  "memset_loop m buf v sz i =
     (if i < sz then memset_loop (m(buf + i := ucast v)) buf v sz (i + 1) else m)"
  by pat_completeness auto
termination
  by (relation "measure (\<lambda>(m, buf, v, sz, i). unat sz - unat i)")
    (auto simp: unat_plus_one word_less_nat_alt)

definition memset :: "mem \<Rightarrow> u32 \<Rightarrow> u32 \<Rightarrow> u32 \<Rightarrow> u32 \<times> mem" where
  "memset m buf v sz = (buf, memset_loop m buf v sz 0)"

function memcmp_loop :: "mem \<Rightarrow> u32 \<Rightarrow> u32 \<Rightarrow> u32 \<Rightarrow> u32 \<Rightarrow> int" where
  "memcmp_loop m a b sz i =
     (if i < sz then
        if m (a + i) < m (b + i) then - 1
        else if m (b + i) < m (a + i) then 1
        else memcmp_loop m a b sz (i + 1)
      else 0)"
  by pat_completeness auto
termination
  by (relation "measure (\<lambda>(m, a, b, sz, i). unat sz - unat i)")
    (auto simp: unat_plus_one word_less_nat_alt)

definition memcmp :: "mem \<Rightarrow> u32 \<Rightarrow> u32 \<Rightarrow> u32 \<Rightarrow> int" where
  "memcmp m a b sz = memcmp_loop m a b sz 0"

section \<open>String functions\<close>

partial_function (option) strlen_loop :: "mem \<Rightarrow> u32 \<Rightarrow> u32 \<Rightarrow> u32 option" where
  "strlen_loop m str len = (if m (str + len) \<noteq> 0 then strlen_loop m str (len + 1) else Some len)"

definition strlen :: "mem \<Rightarrow> u32 \<Rightarrow> u32 option" where
  "strlen m str = strlen_loop m str 0"

partial_function (option) strcpy_loop :: "mem \<Rightarrow> u32 \<Rightarrow> u32 \<Rightarrow> u32 \<Rightarrow> mem option" where
  "strcpy_loop m dest src i =
     (if m (src + i) \<noteq> 0 then strcpy_loop (m(dest + i := m (src + i))) dest src (i + 1)
      else Some (m(dest + i := 0)))"

definition strcpy :: "mem \<Rightarrow> u32 \<Rightarrow> u32 \<Rightarrow> (u32 \<times> mem) option" where
  "strcpy m dest src = map_option (Pair dest) (strcpy_loop m dest src 0)"

partial_function (option) strcmp_loop :: "mem \<Rightarrow> u32 \<Rightarrow> u32 \<Rightarrow> u32 \<Rightarrow> u32 option" where
  "strcmp_loop m lhs rhs i =
     (if m (lhs + i) = m (rhs + i) \<and> m (lhs + i) \<noteq> 0 then strcmp_loop m lhs rhs (i + 1)
      else Some i)"

definition strcmp :: "mem \<Rightarrow> u32 \<Rightarrow> u32 \<Rightarrow> int option" where
  "strcmp m lhs rhs =
     map_option (\<lambda>i. uint (m (lhs + i)) - uint (m (rhs + i))) (strcmp_loop m lhs rhs 0)"

text \<open>\<open>strchr\<close> tests the terminating NUL too, and returns the null pointer after it.\<close>

partial_function (option) strchr_loop :: "mem \<Rightarrow> u32 \<Rightarrow> u8 \<Rightarrow> u32 \<Rightarrow> u32 option" where
  "strchr_loop m str c i =
     (if m (str + i) = c then Some (str + i)
      else if m (str + i) \<noteq> 0 then strchr_loop m str c (i + 1)
      else Some 0)"

definition strchr :: "mem \<Rightarrow> u32 \<Rightarrow> u8 \<Rightarrow> u32 option" where
  "strchr m str c = strchr_loop m str c 0"

text \<open>
  \<open>strtok_r\<close>: \<open>sp\<close> is the value of \<open>*saveptr\<close>, a local variable of every caller. The result is
  the token pointer, the new memory and the new \<open>*saveptr\<close>.
\<close>

partial_function (option) skip_delim :: "mem \<Rightarrow> u32 \<Rightarrow> u32 \<Rightarrow> u32 option" where
  "skip_delim m delim sp =
     (if m sp = 0 then Some sp
      else Option.bind (strchr m delim (m sp))
        (\<lambda>r. if r \<noteq> 0 then skip_delim m delim (sp + 1) else Some sp))"

partial_function (option) skip_token :: "mem \<Rightarrow> u32 \<Rightarrow> u32 \<Rightarrow> u32 option" where
  "skip_token m delim sp =
     (if m sp = 0 then Some sp
      else Option.bind (strchr m delim (m sp))
        (\<lambda>r. if r = 0 then skip_token m delim (sp + 1) else Some sp))"

definition strtok_r :: "mem \<Rightarrow> u32 \<Rightarrow> u32 \<Rightarrow> u32 \<Rightarrow> (u32 \<times> mem \<times> u32) option" where
  "strtok_r m str delim sp =
     (let sp = (if str \<noteq> 0 then str else sp)
      in Option.bind (skip_delim m delim sp)
        (\<lambda>start. Option.bind (skip_token m delim start)
          (\<lambda>sp. if m sp = 0 then Some (if start = sp then 0 else start, m, sp)
                else Some (start, m(sp := 0), sp + 1))))"

section \<open>Character classes\<close>

definition isdigit :: "int \<Rightarrow> bool" where
  "isdigit ch \<longleftrightarrow> 48 \<le> ch \<and> ch \<le> 57"

definition isxdigit :: "int \<Rightarrow> bool" where
  "isxdigit ch \<longleftrightarrow> 48 \<le> ch \<and> ch \<le> 57 \<or> 97 \<le> ch \<and> ch \<le> 102 \<or> 65 \<le> ch \<and> ch \<le> 70"

definition isspace :: "int \<Rightarrow> bool" where
  "isspace ch \<longleftrightarrow> 9 \<le> ch \<and> ch \<le> 13 \<or> ch = 32"

definition isblank :: "int \<Rightarrow> bool" where
  "isblank ch \<longleftrightarrow> ch = 32 \<or> ch = 9"

declare memcpy_loop.simps [simp del] memmove_down.simps [simp del]
  memset_loop.simps [simp del] memcmp_loop.simps [simp del]

section \<open>Block functions: what they leave in memory\<close>

lemma word_plus_one_le_iff: "i < n \<Longrightarrow> i + 1 \<le> k \<longleftrightarrow> i < k" for i n k :: u32
  by (simp only: word_le_nat_alt word_less_nat_alt [of i k] unat_plus_one Suc_le_eq)

lemma word_less_pred_iff:
  fixes i k :: u32
  assumes "i \<noteq> 0"
  shows "k < i \<longleftrightarrow> k < i - 1 \<or> k = i - 1"
proof -
  have "unat i = Suc (unat (i - 1))" using assms by (simp add: unat_minus_one unat_gt_0)
  then show ?thesis by (simp add: word_less_nat_alt word_eq_unat_iff less_Suc_eq)
qed

lemma offset_eq_iff: "a = p + i \<longleftrightarrow> a - p = i" for a p i :: u32
  by (auto simp: algebra_simps)

text \<open>
  The ascending copy is right whenever no store hits a byte still to be read: the blocks
  coincide, or the destination does not start inside the source.
\<close>

lemma memcpy_loop_eq:
  assumes "dst = src \<or> sz \<le> dst - src"
  shows "memcpy_loop m dst src sz i =
    (\<lambda>a. if i \<le> a - dst \<and> a - dst < sz then m (src + (a - dst)) else m a)"
  using assms
proof (induction m dst src sz i rule: memcpy_loop.induct)
  case (1 m dst src sz i)
  show ?case
  proof (cases "i < sz")
    case True
    define m' where "m' = m(dst + i := m (src + i))"
    have unread: "m' (src + k) = m (src + k)" if "i < k" "k < sz" for k
    proof (cases "dst = src")
      case False
      have "src + k \<noteq> dst + i"
      proof
        assume "src + k = dst + i"
        then have "dst - src = k - i" by (simp add: algebra_simps)
        moreover have "unat (k - i) < unat sz"
          using that by (simp add: unat_sub_small word_less_nat_alt)
        ultimately show False using "1.prems" False by (simp add: word_le_nat_alt)
      qed
      then show ?thesis by (simp add: m'_def)
    qed (simp add: m'_def)
    have step: "memcpy_loop m dst src sz i = memcpy_loop m' dst src sz (i + 1)"
      by (subst memcpy_loop.simps) (simp add: True m'_def)
    have IH: "memcpy_loop m' dst src sz (i + 1) =
        (\<lambda>a. if i + 1 \<le> a - dst \<and> a - dst < sz then m' (src + (a - dst)) else m' a)"
      unfolding m'_def by (rule "1.IH" [OF True "1.prems"])
    show ?thesis
    proof
      fix a
      consider "a - dst = i" | "a - dst \<noteq> i" by blast
      then show "memcpy_loop m dst src sz i a =
          (if i \<le> a - dst \<and> a - dst < sz then m (src + (a - dst)) else m a)"
      proof cases
        case 1
        then have "m' a = m (src + i)" by (simp add: m'_def offset_eq_iff)
        with 1 True show ?thesis by (simp add: step IH word_plus_one_le_iff [OF True])
      next
        case 2
        then have "m' a = m a" by (simp add: m'_def offset_eq_iff)
        with 2 show ?thesis
          using unread by (auto simp: step IH word_plus_one_le_iff [OF True])
      qed
    qed
  next
    case False
    then have "\<not> (i \<le> a - dst \<and> a - dst < sz)" for a by auto
    with False show ?thesis by (subst memcpy_loop.simps) (auto simp: fun_eq_iff)
  qed
qed

lemma memmove_down_eq:
  assumes "dst = src \<or> i \<le> src - dst"
  shows "memmove_down m dst src i = (\<lambda>a. if a - dst < i then m (src + (a - dst)) else m a)"
  using assms
proof (induction m dst src i rule: memmove_down.induct)
  case (1 m dst src i)
  show ?case
  proof (cases "i = 0")
    case True
    then show ?thesis by (subst memmove_down.simps) simp
  next
    case False
    let ?j = "i - 1"
    define m' where "m' = m(dst + ?j := m (src + ?j))"
    have j: "unat ?j = unat i - 1" "0 < unat i" using False by (simp_all add: unat_minus_one unat_gt_0)
    have unread: "m' (src + k) = m (src + k)" if "k < ?j" for k
    proof (cases "dst = src")
      case False
      have "src + k \<noteq> dst + ?j"
      proof
        assume "src + k = dst + ?j"
        then have "src - dst = ?j - k" by (simp add: algebra_simps)
        moreover have "unat (?j - k) < unat i"
          using that j by (simp add: unat_sub_small word_less_nat_alt)
        ultimately show False using "1.prems" False by (simp add: word_le_nat_alt)
      qed
      then show ?thesis by (simp add: m'_def)
    qed (simp add: m'_def)
    have step: "memmove_down m dst src i = memmove_down m' dst src ?j"
      by (subst memmove_down.simps) (simp add: False m'_def)
    have "dst = src \<or> ?j \<le> src - dst" using "1.prems" by (auto simp: word_le_nat_alt j)
    then have IH: "memmove_down m' dst src ?j =
        (\<lambda>a. if a - dst < ?j then m' (src + (a - dst)) else m' a)"
      unfolding m'_def by (rule "1.IH" [OF False])
    show ?thesis
    proof
      fix a
      consider "a - dst = ?j" | "a - dst \<noteq> ?j" by blast
      then show "memmove_down m dst src i a = (if a - dst < i then m (src + (a - dst)) else m a)"
      proof cases
        case 1
        then have "m' a = m (src + ?j)" by (simp add: m'_def offset_eq_iff)
        with 1 show ?thesis
          using word_less_pred_iff [OF False, of ?j] by (simp add: step IH)
      next
        case 2
        then have "m' a = m a" by (simp add: m'_def offset_eq_iff)
        with 2 show ?thesis
          using unread word_less_pred_iff [OF False, of "a - dst"] by (simp add: step IH)
      qed
    qed
  qed
qed

lemma memset_loop_eq:
  "memset_loop m buf v sz i = (\<lambda>a. if i \<le> a - buf \<and> a - buf < sz then ucast v else m a)"
proof (induction m buf v sz i rule: memset_loop.induct)
  case (1 m buf v sz i)
  show ?case
  proof (cases "i < sz")
    case True
    define m' where "m' = m(buf + i := (ucast v :: u8))"
    have step: "memset_loop m buf v sz i = memset_loop m' buf v sz (i + 1)"
      by (subst memset_loop.simps) (simp add: True m'_def)
    have IH: "memset_loop m' buf v sz (i + 1) =
        (\<lambda>a. if i + 1 \<le> a - buf \<and> a - buf < sz then ucast v else m' a)"
      unfolding m'_def by (rule "1.IH" [OF True])
    show ?thesis
    proof
      fix a
      show "memset_loop m buf v sz i a = (if i \<le> a - buf \<and> a - buf < sz then ucast v else m a)"
        unfolding step IH using True
        by (cases "a - buf = i") (auto simp: word_plus_one_le_iff [OF True] m'_def offset_eq_iff)
    qed
  next
    case False
    then have "\<not> (i \<le> a - buf \<and> a - buf < sz)" for a by auto
    with False show ?thesis by (subst memset_loop.simps) (auto simp: fun_eq_iff)
  qed
qed

section \<open>String functions: they return, and what\<close>

lemma strlen_loop_str:
  "str_at m (p + len) s \<Longrightarrow> strlen_loop m p len = Some (len + of_nat (length s))"
proof (induction s arbitrary: len)
  case Nil
  then show ?case by (subst strlen_loop.simps) simp
next
  case (Cons c s)
  then have "strlen_loop m p (len + 1) = Some (len + 1 + of_nat (length s))"
    by (intro Cons.IH) (simp add: add.assoc)
  with Cons.prems show ?case by (subst strlen_loop.simps) (simp add: add.assoc)
qed

lemma strlen_str: "str_at m p s \<Longrightarrow> strlen m p = Some (of_nat (length s))"
  using strlen_loop_str [of m p 0 s] by (simp add: strlen_def)

text \<open>\<open>strcpy\<close> copies the characters and the terminator, as \<open>memcpy\<close> of one byte more would.\<close>

lemma strcpy_loop_memcpy:
  assumes "str_at m (src + i) s" and "unat i + length s + 1 < 4294967296"
    and "i + of_nat (length s) + 1 \<le> dst - src"
  shows "strcpy_loop m dst src i = Some (memcpy_loop m dst src (i + of_nat (length s) + 1) i)"
  using assms
proof (induction s arbitrary: m i)
  case Nil
  then have "i < i + 1" using unat_add_small [of i 1] by (simp add: word_less_nat_alt)
  with Nil.prems(1) show ?case
    by (subst strcpy_loop.simps, subst memcpy_loop.simps, subst memcpy_loop.simps) simp
next
  case (Cons c s)
  define n where "n = i + of_nat (length (c # s)) + 1"
  define m' where "m' = m(dst + i := m (src + i))"
  have n_alt: "n = i + of_nat (length s + 2)" by (simp add: n_def)
  have un: "unat n = unat i + length (c # s) + 1"
    unfolding n_alt using Cons.prems(2) by (subst unat_add_of_nat) simp_all
  have in1: "unat (i + 1) = unat i + 1"
    using Cons.prems(2) unat_add_small [of i 1] by simp
  have unread: "m (src + i + 1 + of_nat j) = m' (src + i + 1 + of_nat j)" if "j \<le> length s" for j
  proof -
    have "src + i + 1 + of_nat j \<noteq> dst + i"
    proof
      assume "src + i + 1 + of_nat j = dst + i"
      then have "dst - src = 1 + of_nat j" by (simp add: algebra_simps)
      moreover have "unat (1 + of_nat j :: u32) = 1 + j"
        using that Cons.prems(2) by (subst unat_add_of_nat) simp_all
      ultimately show False
        using Cons.prems(3) un that by (simp add: word_le_nat_alt n_def)
    qed
    then show ?thesis by (simp add: m'_def)
  qed
  have "str_at m (src + i + 1) s" using Cons.prems(1) by simp
  then have "str_at m' (src + i + 1) s"
    using str_at_cong [of s m "src + i + 1" m'] unread by blast
  moreover have n: "i + 1 + of_nat (length s) + 1 = n" by (simp add: n_def)
  ultimately have "strcpy_loop m' dst src (i + 1) = Some (memcpy_loop m' dst src n (i + 1))"
    using Cons.IH [of m' "i + 1"] Cons.prems(2,3) in1 by (simp add: n_def add_ac)
  moreover have "i < n" using un by (simp add: word_less_nat_alt)
  moreover have "m (src + i) \<noteq> 0" using Cons.prems(1) by simp
  ultimately show ?case
    unfolding n_def [symmetric]
    by (subst strcpy_loop.simps, subst memcpy_loop.simps) (simp add: m'_def)
qed

text \<open>What \<open>strcmp\<close> computes, on the strings themselves.\<close>

fun str_compare :: "u8 list \<Rightarrow> u8 list \<Rightarrow> int" where
  "str_compare [] [] = 0"
| "str_compare [] (d # t) = - uint d"
| "str_compare (c # s) [] = uint c"
| "str_compare (c # s) (d # t) = (if c = d then str_compare s t else uint c - uint d)"

lemma strcmp_loop_str:
  "str_at m (a + i) s \<Longrightarrow> str_at m (b + i) t \<Longrightarrow>
   \<exists>j. strcmp_loop m a b i = Some j \<and> uint (m (a + j)) - uint (m (b + j)) = str_compare s t"
proof (induction s t arbitrary: i rule: str_compare.induct)
  case (4 c s d t)
  show ?case
  proof (cases "c = d")
    case True
    then have "\<exists>j. strcmp_loop m a b (i + 1) = Some j
        \<and> uint (m (a + j)) - uint (m (b + j)) = str_compare s t"
      using 4 by (intro "4.IH") (simp_all add: add.assoc)
    with True 4 show ?thesis by (subst strcmp_loop.simps) simp
  qed (use 4 in \<open>subst strcmp_loop.simps, simp\<close>)
qed (subst strcmp_loop.simps, simp)+

lemma strcmp_str:
  "str_at m a s \<Longrightarrow> str_at m b t \<Longrightarrow> strcmp m a b = Some (str_compare s t)"
  using strcmp_loop_str [of m a 0 s b t] by (auto simp: strcmp_def)

lemma str_compare_zero_iff:
  "0 \<notin> set s \<Longrightarrow> 0 \<notin> set t \<Longrightarrow> str_compare s t = 0 \<longleftrightarrow> s = t"
  by (induction s t rule: str_compare.induct) (auto simp: word_uint_eq_iff)

lemma str_compare_neg_iff:
  "0 \<notin> set s \<Longrightarrow> 0 \<notin> set t \<Longrightarrow> str_compare s t < 0 \<longleftrightarrow> (s, t) \<in> lexord {(x, y). x < y}"
  by (induction s t rule: str_compare.induct)
    (auto simp: word_less_def word_uint_eq_iff order_less_le uint_nonnegative)

lemma strchr_loop_str:
  "str_at m (p + i) s \<Longrightarrow> c \<noteq> 0 \<Longrightarrow>
   strchr_loop m p c i =
     Some (if c \<in> set s then p + i + of_nat (length (takeWhile (\<lambda>x. x \<noteq> c) s)) else 0)"
proof (induction s arbitrary: i)
  case Nil
  then show ?case by (subst strchr_loop.simps) simp
next
  case (Cons d s)
  then have "strchr_loop m p c (i + 1) =
      Some (if c \<in> set s then p + (i + 1) + of_nat (length (takeWhile (\<lambda>x. x \<noteq> c) s)) else 0)"
    using Cons.IH [of "i + 1"] by (simp add: add.assoc)
  with Cons.prems show ?case by (subst strchr_loop.simps) (auto simp: add_ac)
qed

lemma strchr_nonnull_iff:
  assumes "valid_str m p s" and "c \<noteq> 0"
  shows "\<exists>r. strchr m p c = Some r \<and> (r \<noteq> 0 \<longleftrightarrow> c \<in> set s)"
  using strchr_loop_str [of m p 0 s c] valid_strD [OF assms(1)] assms(2)
    length_takeWhile_le [of "\<lambda>x. x \<noteq> c" s]
  by (auto simp: strchr_def)

section \<open>Tokens\<close>

text \<open>The tokens of a string: its maximal runs of characters that are no delimiter.\<close>

function tokens :: "u8 list \<Rightarrow> u8 list \<Rightarrow> u8 list list" where
  "tokens ds s =
     (case dropWhile (\<lambda>c. c \<in> set ds) s of
        [] \<Rightarrow> []
      | c # s' \<Rightarrow> (c # takeWhile (\<lambda>c. c \<notin> set ds) s') # tokens ds (dropWhile (\<lambda>c. c \<notin> set ds) s'))"
  by pat_completeness auto
termination
proof (relation "measure (\<lambda>(ds, s). length s)", simp, clarsimp)
  fix ds s :: "u8 list" and c s'
  assume "dropWhile (\<lambda>c. c \<in> set ds) s = c # s'"
  then have "length (c # s') \<le> length s" by (metis length_dropWhile_le)
  then show "length (dropWhile (\<lambda>c. c \<notin> set ds) s') < length s"
    using length_dropWhile_le [of "\<lambda>c. c \<notin> set ds" s'] by simp
qed

declare tokens.simps [simp del]

lemma tokens_delim: "c \<in> set ds \<Longrightarrow> tokens ds (c # s) = tokens ds s"
  by (subst (1 2) tokens.simps) simp

lemma tokens_cases:
  obtains (none) "dropWhile (\<lambda>c. c \<in> set ds) s = []" "tokens ds s = []"
  | (some) t post where "t \<noteq> []" "dropWhile (\<lambda>c. c \<in> set ds) s = t @ post"
      "t = takeWhile (\<lambda>c. c \<notin> set ds) (t @ post)" "post = dropWhile (\<lambda>c. c \<notin> set ds) (t @ post)"
      "tokens ds s = t # tokens ds post"
proof (cases "dropWhile (\<lambda>c. c \<in> set ds) s")
  case Nil
  moreover from this have "tokens ds s = []" by (subst tokens.simps) (simp only: list.case)
  ultimately show ?thesis by (rule none)
next
  case (Cons c s')
  let ?t = "c # takeWhile (\<lambda>c. c \<notin> set ds) s'" and ?post = "dropWhile (\<lambda>c. c \<notin> set ds) s'"
  have "c \<notin> set ds" using Cons by (metis dropWhile_eq_Cons_conv)
  then show ?thesis
    using some [of ?t ?post] Cons by (simp add: tokens.simps [of ds s])
qed

lemma skip_delim_str:
  assumes "valid_str m d ds"
  shows "str_at m p s \<Longrightarrow>
    skip_delim m d p = Some (p + of_nat (length (takeWhile (\<lambda>c. c \<in> set ds) s)))"
proof (induction s arbitrary: p)
  case Nil
  then show ?case by (subst skip_delim.simps) simp
next
  case (Cons c s)
  then obtain r where "strchr m d c = Some r" "r \<noteq> 0 \<longleftrightarrow> c \<in> set ds"
    using strchr_nonnull_iff [OF assms] by auto
  with Cons show ?case by (subst skip_delim.simps) (auto simp: add.assoc)
qed

lemma skip_token_str:
  assumes "valid_str m d ds"
  shows "str_at m p s \<Longrightarrow>
    skip_token m d p = Some (p + of_nat (length (takeWhile (\<lambda>c. c \<notin> set ds) s)))"
proof (induction s arbitrary: p)
  case Nil
  then show ?case by (subst skip_token.simps) simp
next
  case (Cons c s)
  then obtain r where "strchr m d c = Some r" "r \<noteq> 0 \<longleftrightarrow> c \<in> set ds"
    using strchr_nonnull_iff [OF assms] by auto
  with Cons show ?case by (subst skip_token.simps) (auto simp: add.assoc)
qed

text \<open>Overwriting the character at position \<open>i\<close> of a string with NUL cuts it in two.\<close>

lemma of_nat_u32_inj: "i < 4294967296 \<Longrightarrow> j < 4294967296 \<Longrightarrow> (of_nat i :: u32) = of_nat j \<longleftrightarrow> i = j"
  by (simp add: word_eq_unat_iff unat_of_nat)

lemma str_at_cut:
  assumes "str_at m p (t @ c # post)"
  defines "m' \<equiv> m(p + of_nat (length t) := 0)"
  shows "str_at m' p t" and "str_at m' (p + of_nat (length t) + 1) post"
proof -
  have len: "length t + 1 + length post < 4294967296" using str_at_length [OF assms(1)] by simp
  have "str_at (m(p + of_nat (length t) := 0)) p t" if "str_at m p (t @ u)" "length t < 4294967296" for u
  proof -
    have "\<And>i. i < length t \<Longrightarrow> m' (p + of_nat i) = t ! i"
      using str_at_nth [OF that(1)] that(2) by (simp add: m'_def nth_append of_nat_u32_inj)
    moreover have "m' (p + of_nat (length t)) = 0" by (simp add: m'_def)
    moreover have "0 \<notin> set t" using str_at_nonzero [OF that(1)] by simp
    ultimately show ?thesis
      unfolding m'_def [symmetric]
    proof (induction t arbitrary: p)
      case (Cons a t)
      have "str_at m' (p + 1) t"
        using Cons.prems(1) [of "Suc _"] Cons.prems(2,3) by (intro Cons.IH) (simp_all add: add.assoc)
      with Cons.prems(1) [of 0] Cons.prems(3) show ?case by simp
    qed simp
  qed
  from this [OF assms(1)] len show "str_at m' p t" by (simp add: m'_def)
  have "str_at m (p + of_nat (length t) + 1) post"
    using str_at_append [of m p "t @ [c]" post] assms(1) by (simp add: add_ac)
  moreover have "m (p + of_nat (length t) + 1 + of_nat i) = m' (p + of_nat (length t) + 1 + of_nat i)"
    if "i \<le> length post" for i
  proof -
    have "(of_nat (length t + 1 + i) :: u32) \<noteq> of_nat (length t)"
      using that len by (subst of_nat_u32_inj) simp_all
    then have "p + of_nat (length t) + 1 + of_nat i \<noteq> p + of_nat (length t)"
      by (simp add: add.assoc)
    then show ?thesis by (simp add: m'_def)
  qed
  ultimately show "str_at m' (p + of_nat (length t) + 1) post"
    using str_at_cong [of post m "p + of_nat (length t) + 1" m'] by blast
qed

text \<open>One call of \<open>strtok_r\<close>: without a token, and with a first token.\<close>

lemma strtok_r_none:
  assumes q: "q = (if p \<noteq> 0 then p else sp)" and str: "str_at m q s" and delim: "valid_str m d ds" and none: "tokens ds s = []"
  shows "\<exists>sp'. strtok_r m p d sp = Some (0, m, sp')"
proof -
  define pre where "pre = takeWhile (\<lambda>c. c \<in> set ds) s"
  define start where "start = q + of_nat (length pre)"
  have d: "dropWhile (\<lambda>c. c \<in> set ds) s = []" using none by (cases rule: tokens_cases [of ds s]) simp_all
  then have s: "s = pre @ []" unfolding pre_def by (metis takeWhile_dropWhile_id)
  have e: "str_at m start []" using str_at_append [of m q pre "[]"] str s by (simp add: start_def)
  have "skip_delim m d q = Some start" using skip_delim_str [OF delim str] by (simp add: start_def pre_def)
  moreover have "m start = 0" "skip_token m d start = Some start" using e skip_token_str [OF delim e] by simp_all
  ultimately show ?thesis using q by (simp add: strtok_r_def Let_def)
qed

lemma inside_valid:
  assumes "valid_str m q s" "k + length u \<le> length s" "str_at m' (q + of_nat k) u"
  shows "valid_str m' (q + of_nat k) u"
proof -
  have "unat (q + of_nat k) = unat q + k" using assms(1,2) by (intro unat_add_of_nat) (simp add: valid_str_def)
  then show ?thesis using assms valid_strD(2) [OF assms(1), of k] by (simp add: valid_str_def)
qed

lemma strtok_r_some:
  assumes q: "q = (if p \<noteq> 0 then p else sp)"
    and str: "valid_str m q s" and delim: "valid_str m d ds"
    and apart: "\<And>i j. i \<le> length ds \<Longrightarrow> j \<le> length s \<Longrightarrow> d + of_nat i \<noteq> q + of_nat j"
    and tok: "tokens ds s = t # ts"
  obtains i k rest m' where "strtok_r m p d sp = Some (q + of_nat i, m', q + of_nat k)" "q + of_nat i \<noteq> 0"
    "i + length t \<le> length s" "str_at m' (q + of_nat i) t" "k + length rest \<le> length s"
    "valid_str m' (q + of_nat k) rest" "tokens ds rest = ts" "valid_str m' d ds"
    "\<And>a. (\<And>j. j < length s \<Longrightarrow> a \<noteq> q + of_nat j) \<Longrightarrow> m' a = m a"
proof -
  note s = valid_strD [OF str]
  define pre where "pre = takeWhile (\<lambda>c. c \<in> set ds) s"
  define start where "start = q + of_nat (length pre)"
  obtain post where some: "t \<noteq> []" "dropWhile (\<lambda>c. c \<in> set ds) s = t @ post"
      "t = takeWhile (\<lambda>c. c \<notin> set ds) (t @ post)" "post = dropWhile (\<lambda>c. c \<notin> set ds) (t @ post)" "tokens ds post = ts"
    using tok by (cases rule: tokens_cases [of ds s]) auto
  have s_eq: "s = pre @ t @ post" using takeWhile_dropWhile_id [of "\<lambda>c. c \<in> set ds" s] some(2) by (simp add: pre_def)
  have delim1: "skip_delim m d q = Some start" using skip_delim_str [OF delim s(1)] by (simp add: start_def pre_def)
  have t: "str_at m start (t @ post)" using str_at_append [of m q pre "t @ post"] s(1) s_eq by (simp add: start_def)
  define stop where "stop = start + of_nat (length t)"
  have stop_q: "stop = q + of_nat (length pre + length t)" by (simp add: stop_def start_def)
  have tk: "skip_token m d start = Some stop" using skip_token_str [OF delim t] some(3) by (simp add: stop_def)
  have start_nz: "start \<noteq> 0" using s(2) [of "length pre"] s_eq by (simp add: start_def)
  have post: "str_at m stop post" using str_at_append [OF t] by (simp add: stop_def)
  have le: "length pre + length t \<le> length s" by (simp add: s_eq)
  show ?thesis
  proof (cases post)
    case Nil
    have "start \<noteq> stop"
      using some(1) str_at_length [OF t] of_nat_u32_inj [of "length t" 0] by (simp add: stop_def Nil)
    then have run: "strtok_r m p d sp = Some (start, m, stop)"
      using delim1 tk post Nil q by (simp add: strtok_r_def Let_def)
    have stop0: "valid_str m stop []"
      using inside_valid [OF str, of "length pre + length t" "[]" m] le post Nil unfolding stop_q by simp
    show ?thesis
    proof (rule that [of "length pre" m "length pre + length t" "[]"])
      show "strtok_r m p d sp = Some (q + of_nat (length pre), m, q + of_nat (length pre + length t))"
        using run unfolding start_def [symmetric] stop_q [symmetric] .
      show "q + of_nat (length pre) \<noteq> 0" using start_nz unfolding start_def .
      show "str_at m (q + of_nat (length pre)) t" using t Nil by (simp add: start_def)
      show "valid_str m (q + of_nat (length pre + length t)) []" using stop0 unfolding stop_q .
      show "tokens ds [] = ts" using some(5) Nil by simp
    qed (use le delim in simp_all)
  next
    case (Cons c rest)
    let ?m = "m(stop := 0)"
    have c: "c \<in> set ds" "m stop \<noteq> 0"
      using some(4) Cons post by (auto dest: dropWhile_eq_Cons_conv [THEN iffD1, OF sym])
    then have run: "strtok_r m p d sp = Some (start, ?m, stop + 1)"
      using delim1 tk q by (simp add: strtok_r_def Let_def)
    define k where "k = length pre + length t + 1"
    have k: "stop + 1 = q + of_nat k" by (simp add: stop_q k_def)
    have cut: "str_at ?m start t" "str_at ?m (stop + 1) rest"
      using str_at_cut [of m start t c rest] t Cons by (simp_all add: stop_def)
    have k_le: "k + length rest \<le> length s" by (simp add: k_def s_eq Cons)
    have "valid_str ?m (q + of_nat k) rest"
      by (rule inside_valid [OF str k_le]) (use cut(2) k in simp)
    moreover have "tokens ds rest = ts" using Cons c(1) some(5) by (simp add: tokens_delim)
    moreover have "valid_str ?m d ds"
    proof -
      have "m (d + of_nat i) = ?m (d + of_nat i)" if "i \<le> length ds" for i
        using apart [OF that, of "length pre + length t"] s_eq stop_q by simp
      then have "str_at ?m d ds = str_at m d ds" using str_at_copy [of ds m d ?m d] by blast
      then show ?thesis using delim by (simp add: valid_str_def)
    qed
    moreover have "?m a = m a" if "\<And>j. j < length s \<Longrightarrow> a \<noteq> q + of_nat j" for a
      using that [of "length pre + length t"] stop_q by (simp add: s_eq Cons)
    ultimately show ?thesis
      using that [of "length pre" ?m k rest] run cut(1) start_nz k k_le le by (simp add: start_def)
  qed
qed

section \<open>Properties\<close>

lemma memcpy_eq:
  "dst = src \<or> sz \<le> dst - src \<Longrightarrow>
   memcpy m dst src sz = (dst, \<lambda>a. if in_range dst sz a then m (src + (a - dst)) else m a)"
  by (simp add: memcpy_def memcpy_loop_eq in_range_def)

text \<open>
  C4. \<open>memmove\<close> moves a block between any two places of the address space, overlapping or
  not: afterwards the destination holds what the source held before, and nothing else changed.
\<close>

theorem memmove_correct:
  assumes src: "unat src + unat sz \<le> 4294967296" and dst: "unat dst + unat sz \<le> 4294967296"
  shows "memmove m dst src sz = (dst, \<lambda>a. if in_range dst sz a then m (src + (a - dst)) else m a)"
proof (cases "dst < src")
  case True
  have "unat (dst - src) + unat (src - dst) = 4294967296"
  proof -
    have "dst - src = - (src - dst)" by simp
    moreover have "src - dst \<noteq> 0" using True by auto
    ultimately show ?thesis using unat_uminus [of "src - dst"] by simp
  qed
  moreover have "unat (src - dst) = unat src - unat dst"
    using True by (simp add: unat_sub_small word_less_nat_alt)
  ultimately have "sz \<le> dst - src" using src by (simp add: word_le_nat_alt)
  then show ?thesis by (simp add: memmove_def True memcpy_loop_eq in_range_def)
next
  case False
  have "sz \<le> src - dst" if "dst \<noteq> src"
  proof -
    have "src - dst = - (dst - src)" by simp
    then have "unat (src - dst) + unat (dst - src) = 4294967296"
      using that unat_uminus [of "dst - src"] by simp
    moreover have "unat (dst - src) = unat dst - unat src"
      using False by (simp add: unat_sub_small word_less_nat_alt)
    ultimately show ?thesis using dst by (simp add: word_le_nat_alt)
  qed
  then have "dst = src \<or> sz \<le> src - dst" by blast
  then show ?thesis
    using False by (simp add: memmove_def memmove_down_eq in_range_def)
qed

text \<open>An overlapping move by one byte upwards: the byte read last is not the byte written first.\<close>

theorem memmove_correct_witness:
  "snd (memmove (\<lambda>a. ucast a) 11 10 3) 13 = 12 \<and> snd (memmove (\<lambda>a. ucast a) 11 10 3) 14 = 14"
  using memmove_correct [of 10 3 11 "\<lambda>a. ucast a"] by (simp add: in_range_def)

text \<open>
  \<open>strcpy\<close> returns on every string, with its copy (terminator included) at the
  destination and every byte outside the destination untouched, provided the destination does
  not start inside the source string.
\<close>

theorem strcpy_correct:
  assumes str: "str_at m src s" and len: "length s + 1 < 4294967296"
    and apart: "of_nat (length s) + 1 \<le> dest - src"
  shows "\<exists>m'. strcpy m dest src = Some (dest, m') \<and> str_at m' dest s
    \<and> (\<forall>a. \<not> in_range dest (of_nat (length s) + 1) a \<longrightarrow> m' a = m a)"
proof -
  let ?n = "of_nat (length s) + 1 :: u32"
  define m' where "m' = memcpy_loop m dest src ?n 0"
  have "strcpy_loop m dest src 0 = Some m'"
    using strcpy_loop_memcpy [of m src 0 s dest] assms by (simp add: m'_def add.commute)
  moreover have m': "m' = (\<lambda>a. if a - dest < ?n then m (src + (a - dest)) else m a)"
    using memcpy_loop_eq [of dest src ?n m 0] apart by (simp add: m'_def)
  have "m' (dest + of_nat i) = m (src + of_nat i)" if "i \<le> length s" for i
  proof -
    have "unat (of_nat (length s + 1) :: u32) = length s + 1"
      using len by (intro unat_of_nat_small) simp
    then have "unat ?n = length s + 1" by (simp add: add.commute)
    moreover have "unat (of_nat i :: u32) = i" using that len by (intro unat_of_nat_small) simp
    ultimately show ?thesis using that by (simp add: m' word_less_nat_alt)
  qed
  then have "str_at m' dest s"
    using str_at_copy [of s m' dest m src] str by blast
  moreover have "\<forall>a. \<not> in_range dest ?n a \<longrightarrow> m' a = m a" by (simp add: m' in_range_def)
  ultimately show ?thesis by (auto simp: strcpy_def)
qed

theorem strcpy_correct_witness:
  "\<exists>m'. strcpy ((\<lambda>_. 0)(100 := 65, 101 := 66)) 200 100 = Some (200, m') \<and> str_at m' 200 [65, 66]
    \<and> (\<forall>a. \<not> in_range 200 3 a \<longrightarrow> m' a = ((\<lambda>_. 0)(100 := 65, 101 := 66)) a)"
  using strcpy_correct [of "(\<lambda>_. 0)(100 := 65, 101 := 66)" 100 "[65, 66]" 200] by simp

text \<open>
  \<open>strcmp\<close> returns on every two strings: zero exactly when they are equal, and a
  negative number exactly when the first comes before the second in the lexicographic order of
  their unsigned bytes.
\<close>

theorem strcmp_correct:
  assumes "str_at m a s" and "str_at m b t"
  shows "\<exists>r. strcmp m a b = Some r \<and> (r = 0 \<longleftrightarrow> s = t)
    \<and> (r < 0 \<longleftrightarrow> (s, t) \<in> lexord {(x, y). x < y})"
  using assms strcmp_str [OF assms] str_at_nonzero [of m a s] str_at_nonzero [of m b t]
  by (simp add: str_compare_zero_iff str_compare_neg_iff)

theorem strcmp_correct_witness:
  "\<exists>r. strcmp ((\<lambda>_. 0)(100 := 65, 101 := 66, 200 := 65)) 200 100 = Some r \<and> r < 0"
  using strcmp_correct [of "(\<lambda>_. 0)(100 := 65, 101 := 66, 200 := 65)" 200 "[65]" 100 "[65, 66]"]
  by auto

text \<open>
  C5. One call of \<open>strtok_r\<close> on a string whose tokens are \<open>t # ts\<close> returns, as a
  NUL-terminated string in place, the first token, and leaves in \<open>*saveptr\<close> a string whose
  tokens are \<open>ts\<close>; on a string without tokens it returns the null pointer. The delimiter
  string and the rest stay valid for the next call, and nothing outside the string is written.
\<close>

theorem strtok_r_correct:
  assumes q: "q = (if p \<noteq> 0 then p else sp)"
    and str: "valid_str m q s" and delim: "valid_str m d ds"
    and apart: "\<And>i j. i \<le> length ds \<Longrightarrow> j \<le> length s \<Longrightarrow> d + of_nat i \<noteq> q + of_nat j"
  shows "\<exists>r m' sp'. strtok_r m p d sp = Some (r, m', sp') \<and> valid_str m' d ds
    \<and> (\<forall>a. (\<forall>j < length s. a \<noteq> q + of_nat j) \<longrightarrow> m' a = m a)
    \<and> (case tokens ds s of
         [] \<Rightarrow> r = 0 \<and> m' = m
       | t # ts \<Rightarrow> r \<noteq> 0 \<and> str_at m' r t
           \<and> (\<exists>k rest. sp' = q + of_nat k \<and> k + length rest \<le> length s
                \<and> valid_str m' sp' rest \<and> tokens ds rest = ts))"
proof (cases "tokens ds s")
  case Nil
  then show ?thesis using strtok_r_none [OF q valid_strD(1) [OF str] delim] delim by auto
next
  case (Cons t ts)
  obtain i k rest m' where "strtok_r m p d sp = Some (q + of_nat i, m', q + of_nat k)" "q + of_nat i \<noteq> 0"
    "str_at m' (q + of_nat i) t" "k + length rest \<le> length s" "valid_str m' (q + of_nat k) rest" "tokens ds rest = ts"
    "valid_str m' d ds" "\<And>a. (\<And>j. j < length s \<Longrightarrow> a \<noteq> q + of_nat j) \<Longrightarrow> m' a = m a"
    using strtok_r_some [OF q str delim apart Cons] by metis
  then show ?thesis using Cons by (intro exI [of _ "q + of_nat i"] exI [of _ m'] exI [of _ "q + of_nat k"]) auto
qed

theorem strtok_r_correct_witness:
  "\<exists>r m' sp'. strtok_r ((\<lambda>_. 0)(100 := 47, 101 := 65, 102 := 47, 103 := 66, 50 := 47)) 100 50 0
      = Some (r, m', sp') \<and> str_at m' r [65] \<and> (\<exists>rest. str_at m' sp' rest \<and> tokens [47] rest = [[66]])"
proof -
  let ?m = "(\<lambda>_. 0)(100 := 47, 101 := 65, 102 := 47, 103 := 66, 50 := 47) :: mem"
  have str: "valid_str ?m 100 [47, 65, 47, 66]" and delim: "valid_str ?m 50 [47]"
    by (simp_all add: valid_str_def)
  have toks: "tokens [47] [47, 65, 47, 66] = [[65], [66]]"
    by (simp add: tokens.simps)
  have apart: "50 + of_nat i \<noteq> (100 + of_nat j :: u32)" if "i \<le> length [47]" "j \<le> length [47, 65, 47, 66]" for i j
  proof -
    have "unat (50 + of_nat i :: u32) = 50 + i" "unat (100 + of_nat j :: u32) = 100 + j"
      using that by (simp_all add: unat_add_of_nat)
    then show ?thesis using that by (auto simp: word_eq_unat_iff)
  qed
  show ?thesis
    using strtok_r_correct [of 100 100 0 ?m "[47, 65, 47, 66]" 50 "[47]", OF _ str delim apart] toks
    by (auto simp: valid_str_def)
qed

end
