(* ===== verification/RingBuffer.thy ===== *)
theory RingBuffer
  imports KString
begin

text \<open>
  The ring buffer of \<open>kernel/src/all/kernel/ringbuffer.c\<close>: free-running 32-bit head and tail
  counters over an array of \<open>nb_elems\<close> elements of \<open>size_elem\<close> bytes. The elements are
  copied with the \<open>memcpy\<close> of \<open>libk\<close>, so the state of a buffer is its struct and the memory
  its array lies in. The contract is stated once, as a bounded queue, and the buffer is shown
  to implement it.
\<close>

section \<open>The struct and its operations\<close>

record ringbuffer =
  size_elem :: u32
  nb_elems :: u32
  buffer :: u32
  head :: u32
  tail :: u32

text \<open>The macro \<open>OFFSET\<close>; a remainder by zero is the divide error.\<close>

definition OFFSET :: "ringbuffer \<Rightarrow> u32 \<Rightarrow> u32 result" where
  "OFFSET rb position =
     (if nb_elems rb = 0 then Inl DivideError
      else Inr ((position mod nb_elems rb) * size_elem rb))"

definition ringbuffer_empty :: "ringbuffer \<Rightarrow> bool" where
  "ringbuffer_empty rb \<longleftrightarrow> head rb = tail rb"

definition ringbuffer_full :: "ringbuffer \<Rightarrow> bool" where
  "ringbuffer_full rb \<longleftrightarrow> head rb - tail rb = nb_elems rb"

definition ringbuffer_put ::
    "ringbuffer \<Rightarrow> mem \<Rightarrow> u32 \<Rightarrow> (int \<times> ringbuffer \<times> mem) result" where
  "ringbuffer_put rb m data =
     (if \<not> ringbuffer_full rb then
        bindE (OFFSET rb (head rb))
          (\<lambda>off. Inr (0, rb\<lparr>head := head rb + 1\<rparr>,
                      snd (memcpy m (buffer rb + off) data (size_elem rb))))
      else Inr (- 1, rb, m))"

definition ringbuffer_get ::
    "ringbuffer \<Rightarrow> mem \<Rightarrow> u32 \<Rightarrow> (int \<times> ringbuffer \<times> mem) result" where
  "ringbuffer_get rb m data =
     (if \<not> ringbuffer_empty rb then
        bindE (OFFSET rb (tail rb))
          (\<lambda>off. Inr (0, rb\<lparr>tail := tail rb + 1\<rparr>,
                      snd (memcpy m data (buffer rb + off) (size_elem rb))))
      else Inr (- 1, rb, m))"

section \<open>Abstraction and invariant\<close>

text \<open>
  \<open>nb_elems\<close> must be a power of two (the header says so): only then do the array positions
  stay in step when the counters wrap around at \<open>2^32\<close>.
\<close>

definition rb_ok :: "ringbuffer \<Rightarrow> bool" where
  "rb_ok rb \<longleftrightarrow>
     nb_elems rb \<in> (\<lambda>k. 2 ^ k) ` {..<32} \<and> 0 < size_elem rb
     \<and> unat (buffer rb) + unat (nb_elems rb) * unat (size_elem rb) \<le> 4294967296
     \<and> head rb - tail rb \<le> nb_elems rb"

text \<open>The byte offset in the array of the element with sequence number \<open>i\<close>.\<close>

definition rb_slot :: "ringbuffer \<Rightarrow> nat \<Rightarrow> nat" where
  "rb_slot rb i = (i mod unat (nb_elems rb)) * unat (size_elem rb)"

definition rb_element :: "ringbuffer \<Rightarrow> mem \<Rightarrow> nat \<Rightarrow> u8 list" where
  "rb_element rb m i = bytes_at m (buffer rb + of_nat (rb_slot rb i)) (unat (size_elem rb))"

definition rb_contents :: "ringbuffer \<Rightarrow> mem \<Rightarrow> u8 list list" where
  "rb_contents rb m =
     map (\<lambda>i. rb_element rb m (unat (tail rb) + i)) [0..<unat (head rb - tail rb)]"

definition in_buffer :: "ringbuffer \<Rightarrow> u32 \<Rightarrow> bool" where
  "in_buffer rb a \<longleftrightarrow> unat (a - buffer rb) < unat (nb_elems rb) * unat (size_elem rb)"

text \<open>A block of one element's size that shares no byte with the array.\<close>

definition rb_apart :: "ringbuffer \<Rightarrow> u32 \<Rightarrow> bool" where
  "rb_apart rb data \<longleftrightarrow> (\<forall>j. j < size_elem rb \<longrightarrow> \<not> in_buffer rb (data + j))"

section \<open>The contract: a bounded queue\<close>

text \<open>
  What a client of a queue in memory relies on. \<open>put\<close> and \<open>get\<close> take the address of the
  value to copy in or out; \<open>deref\<close> is the value at an address and \<open>apart\<close> holds of the
  addresses outside the queue's own storage.
\<close>

locale bounded_queue =
  fixes inv :: "'q \<Rightarrow> bool"
    and capacity :: "'q \<Rightarrow> nat"
    and contents :: "'q \<Rightarrow> 'v list"
    and apart :: "'q \<Rightarrow> 'p \<Rightarrow> bool"
    and deref :: "'q \<Rightarrow> 'p \<Rightarrow> 'v"
    and is_empty :: "'q \<Rightarrow> bool"
    and put :: "'q \<Rightarrow> 'p \<Rightarrow> (int \<times> 'q) result"
    and get :: "'q \<Rightarrow> 'p \<Rightarrow> (int \<times> 'q) result"
  assumes contents_bound: "inv q \<Longrightarrow> length (contents q) \<le> capacity q"
    and is_empty_iff: "inv q \<Longrightarrow> is_empty q \<longleftrightarrow> contents q = []"
    and put_room: "inv q \<Longrightarrow> apart q p \<Longrightarrow> length (contents q) < capacity q \<Longrightarrow>
      \<exists>q'. put q p = Inr (0, q') \<and> inv q' \<and> capacity q' = capacity q \<and> apart q' = apart q
        \<and> contents q' = contents q @ [deref q p]"
    and put_full: "inv q \<Longrightarrow> length (contents q) = capacity q \<Longrightarrow> put q p = Inr (- 1, q)"
    and get_some: "inv q \<Longrightarrow> apart q p \<Longrightarrow> contents q = v # vs \<Longrightarrow>
      \<exists>q'. get q p = Inr (0, q') \<and> inv q' \<and> capacity q' = capacity q \<and> apart q' = apart q
        \<and> contents q' = vs \<and> deref q' p = v"
    and get_none: "inv q \<Longrightarrow> contents q = [] \<Longrightarrow> get q p = Inr (- 1, q)"
begin

text \<open>\<open>put\<close> never faults: it queues the value or, when there is no room, changes nothing.\<close>

lemma put_total:
  assumes "inv q" and "apart q p"
  shows "\<exists>r q'. put q p = Inr (r, q') \<and> inv q' \<and> capacity q' = capacity q \<and> apart q' = apart q
    \<and> contents q' = (if length (contents q) < capacity q then contents q @ [deref q p] else contents q)"
proof (cases "length (contents q) < capacity q")
  case True
  with put_room [OF assms] show ?thesis by auto
next
  case False
  with contents_bound [OF assms(1)] put_full [OF assms(1)] assms show ?thesis by auto
qed

text \<open>First in, first out: what was queued before a \<open>put\<close> comes out before its value.\<close>

lemma put_get_fifo:
  assumes "inv q" and "apart q p" and "apart q p'" and room: "length (contents q) < capacity q"
  shows "\<exists>q1 q2. put q p = Inr (0, q1) \<and> get q1 p' = Inr (0, q2) \<and> inv q2
    \<and> deref q2 p' # contents q2 = contents q @ [deref q p]"
proof -
  obtain q1 where q1: "put q p = Inr (0, q1)" "inv q1" "apart q1 = apart q"
      "contents q1 = contents q @ [deref q p]"
    using put_room [OF assms(1,2) room] by blast
  obtain v vs where vs: "contents q1 = v # vs" using q1(4) by (cases "contents q") auto
  obtain q2 where "get q1 p' = Inr (0, q2)" "inv q2" "contents q2 = vs" "deref q2 p' = v"
    using get_some [OF q1(2) _ vs] q1(3) assms(3) by auto
  with q1 vs show ?thesis by auto
qed

end

section \<open>Positions\<close>

lemma rb_nb:
  assumes "rb_ok rb"
  obtains k where "k < 32" and "unat (nb_elems rb) = 2 ^ k"
proof -
  obtain k where k: "k < 32" "nb_elems rb = 2 ^ k" using assms by (auto simp: rb_ok_def)
  have "(2::nat) ^ k < 2 ^ 32" using k(1) by (intro power_strict_increasing) simp_all
  then have "unat (2 ^ k :: u32) = 2 ^ k" using unat_of_nat_small [of "2 ^ k", where 'a = 32] by simp
  with that k show ?thesis by auto
qed

lemma rb_bounds:
  assumes "rb_ok rb"
  shows "0 < unat (nb_elems rb)" and "nb_elems rb \<noteq> 0" and "0 < unat (size_elem rb)"
    and "unat (buffer rb) + unat (nb_elems rb) * unat (size_elem rb) \<le> 4294967296"
    and "rb_slot rb i + unat (size_elem rb) \<le> unat (nb_elems rb) * unat (size_elem rb)"
    and "rb_slot rb i + unat (size_elem rb) \<le> 4294967296"
proof -
  show N: "0 < unat (nb_elems rb)" by (rule rb_nb [OF assms]) simp
  then show "nb_elems rb \<noteq> 0" by auto
  show "0 < unat (size_elem rb)" using assms by (simp add: rb_ok_def unat_gt_0 word_neq_0_conv)
  show B: "unat (buffer rb) + unat (nb_elems rb) * unat (size_elem rb) \<le> 4294967296"
    using assms by (simp add: rb_ok_def)
  have "(i mod unat (nb_elems rb) + 1) * unat (size_elem rb) \<le> unat (nb_elems rb) * unat (size_elem rb)"
    using N by (intro mult_le_mono1) (simp add: Suc_leI)
  then show S: "rb_slot rb i + unat (size_elem rb) \<le> unat (nb_elems rb) * unat (size_elem rb)"
    by (simp add: rb_slot_def)
  show "rb_slot rb i + unat (size_elem rb) \<le> 4294967296" using S B by linarith
qed

text \<open>The word arithmetic of \<open>OFFSET\<close> computes the slot of the counter.\<close>

lemma OFFSET_slot:
  assumes "rb_ok rb"
  shows "OFFSET rb p = Inr (of_nat (rb_slot rb (unat p)))"
proof -
  have "(p mod nb_elems rb) * size_elem rb
      = of_nat (unat (p mod nb_elems rb)) * of_nat (unat (size_elem rb))" by simp
  also have "\<dots> = of_nat (rb_slot rb (unat p))"
    by (simp only: rb_slot_def unat_mod_distrib of_nat_mult)
  finally show ?thesis using rb_bounds(2) [OF assms] by (simp add: OFFSET_def)
qed

lemma rb_slot_wrap:
  assumes "rb_ok rb"
  shows "rb_slot rb (i mod 4294967296) = rb_slot rb i"
proof -
  obtain k where k: "k < 32" "unat (nb_elems rb) = 2 ^ k" by (rule rb_nb [OF assms])
  have "(2::nat) ^ k dvd 2 ^ 32" using k(1) by (intro le_imp_power_dvd) simp
  then have "i mod 4294967296 mod 2 ^ k = i mod 2 ^ k" by (simp add: mod_mod_cancel)
  then show ?thesis by (simp add: rb_slot_def k(2))
qed

lemma rb_slot_counter:
  assumes "rb_ok rb"
  shows "rb_slot rb (unat (p + of_nat i :: u32)) = rb_slot rb (unat p + i)"
proof -
  have "unat (p + of_nat i) = (unat p + i) mod 4294967296"
    by (simp add: unat_word_ariths unat_of_nat mod_add_right_eq)
  then show ?thesis by (simp only: rb_slot_wrap [OF assms])
qed

lemma rb_slot_distinct:
  assumes "rb_ok rb" and "i < j" and "j < i + unat (nb_elems rb)"
  shows "rb_slot rb i + unat (size_elem rb) \<le> rb_slot rb j
    \<or> rb_slot rb j + unat (size_elem rb) \<le> rb_slot rb i"
proof -
  let ?N = "unat (nb_elems rb)" and ?S = "unat (size_elem rb)"
  have "i mod ?N \<noteq> j mod ?N"
  proof
    assume "i mod ?N = j mod ?N"
    then have "?N dvd j - i" using assms(2) mod_eq_dvd_iff_nat [of i j ?N] by (metis less_imp_le)
    then show False using assms(2,3) by (auto dest: dvd_imp_le)
  qed
  then have "i mod ?N + 1 \<le> j mod ?N \<or> j mod ?N + 1 \<le> i mod ?N" by linarith
  then have "(i mod ?N + 1) * ?S \<le> (j mod ?N) * ?S \<or> (j mod ?N + 1) * ?S \<le> (i mod ?N) * ?S"
    using mult_le_mono1 by blast
  then show ?thesis by (simp add: rb_slot_def add.commute)
qed

lemma in_buffer_offset:
  "x < 4294967296 \<Longrightarrow>
   in_buffer rb (buffer rb + of_nat x) \<longleftrightarrow> x < unat (nb_elems rb) * unat (size_elem rb)"
  by (simp add: in_buffer_def unat_of_nat_small)

lemma in_buffer_slot:
  assumes "rb_ok rb" and "b < unat (size_elem rb)"
  shows "in_buffer rb (buffer rb + of_nat (rb_slot rb i + b))"
  using rb_bounds(5,6) [OF assms(1), of i] assms(2) by (subst in_buffer_offset) simp_all

lemma word_offset: "a = p + of_nat (unat (a - p))" for a p :: u32
  by simp

section \<open>The ring buffer is a bounded queue\<close>

lemma put_effect:
  assumes ok: "rb_ok rb" and apart: "rb_apart rb data" and room: "\<not> ringbuffer_full rb"
  defines "dst \<equiv> buffer rb + of_nat (rb_slot rb (unat (head rb)))"
  shows "ringbuffer_put rb m data = Inr (0, rb\<lparr>head := head rb + 1\<rparr>,
    \<lambda>a. if in_range dst (size_elem rb) a then m (data + (a - dst)) else m a)"
proof -
  have "in_buffer rb dst"
    using in_buffer_slot [OF ok rb_bounds(3) [OF ok], of "unat (head rb)"] by (simp add: dst_def)
  have "size_elem rb \<le> dst - data"
  proof (rule ccontr)
    assume "\<not> size_elem rb \<le> dst - data"
    then have "dst - data < size_elem rb" by (simp add: not_le)
    then have "\<not> in_buffer rb (data + (dst - data))" using apart unfolding rb_apart_def by blast
    then show False using \<open>in_buffer rb dst\<close> by simp
  qed
  then show ?thesis
    using room ok by (simp add: ringbuffer_put_def OFFSET_slot memcpy_eq dst_def cong: if_cong)
qed

lemma get_effect:
  assumes ok: "rb_ok rb" and apart: "rb_apart rb data" and some: "\<not> ringbuffer_empty rb"
  defines "src \<equiv> buffer rb + of_nat (rb_slot rb (unat (tail rb)))"
  shows "ringbuffer_get rb m data = Inr (0, rb\<lparr>tail := tail rb + 1\<rparr>,
    \<lambda>a. if in_range data (size_elem rb) a then m (src + (a - data)) else m a)"
proof -
  have "size_elem rb \<le> data - src"
  proof (rule ccontr)
    assume "\<not> size_elem rb \<le> data - src"
    then have "unat (data - src) < unat (size_elem rb)" by (simp add: word_le_nat_alt)
    from in_buffer_slot [OF ok this, of "unat (tail rb)"] have "in_buffer rb data"
      by (simp add: src_def)
    moreover have "0 < size_elem rb" using ok by (simp add: rb_ok_def)
    then have "\<not> in_buffer rb (data + 0)" using apart unfolding rb_apart_def by blast
    ultimately show False by simp
  qed
  then show ?thesis
    using some ok by (simp add: ringbuffer_get_def OFFSET_slot memcpy_eq src_def cong: if_cong)
qed

lemma rb_element_frame:
  assumes "rb_ok rb" and "\<And>a. in_buffer rb a \<Longrightarrow> m' a = m a"
  shows "rb_element rb m' i = rb_element rb m i"
  unfolding rb_element_def
  using in_buffer_slot [OF assms(1)] by (intro bytes_at_cong) (simp add: assms(2) add.assoc)

lemma rb_length: "length (rb_contents rb m) = unat (head rb - tail rb)"
  by (simp add: rb_contents_def)

lemma rb_element_update [simp]:
  "rb_element (rb\<lparr>head := h\<rparr>) = rb_element rb" "rb_element (rb\<lparr>tail := t\<rparr>) = rb_element rb"
  by (simp_all add: rb_element_def rb_slot_def fun_eq_iff)

lemma rb_element_counter:
  assumes "rb_ok rb"
  shows "rb_element rb m (unat (p + of_nat i :: u32)) = rb_element rb m (unat p + i)"
  by (simp add: rb_element_def rb_slot_counter [OF assms])

lemma put_new_element:
  fixes h :: nat and m :: mem and data :: u32
  assumes "rb_ok rb"
  defines "S \<equiv> unat (size_elem rb)"
  defines "dst \<equiv> buffer rb + of_nat (rb_slot rb h)"
  defines "m' \<equiv> \<lambda>a. if in_range dst (size_elem rb) a then m (data + (a - dst)) else m a"
  shows "rb_element rb m' h = bytes_at m data S"
    and "i < h \<Longrightarrow> h < i + unat (nb_elems rb) \<Longrightarrow> rb_element rb m' i = rb_element rb m i"
proof -
  have hS: "rb_slot rb h + S \<le> 4294967296" using rb_bounds(6) [OF assms(1)] by (simp add: S_def)
  have range: "in_range dst (size_elem rb) (buffer rb + of_nat x)
      \<longleftrightarrow> rb_slot rb h \<le> x \<and> x < rb_slot rb h + S" if "x < 4294967296" for x
    using in_range_offsets [OF that hS, of "buffer rb"] by (simp add: dst_def S_def)
  have less: "rb_slot rb j + b < 4294967296" if "b < S" for j b
    using rb_bounds(6) [OF assms(1), of j] that by (simp add: S_def)
  have "m' (buffer rb + of_nat (rb_slot rb h) + of_nat b) = m (data + of_nat b)" if "b < S" for b
    using range [OF less [OF that, of h]] that by (simp add: m'_def dst_def add.assoc)
  then show "rb_element rb m' h = bytes_at m data S"
    unfolding rb_element_def S_def [symmetric] by (intro bytes_at_cong)
  assume "i < h" "h < i + unat (nb_elems rb)"
  then have "rb_slot rb i + S \<le> rb_slot rb h \<or> rb_slot rb h + S \<le> rb_slot rb i"
    unfolding S_def by (rule rb_slot_distinct [OF assms(1)])
  then have "m' (buffer rb + of_nat (rb_slot rb i) + of_nat b)
      = m (buffer rb + of_nat (rb_slot rb i) + of_nat b)" if "b < S" for b
    using range [OF less [OF that, of i]] that by (auto simp: m'_def add.assoc)
  then show "rb_element rb m' i = rb_element rb m i"
    unfolding rb_element_def S_def [symmetric] by (intro bytes_at_cong)
qed

lemma rb_head_count:
  assumes "rb_ok rb" and "\<not> ringbuffer_full rb"
  shows "unat (head rb + 1 - tail rb) = Suc (unat (head rb - tail rb))"
    and "head rb + 1 - tail rb \<le> nb_elems rb"
    and "unat (head rb - tail rb) < unat (nb_elems rb)"
proof -
  have "head rb - tail rb < nb_elems rb"
    using assms by (auto simp: rb_ok_def ringbuffer_full_def order.strict_iff_order)
  moreover have "head rb + 1 - tail rb = head rb - tail rb + 1" by simp
  ultimately show count: "unat (head rb + 1 - tail rb) = Suc (unat (head rb - tail rb))"
    using unat_plus_one [of "head rb - tail rb"] by (simp only:)
  show less: "unat (head rb - tail rb) < unat (nb_elems rb)"
    using \<open>head rb - tail rb < nb_elems rb\<close> by (simp add: word_less_nat_alt)
  then show "head rb + 1 - tail rb \<le> nb_elems rb" by (simp only: word_le_nat_alt count Suc_leI)
qed

lemma put_contents:
  assumes ok: "rb_ok rb" and apart: "rb_apart rb data" and room: "\<not> ringbuffer_full rb"
  shows "\<exists>m'. ringbuffer_put rb m data = Inr (0, rb\<lparr>head := head rb + 1\<rparr>, m')
    \<and> rb_ok (rb\<lparr>head := head rb + 1\<rparr>)
    \<and> rb_contents (rb\<lparr>head := head rb + 1\<rparr>) m'
        = rb_contents rb m @ [bytes_at m data (unat (size_elem rb))]"
proof -
  let ?dst = "buffer rb + of_nat (rb_slot rb (unat (head rb)))"
  let ?m = "\<lambda>a. if in_range ?dst (size_elem rb) a then m (data + (a - ?dst)) else m a"
  define n where "n = unat (head rb - tail rb)"
  note count = rb_head_count [OF ok room, folded n_def]
  have "head rb = tail rb + of_nat n" by (simp add: n_def)
  then have slot: "rb_slot rb (unat (head rb)) = rb_slot rb (unat (tail rb) + n)"
    using rb_slot_counter [OF ok] by simp
  then have new: "rb_element rb ?m (unat (tail rb) + n) = bytes_at m data (unat (size_elem rb))"
    using put_new_element(1) [OF ok, of "unat (tail rb) + n" m data] by (simp only:)
  have old: "rb_element rb ?m (unat (tail rb) + i) = rb_element rb m (unat (tail rb) + i)" if "i < n" for i
    using put_new_element(2) [OF ok, of "unat (tail rb) + i" "unat (tail rb) + n" m data] that count(3)
    by (simp add: slot cong: if_cong)
  have "rb_contents (rb\<lparr>head := head rb + 1\<rparr>) ?m
      = rb_contents rb m @ [bytes_at m data (unat (size_elem rb))]"
    using new old by (simp add: rb_contents_def count(1) flip: n_def)
  moreover have "rb_ok (rb\<lparr>head := head rb + 1\<rparr>)"
    using ok count(2) by (simp add: rb_ok_def)
  ultimately show ?thesis using put_effect [OF ok apart room] by auto
qed

lemma get_contents:
  assumes ok: "rb_ok rb" and apart: "rb_apart rb data" and some: "rb_contents rb m = v # vs"
  shows "\<exists>m'. ringbuffer_get rb m data = Inr (0, rb\<lparr>tail := tail rb + 1\<rparr>, m')
    \<and> rb_ok (rb\<lparr>tail := tail rb + 1\<rparr>)
    \<and> rb_contents (rb\<lparr>tail := tail rb + 1\<rparr>) m' = vs
    \<and> bytes_at m' data (unat (size_elem rb)) = v"
proof -
  let ?src = "buffer rb + of_nat (rb_slot rb (unat (tail rb)))"
  define m' where "m' = (\<lambda>a. if in_range data (size_elem rb) a then m (?src + (a - data)) else m a)"
  define n where "n = unat (head rb - tail rb)"
  have n: "n = Suc (length vs)" using arg_cong [OF some, of length] by (simp add: rb_length n_def)
  then have "head rb - tail rb \<noteq> 0" by (auto simp: n_def)
  then have left: "unat (head rb - (tail rb + 1)) = length vs"
    using n unat_minus_one [of "head rb - tail rb"] by (simp add: n_def diff_diff_eq)
  have "m' a = m a" if "in_buffer rb a" for a
  proof -
    have "\<not> in_range data (size_elem rb) a"
    proof
      assume "in_range data (size_elem rb) a"
      then have "\<not> in_buffer rb (data + (a - data))" using apart unfolding rb_apart_def in_range_def by blast
      with that show False by simp
    qed
    then show ?thesis by (simp add: m'_def)
  qed
  then have frame: "rb_element rb m' = rb_element rb m"
    using rb_element_frame [OF ok] by (intro ext) blast
  have "rb_contents rb m = map (\<lambda>i. rb_element rb m (unat (tail rb) + i)) (0 # [1..<Suc (length vs)])"
    by (simp only: rb_contents_def n_def [symmetric] n upt_conv_Cons [of 0 "Suc (length vs)"]) simp
  then have v: "rb_element rb m (unat (tail rb)) = v"
    and vs: "map (\<lambda>i. rb_element rb m (unat (tail rb) + i)) [1..<Suc (length vs)] = vs"
    using some by simp_all
  have "rb_contents (rb\<lparr>tail := tail rb + 1\<rparr>) m'
      = map (\<lambda>i. rb_element rb m (unat (tail rb) + Suc i)) [0..<length vs]"
    using rb_element_counter [OF ok, of m "tail rb + 1"] rb_element_counter [OF ok, of m "tail rb" "Suc _"]
    by (simp add: rb_contents_def left frame add.assoc)
  also have "\<dots> = vs" using vs by (simp add: map_Suc_upt [symmetric] o_def del: upt_Suc map_Suc_upt)
  finally have "rb_contents (rb\<lparr>tail := tail rb + 1\<rparr>) m' = vs" .
  moreover have "bytes_at m' data (unat (size_elem rb)) = v"
    unfolding v [symmetric] rb_element_def
    by (intro bytes_at_cong)
      (simp add: m'_def in_range_def word_less_nat_alt unat_of_nat_small
        less_trans [OF _ unat_u32_bound])
  moreover have "rb_ok (rb\<lparr>tail := tail rb + 1\<rparr>)"
    using ok left n by (simp add: rb_ok_def word_le_nat_alt n_def)
  moreover have "\<not> ringbuffer_empty rb" using \<open>head rb - tail rb \<noteq> 0\<close> by (auto simp: ringbuffer_empty_def)
  ultimately show ?thesis using get_effect [OF ok apart] by (auto simp: m'_def)
qed

lemma rb_apart_update [simp]:
  "rb_apart (rb\<lparr>head := h\<rparr>) = rb_apart rb" "rb_apart (rb\<lparr>tail := t\<rparr>) = rb_apart rb"
  by (simp_all add: rb_apart_def in_buffer_def fun_eq_iff)

lemma rb_full_iff: "rb_ok rb \<Longrightarrow> ringbuffer_full rb \<longleftrightarrow> length (rb_contents rb m) = unat (nb_elems rb)"
  by (simp add: ringbuffer_full_def rb_length word_eq_unat_iff)

interpretation rbq: bounded_queue
  "\<lambda>(rb, m). rb_ok rb"
  "\<lambda>(rb, m). unat (nb_elems rb)"
  "\<lambda>(rb, m). rb_contents rb m"
  "\<lambda>(rb, m). rb_apart rb"
  "\<lambda>(rb, m) p. bytes_at m p (unat (size_elem rb))"
  "\<lambda>(rb, m). ringbuffer_empty rb"
  "\<lambda>(rb, m). ringbuffer_put rb m"
  "\<lambda>(rb, m). ringbuffer_get rb m"
proof (unfold_locales, goal_cases)
  case (1 q)
  then show ?case by (cases q) (auto simp: rb_length rb_ok_def word_le_nat_alt)
next
  case (2 q)
  then show ?case
    by (cases q) (auto simp: rb_contents_def ringbuffer_empty_def unat_eq_0)
next
  case (3 q p)
  obtain rb m where q: "q = (rb, m)" by (cases q)
  with 3 have "\<not> ringbuffer_full rb" using rb_full_iff [of rb m] by auto
  with 3 q show ?case using put_contents [of rb p m] by auto
next
  case (4 q p)
  then show ?case by (cases q) (auto simp: ringbuffer_put_def rb_full_iff [symmetric])
next
  case (5 q p v vs)
  then show ?case by (cases q) (use get_contents in \<open>fastforce\<close>)
next
  case (6 q p)
  then show ?case
    by (cases q) (auto simp: ringbuffer_get_def ringbuffer_empty_def rb_contents_def unat_eq_0)
qed

section \<open>Properties\<close>

text \<open>
  C6. \<open>ringbuffer_put\<close> implements the bounded queue across the wrap-around of its counters:
  with room it returns 0 and the contents grow by the element at \<open>data\<close>, when full it
  returns -1 and changes nothing; the invariant is kept either way.
\<close>

theorem ringbuffer_put_correct:
  assumes "rb_ok rb" and "rb_apart rb data"
  shows "\<exists>rb' m'. ringbuffer_put rb m data =
      Inr (if length (rb_contents rb m) < unat (nb_elems rb) then 0 else - 1, rb', m')
    \<and> rb_ok rb'
    \<and> rb_contents rb' m' =
        (if length (rb_contents rb m) < unat (nb_elems rb)
         then rb_contents rb m @ [bytes_at m data (unat (size_elem rb))] else rb_contents rb m)"
proof (cases "length (rb_contents rb m) < unat (nb_elems rb)")
  case True
  then show ?thesis using rbq.put_room [of "(rb, m)" data] assms by auto
next
  case False
  then have "length (rb_contents rb m) = unat (nb_elems rb)"
    using rbq.contents_bound [of "(rb, m)"] assms(1) by simp
  then show ?thesis using rbq.put_full [of "(rb, m)" data] assms(1) by simp
qed

abbreviation (input) wrapping_rb :: ringbuffer where
  "wrapping_rb \<equiv> \<lparr>size_elem = 1, nb_elems = 8, buffer = 1000, head = 0, tail = 0xFFFFFFFF\<rparr>"

lemma wrapping_rb_ok: "rb_ok wrapping_rb" and wrapping_rb_apart: "rb_apart wrapping_rb 500"
proof -
  have "(8 :: u32) = 2 ^ 3" by simp
  then have "(8 :: u32) \<in> (\<lambda>k. 2 ^ k) ` {..<32}" by (intro image_eqI [of _ _ 3]) simp_all
  moreover have "(1 :: u32) \<le> 8" by (simp add: word_le_nat_alt)
  ultimately show "rb_ok wrapping_rb" by (simp add: rb_ok_def)
  show "rb_apart wrapping_rb 500"
    by (auto simp: rb_apart_def in_buffer_def word_less_nat_alt unat_eq_0)
qed

theorem ringbuffer_put_correct_witness:
  "\<exists>rb' m'. ringbuffer_put wrapping_rb (\<lambda>_. 65) 500 = Inr (0, rb', m') \<and> rb_contents rb' m' = [[65], [65]]"
  using ringbuffer_put_correct [OF wrapping_rb_ok wrapping_rb_apart, of "\<lambda>_. 65"]
  by (auto simp: rb_contents_def rb_element_def bytes_at_def)

text \<open>
  First in, first out: after a \<open>ringbuffer_put\<close> with room, \<open>ringbuffer_get\<close>
  succeeds and hands out the oldest element, the new one being last in line.
\<close>

theorem ringbuffer_fifo:
  assumes "rb_ok rb" and "rb_apart rb data" and "rb_apart rb out"
    and "length (rb_contents rb m) < unat (nb_elems rb)"
  shows "\<exists>rb1 m1 rb2 m2. ringbuffer_put rb m data = Inr (0, rb1, m1)
    \<and> ringbuffer_get rb1 m1 out = Inr (0, rb2, m2) \<and> rb_ok rb2
    \<and> bytes_at m2 out (unat (size_elem rb2)) # rb_contents rb2 m2
        = rb_contents rb m @ [bytes_at m data (unat (size_elem rb))]"
  using rbq.put_get_fifo [of "(rb, m)" data out] assms by (auto split: prod.splits)

theorem ringbuffer_fifo_witness:
  "\<exists>rb1 m1 rb2 m2. ringbuffer_put wrapping_rb ((\<lambda>_. 65)(500 := 66)) 500 = Inr (0, rb1, m1)
    \<and> ringbuffer_get rb1 m1 500 = Inr (0, rb2, m2) \<and> rb_contents rb2 m2 = [[66]]"
proof -
  have "rb_contents wrapping_rb ((\<lambda>_. 65)(500 := 66)) = [[65]]"
    by (simp add: rb_contents_def rb_element_def rb_slot_def bytes_at_def)
  then show ?thesis
    using ringbuffer_fifo [OF wrapping_rb_ok wrapping_rb_apart wrapping_rb_apart, of "(\<lambda>_. 65)(500 := 66)"]
    by (fastforce simp: bytes_at_def)
qed

end
