(* ===== verification/Sync.thy ===== *)
theory Sync
  imports Prelude
begin

text \<open>
  The spin locks of \<open>kernel/src/arch/i386/sync\<close>: the semaphore and the reentrant mutex, whose
  acquire operations are inline assembly. Each instruction of the assembly that touches shared
  state is one step of a thread, and threads interleave between any two instructions (the timer
  interrupt preempts them). A lock is also given as the function that one undisturbed call
  computes, which is what the clients of the locks use.
\<close>

section \<open>The register after a yield\<close>

text \<open>
  \<open>call sched_yield\<close> enters a C function, so the value that \<open>%eax\<close> has when it returns is not
  fixed by the C source: it is the parameter \<open>Y\<close> below, a function of the value before the
  call. \<open>sched_yield\<close> calls \<open>sched_sleep(0)\<close>, and \<open>sleep.S\<close> loads its argument in \<open>%eax\<close> before
  \<open>int $50\<close>, whose handler restores all registers; nothing assigns \<open>%eax\<close> afterwards.
\<close>

definition sched_sleep_eax :: "u32 \<Rightarrow> u32" where
  "sched_sleep_eax ms = ms"

definition sched_yield_eax :: "u32 \<Rightarrow> u32" where
  "sched_yield_eax eax = sched_sleep_eax 0"

text \<open>What a scheduled thread does next: call an operation or execute its next instruction.\<close>

datatype act = Acquire | Release | Instr

section \<open>The semaphore\<close>

text \<open>
  \<open>SpinLock\<close>, \<open>CallYield\<close>, \<open>GetLock\<close> and \<open>TestLock\<close> stand before \<open>cmp $0, lock\<close>, \<open>call
  sched_yield\<close>, \<open>xchg %eax, lock\<close> and \<open>cmp $0, %eax\<close>; a thread is \<open>SemIn\<close> from the end of
  \<open>semaphore_acquire\<close> to its \<open>semaphore_release\<close>.
\<close>

datatype sem_pc = SemOut | SpinLock | CallYield | GetLock | TestLock | SemIn

record sem_thread =
  sem_pc :: sem_pc
  sem_eax :: u32

record sem_sys =
  sem_lock :: u32
  sem_threads :: "u32 \<Rightarrow> sem_thread"

fun sem_instr :: "(u32 \<Rightarrow> u32) \<Rightarrow> u32 \<times> sem_thread \<Rightarrow> (u32 \<times> sem_thread) option" where
  "sem_instr Y (lock, th) =
     (case sem_pc th of
        SpinLock \<Rightarrow> Some (lock, th\<lparr>sem_pc := if lock = 0 then GetLock else CallYield\<rparr>)
      | CallYield \<Rightarrow> Some (lock, th\<lparr>sem_pc := SpinLock, sem_eax := Y (sem_eax th)\<rparr>)
      | GetLock \<Rightarrow> Some (sem_eax th, th\<lparr>sem_pc := TestLock, sem_eax := lock\<rparr>)
      | TestLock \<Rightarrow> Some (lock, th\<lparr>sem_pc := if sem_eax th \<noteq> 0 then SpinLock else SemIn\<rparr>)
      | SemOut \<Rightarrow> None
      | SemIn \<Rightarrow> None)"

text \<open>One step of the thread \<open>t\<close>; a call of \<open>semaphore_acquire\<close> loads its thread id in \<open>%eax\<close>.\<close>

fun sem_do :: "(u32 \<Rightarrow> u32) \<Rightarrow> act \<Rightarrow> u32 \<Rightarrow> sem_sys \<Rightarrow> sem_sys option" where
  "sem_do Y Acquire t s =
     (if sem_pc (sem_threads s t) = SemOut
      then Some (s\<lparr>sem_threads := (sem_threads s)(t := \<lparr>sem_pc = SpinLock, sem_eax = t\<rparr>)\<rparr>)
      else None)"
| "sem_do Y Instr t s =
     (case sem_instr Y (sem_lock s, sem_threads s t) of
        None \<Rightarrow> None
      | Some (lock, th) \<Rightarrow> Some \<lparr>sem_lock = lock, sem_threads = (sem_threads s)(t := th)\<rparr>)"
| "sem_do Y Release t s =
     (if sem_pc (sem_threads s t) = SemIn
      then Some \<lparr>sem_lock = 0,
                 sem_threads = (sem_threads s)(t := (sem_threads s t)\<lparr>sem_pc := SemOut\<rparr>)\<rparr>
      else None)"

definition sem_init :: sem_sys where
  "sem_init = \<lparr>sem_lock = 0, sem_threads = (\<lambda>_. \<lparr>sem_pc = SemOut, sem_eax = 0\<rparr>)\<rparr>"

inductive sem_reach :: "(u32 \<Rightarrow> u32) \<Rightarrow> sem_sys \<Rightarrow> bool" for Y where
  reach_init: "sem_reach Y sem_init"
| reach_step: "sem_reach Y s \<Longrightarrow> t \<noteq> 0 \<Longrightarrow> sem_do Y a t s = Some s' \<Longrightarrow> sem_reach Y s'"

text \<open>A given interleaving, for concrete runs.\<close>

fun sem_run :: "(u32 \<Rightarrow> u32) \<Rightarrow> (act \<times> u32) list \<Rightarrow> sem_sys \<Rightarrow> sem_sys option" where
  "sem_run Y [] s = Some s"
| "sem_run Y ((a, t) # sch) s =
     (if t = 0 then None else case sem_do Y a t s of None \<Rightarrow> None | Some s' \<Rightarrow> sem_run Y sch s')"

text \<open>
  The operations as one undisturbed call computes them: \<open>None\<close> when the caller spins until
  another thread releases the lock.
\<close>

definition semaphore_acquire :: "u32 \<Rightarrow> u32 \<Rightarrow> u32 option" where
  "semaphore_acquire tid lock = (if lock = 0 then Some tid else None)"

definition semaphore_release :: "u32 \<Rightarrow> u32" where
  "semaphore_release lock = 0"

section \<open>The mutex\<close>

text \<open>
  The program points of \<open>mutex_acquire\<close>: \<open>CmpOwner\<close> before \<open>cmp %eax, lock\<close>, \<open>CmpFree\<close> before
  \<open>cmp $0, lock\<close>, \<open>Yielding\<close> before the call, \<open>Xchg\<close>, \<open>TestXchg\<close>, \<open>ClearLevel\<close> before \<open>movw $0,
  level\<close> and \<open>IncLevel\<close> before \<open>incw level\<close>; of \<open>mutex_release\<close>: \<open>DecLevel\<close> before the decrement
  and \<open>Unlock\<close> before \<open>lock = 0\<close>. \<open>mtx_held\<close> counts the thread's completed acquires that it has
  not begun to release.
\<close>

datatype mtx_pc =
  MtxOut | CmpOwner | CmpFree | Yielding | Xchg | TestXchg | ClearLevel | IncLevel | DecLevel | Unlock

record mtx_thread =
  mtx_pc :: mtx_pc
  mtx_eax :: u32
  mtx_held :: nat

record mutex =
  mtx_lock :: u32
  mtx_level :: u16

record mtx_sys =
  mtx_mutex :: mutex
  mtx_threads :: "u32 \<Rightarrow> mtx_thread"

fun mtx_instr :: "(u32 \<Rightarrow> u32) \<Rightarrow> mutex \<times> mtx_thread \<Rightarrow> (mutex \<times> mtx_thread) option" where
  "mtx_instr Y (m, th) =
     (case mtx_pc th of
        CmpOwner \<Rightarrow> Some (m, th\<lparr>mtx_pc := if mtx_lock m = mtx_eax th then IncLevel else CmpFree\<rparr>)
      | CmpFree \<Rightarrow> Some (m, th\<lparr>mtx_pc := if mtx_lock m = 0 then Xchg else Yielding\<rparr>)
      | Yielding \<Rightarrow> Some (m, th\<lparr>mtx_pc := CmpOwner, mtx_eax := Y (mtx_eax th)\<rparr>)
      | Xchg \<Rightarrow> Some (m\<lparr>mtx_lock := mtx_eax th\<rparr>, th\<lparr>mtx_pc := TestXchg, mtx_eax := mtx_lock m\<rparr>)
      | TestXchg \<Rightarrow> Some (m, th\<lparr>mtx_pc := if mtx_eax th \<noteq> 0 then CmpOwner else ClearLevel\<rparr>)
      | ClearLevel \<Rightarrow> Some (m\<lparr>mtx_level := 0\<rparr>, th\<lparr>mtx_pc := IncLevel\<rparr>)
      | IncLevel \<Rightarrow> Some (m\<lparr>mtx_level := mtx_level m + 1\<rparr>,
                           th\<lparr>mtx_pc := MtxOut, mtx_held := Suc (mtx_held th)\<rparr>)
      | DecLevel \<Rightarrow> Some (m\<lparr>mtx_level := mtx_level m - 1\<rparr>,
                           th\<lparr>mtx_pc := if mtx_level m - 1 = 0 then Unlock else MtxOut\<rparr>)
      | Unlock \<Rightarrow> Some (m\<lparr>mtx_lock := 0\<rparr>, th\<lparr>mtx_pc := MtxOut\<rparr>)
      | MtxOut \<Rightarrow> None)"

fun mtx_do :: "(u32 \<Rightarrow> u32) \<Rightarrow> act \<Rightarrow> u32 \<Rightarrow> mtx_sys \<Rightarrow> mtx_sys option" where
  "mtx_do Y Acquire t s =
     (if mtx_pc (mtx_threads s t) = MtxOut
      then Some (s\<lparr>mtx_threads := (mtx_threads s)
                     (t := (mtx_threads s t)\<lparr>mtx_pc := CmpOwner, mtx_eax := t\<rparr>)\<rparr>)
      else None)"
| "mtx_do Y Instr t s =
     (case mtx_instr Y (mtx_mutex s, mtx_threads s t) of
        None \<Rightarrow> None
      | Some (m, th) \<Rightarrow> Some \<lparr>mtx_mutex = m, mtx_threads = (mtx_threads s)(t := th)\<rparr>)"
| "mtx_do Y Release t s =
     (if mtx_pc (mtx_threads s t) = MtxOut \<and> 0 < mtx_held (mtx_threads s t)
      then Some (s\<lparr>mtx_threads := (mtx_threads s)
                     (t := (mtx_threads s t)\<lparr>mtx_pc := DecLevel, mtx_held := mtx_held (mtx_threads s t) - 1\<rparr>)\<rparr>)
      else None)"

definition mtx_init :: mtx_sys where
  "mtx_init = \<lparr>mtx_mutex = \<lparr>mtx_lock = 0, mtx_level = 0\<rparr>,
               mtx_threads = (\<lambda>_. \<lparr>mtx_pc = MtxOut, mtx_eax = 0, mtx_held = 0\<rparr>)\<rparr>"

inductive mtx_reach :: "(u32 \<Rightarrow> u32) \<Rightarrow> mtx_sys \<Rightarrow> bool" for Y where
  mtx_reach_init: "mtx_reach Y mtx_init"
| mtx_reach_step: "mtx_reach Y s \<Longrightarrow> t \<noteq> 0 \<Longrightarrow> mtx_do Y a t s = Some s' \<Longrightarrow> mtx_reach Y s'"

fun mtx_run :: "(u32 \<Rightarrow> u32) \<Rightarrow> (act \<times> u32) list \<Rightarrow> mtx_sys \<Rightarrow> mtx_sys option" where
  "mtx_run Y [] s = Some s"
| "mtx_run Y ((a, t) # sch) s =
     (if t = 0 then None else case mtx_do Y a t s of None \<Rightarrow> None | Some s' \<Rightarrow> mtx_run Y sch s')"

definition mutex_acquire :: "u32 \<Rightarrow> mutex \<Rightarrow> mutex option" where
  "mutex_acquire tid m =
     (if mtx_lock m = tid then Some (m\<lparr>mtx_level := mtx_level m + 1\<rparr>)
      else if mtx_lock m = 0 then Some \<lparr>mtx_lock = tid, mtx_level = 0 + 1\<rparr>
      else None)"

definition mutex_release :: "mutex \<Rightarrow> mutex" where
  "mutex_release m =
     (let m = m\<lparr>mtx_level := mtx_level m - 1\<rparr>
      in if mtx_level m = 0 then m\<lparr>mtx_lock := 0\<rparr> else m)"

section \<open>Runs\<close>

lemma sem_run_reach: "sem_reach Y s \<Longrightarrow> sem_run Y sch s = Some s' \<Longrightarrow> sem_reach Y s'"
  by (induction Y sch s rule: sem_run.induct)
    (auto split: if_splits option.splits intro: sem_reach.intros)

lemma mtx_run_reach: "mtx_reach Y s \<Longrightarrow> mtx_run Y sch s = Some s' \<Longrightarrow> mtx_reach Y s'"
  by (induction Y sch s rule: mtx_run.induct)
    (auto split: if_splits option.splits intro: mtx_reach.intros)

fun iter_instr :: "('s \<Rightarrow> 's option) \<Rightarrow> nat \<Rightarrow> 's \<Rightarrow> 's option" where
  "iter_instr f 0 s = Some s"
| "iter_instr f (Suc n) s = (case f s of None \<Rightarrow> None | Some s' \<Rightarrow> iter_instr f n s')"

text \<open>Nested calls of one thread.\<close>

fun mutex_acquires :: "nat \<Rightarrow> u32 \<Rightarrow> mutex \<Rightarrow> mutex option" where
  "mutex_acquires 0 tid m = Some m"
| "mutex_acquires (Suc n) tid m =
     (case mutex_acquires n tid m of None \<Rightarrow> None | Some m' \<Rightarrow> mutex_acquire tid m')"

fun mutex_releases :: "nat \<Rightarrow> mutex \<Rightarrow> mutex" where
  "mutex_releases 0 m = m"
| "mutex_releases (Suc n) m = mutex_releases n (mutex_release m)"

section \<open>Counting of the mutex\<close>

lemma mutex_acquires_free:
  assumes "tid \<noteq> 0" and "mtx_lock m = 0"
  shows "mutex_acquires (Suc n) tid m = Some \<lparr>mtx_lock = tid, mtx_level = of_nat (Suc n)\<rparr>"
proof (induction n)
  case 0
  show ?case using assms by (simp add: mutex_acquire_def)
next
  case (Suc n)
  then show ?case by (simp add: mutex_acquire_def add.commute)
qed

lemma of_nat_u16_neq_0: "0 < n \<Longrightarrow> n < 65536 \<Longrightarrow> (of_nat n :: u16) \<noteq> 0"
  using unat_of_nat_small [of n, where 'a = 16] by auto

lemma mutex_releases_held:
  assumes "k < n" and "n < 65536"
  shows "mutex_releases k \<lparr>mtx_lock = tid, mtx_level = of_nat n\<rparr> = \<lparr>mtx_lock = tid, mtx_level = of_nat (n - k)\<rparr>"
  using assms
proof (induction k arbitrary: n)
  case (Suc k)
  then have "(of_nat n :: u16) - 1 = of_nat (n - 1)" by simp
  moreover have "(of_nat (n - 1) :: u16) \<noteq> 0" using Suc.prems of_nat_u16_neq_0 [of "n - 1"] by linarith
  ultimately have "mutex_release \<lparr>mtx_lock = tid, mtx_level = of_nat n\<rparr> = \<lparr>mtx_lock = tid, mtx_level = of_nat (n - 1)\<rparr>"
    by (simp only: mutex_release_def Let_def mutex.simps mutex.update_convs if_False)
  then show ?case using Suc.IH [of "n - 1"] Suc.prems by (simp del: of_nat_diff)
qed simp

lemma mutex_releases_Suc: "mutex_releases (Suc n) m = mutex_release (mutex_releases n m)"
  by (induction n arbitrary: m) simp_all

text \<open>
  What a client of the mutex keeps: it is free, or the thread itself holds it at a level far
  from the wrap-around of the counter. Then acquiring succeeds, and releasing undoes it.
\<close>

definition mutex_ready :: "u32 \<Rightarrow> mutex \<Rightarrow> bool" where
  "mutex_ready tid m \<longleftrightarrow>
     tid \<noteq> 0 \<and> (m = \<lparr>mtx_lock = 0, mtx_level = 0\<rparr> \<or> mtx_lock m = tid \<and> mtx_level m \<in> {1, 2, 3})"

lemma mutex_ready_acquire:
  assumes "mutex_ready tid m"
  shows "\<exists>m'. mutex_acquire tid m = Some m' \<and> mutex_release m' = m"
    and "mtx_level m \<noteq> 3 \<Longrightarrow> \<exists>m'. mutex_acquire tid m = Some m' \<and> mutex_ready tid m'"
  using assms by (auto simp: mutex_ready_def mutex_acquire_def mutex_release_def Let_def)

section \<open>Mutual exclusion of the semaphore\<close>

text \<open>A thread owns the lock from a successful \<open>xchg\<close> on.\<close>

definition sem_owner :: "sem_thread \<Rightarrow> bool" where
  "sem_owner th \<longleftrightarrow> sem_pc th = SemIn \<or> sem_pc th = TestLock \<and> sem_eax th = 0"

definition sem_inv :: "sem_sys \<Rightarrow> bool" where
  "sem_inv s \<longleftrightarrow>
     (\<forall>t. sem_pc (sem_threads s t) \<in> {SpinLock, CallYield, GetLock} \<longrightarrow> sem_eax (sem_threads s t) \<noteq> 0)
     \<and> (\<forall>t u. sem_owner (sem_threads s t) \<longrightarrow> sem_owner (sem_threads s u) \<longrightarrow> t = u)
     \<and> (\<forall>t. sem_owner (sem_threads s t) \<longrightarrow> sem_lock s \<noteq> 0)"

lemma sem_inv_update:
  assumes "sem_inv s"
    and "sem_pc th \<in> {SpinLock, CallYield, GetLock} \<Longrightarrow> sem_eax th \<noteq> 0"
    and "sem_owner th \<Longrightarrow> lock \<noteq> 0 \<and> (\<forall>u. u \<noteq> t \<longrightarrow> \<not> sem_owner (sem_threads s u))"
    and "\<And>u. u \<noteq> t \<Longrightarrow> sem_owner (sem_threads s u) \<Longrightarrow> lock \<noteq> 0"
  shows "sem_inv \<lparr>sem_lock = lock, sem_threads = (sem_threads s)(t := th)\<rparr>"
  using assms unfolding sem_inv_def by (simp split: if_splits) metis

lemma sem_inv_step:
  assumes Y: "\<And>e. e \<noteq> 0 \<Longrightarrow> Y e \<noteq> 0" and inv: "sem_inv s" and "t \<noteq> 0" and do: "sem_do Y a t s = Some s'"
  shows "sem_inv s'"
proof -
  let ?th = "sem_threads s t"
  have eax: "sem_pc ?th \<in> {SpinLock, CallYield, GetLock} \<Longrightarrow> sem_eax ?th \<noteq> 0"
    and excl: "\<And>u. sem_owner ?th \<Longrightarrow> sem_owner (sem_threads s u) \<Longrightarrow> u = t"
    and lock: "\<And>u. sem_owner (sem_threads s u) \<Longrightarrow> sem_lock s \<noteq> 0"
    using inv unfolding sem_inv_def by blast+
  show ?thesis
  proof (cases a)
    case Acquire
    then have "s' = \<lparr>sem_lock = sem_lock s, sem_threads = (sem_threads s)(t := \<lparr>sem_pc = SpinLock, sem_eax = t\<rparr>)\<rparr>"
      using do by (cases s) (simp split: if_splits)
    moreover have "\<not> sem_owner \<lparr>sem_pc = SpinLock, sem_eax = t\<rparr>" by (simp add: sem_owner_def)
    ultimately show ?thesis using lock \<open>t \<noteq> 0\<close> by (auto intro!: sem_inv_update [OF inv])
  next
    case Release
    then have own: "sem_owner ?th"
      and s': "s' = \<lparr>sem_lock = 0, sem_threads = (sem_threads s)(t := ?th\<lparr>sem_pc := SemOut\<rparr>)\<rparr>"
      using do by (auto split: if_splits simp: sem_owner_def)
    have "\<not> sem_owner (?th\<lparr>sem_pc := SemOut\<rparr>)" by (simp add: sem_owner_def)
    then show ?thesis unfolding s' using excl [OF own] by (intro sem_inv_update [OF inv]) auto
  next
    case Instr
    then obtain l th where instr: "sem_instr Y (sem_lock s, ?th) = Some (l, th)"
      and s': "s' = \<lparr>sem_lock = l, sem_threads = (sem_threads s)(t := th)\<rparr>"
      using do by (auto simp del: sem_instr.simps split: option.splits)
    have "sem_pc th \<in> {SpinLock, CallYield, GetLock} \<Longrightarrow> sem_eax th \<noteq> 0"
      using instr eax Y [of "sem_eax ?th"] by (cases "sem_pc ?th") (auto split: if_splits)
    moreover have "sem_owner th \<Longrightarrow> l \<noteq> 0 \<and> (sem_owner ?th \<or> sem_lock s = 0)"
      using instr eax lock [of t] by (cases "sem_pc ?th") (auto simp: sem_owner_def split: if_splits)
    moreover have "sem_lock s \<noteq> 0 \<Longrightarrow> l \<noteq> 0"
      using instr eax by (cases "sem_pc ?th") auto
    ultimately show ?thesis unfolding s' using excl lock by (intro sem_inv_update [OF inv]) blast+
  qed
qed

lemma sem_reach_inv:
  assumes "\<And>e. e \<noteq> 0 \<Longrightarrow> Y e \<noteq> 0" and "sem_reach Y s"
  shows "sem_inv s"
  using assms(2)
proof induction
  case reach_init
  show ?case by (simp add: sem_inv_def sem_init_def sem_owner_def)
next
  case (reach_step s t a s')
  then show ?case using sem_inv_step [of Y s t a s'] assms(1) by blast
qed

section \<open>Properties\<close>



text \<open>
  C11. With the \<open>%eax\<close> that \<open>sched_yield\<close> leaves behind the semaphore does not exclude: after a
  contended acquire the lock word is set to 0, and a second thread enters.
\<close>

theorem semaphore_yield_breaks_exclusion:
  "\<exists>s. sem_reach sched_yield_eax s \<and> sem_pc (sem_threads s 2) = SemIn \<and> sem_pc (sem_threads s 3) = SemIn"
proof -
  let ?sch = "[(Acquire, 2), (Instr, 2), (Instr, 2), (Instr, 2), (Acquire, 3), (Instr, 3), (Instr, 3),
    (Release, 2), (Instr, 3), (Instr, 3), (Instr, 3), (Acquire, 2), (Instr, 2), (Instr, 2), (Instr, 2)]"
  obtain s where s: "sem_run sched_yield_eax ?sch sem_init = Some s"
      "sem_pc (sem_threads s 2) = SemIn" "sem_pc (sem_threads s 3) = SemIn"
    by (simp add: sem_init_def sched_yield_eax_def sched_sleep_eax_def)
  then show ?thesis using sem_run_reach reach_init by blast
qed

text \<open>
  One undisturbed \<open>semaphore_acquire\<close>: on a free lock three instructions acquire it with the
  thread id in the lock word; on a taken lock the instructions never end the call and leave the
  lock word alone.
\<close>

theorem semaphore_acquire_alone:
  "case semaphore_acquire tid lock of
     Some lock' \<Rightarrow> iter_instr (sem_instr Y) 3 (lock, \<lparr>sem_pc = SpinLock, sem_eax = tid\<rparr>)
                   = Some (lock', \<lparr>sem_pc = SemIn, sem_eax = 0\<rparr>) \<and> semaphore_release lock' = lock
   | None \<Rightarrow> (\<exists>th. iter_instr (sem_instr Y) n (lock, \<lparr>sem_pc = SpinLock, sem_eax = tid\<rparr>) = Some (lock, th)
                    \<and> sem_pc th \<noteq> SemIn)"
proof (cases "lock = 0")
  case True
  then show ?thesis by (simp add: semaphore_acquire_def semaphore_release_def eval_nat_numeral)
next
  case False
  have "\<exists>th. iter_instr (sem_instr Y) n (lock, \<lparr>sem_pc = pc, sem_eax = e\<rparr>) = Some (lock, th) \<and> sem_pc th \<noteq> SemIn"
    if "pc = SpinLock \<or> pc = CallYield" for pc e
    using that
  proof (induction n arbitrary: pc e)
    case (Suc n)
    then show ?case using False by auto
  qed auto
  with False show ?thesis by (simp add: semaphore_acquire_def)
qed

text \<open>
  C12. The reentrant mutex counts: \<open>n\<close> nested acquires of one thread on a free mutex (up to the
  width of the level counter) succeed, keep every other thread out, and exactly as many
  releases free it again.
\<close>

theorem mutex_reentrant:
  assumes "tid \<noteq> 0" and "mtx_lock m = 0" and "0 < n" and "n < 65536"
  shows "\<exists>m'. mutex_acquires n tid m = Some m'
    \<and> (\<forall>k < n. mtx_lock (mutex_releases k m') = tid
          \<and> (\<forall>u. u \<noteq> tid \<longrightarrow> mutex_acquire u (mutex_releases k m') = None))
    \<and> mutex_releases n m' = \<lparr>mtx_lock = 0, mtx_level = 0\<rparr>"
proof -
  obtain j where n: "n = Suc j" using assms(3) by (cases n) simp_all
  let ?m = "\<lparr>mtx_lock = tid, mtx_level = of_nat n :: u16\<rparr>"
  have held: "mutex_releases k ?m = \<lparr>mtx_lock = tid, mtx_level = of_nat (n - k)\<rparr>" if "k < n" for k
    using that assms(4) by (rule mutex_releases_held)
  have "mutex_releases n ?m = \<lparr>mtx_lock = 0, mtx_level = 0\<rparr>"
    unfolding n mutex_releases_Suc using held [of j] n by (simp add: mutex_release_def)
  then show ?thesis
    using mutex_acquires_free [OF assms(1,2), of j] held assms(1) n
    by (auto simp: mutex_acquire_def simp del: of_nat_Suc mutex_acquires.simps mutex_releases.simps)
qed

theorem mutex_reentrant_witness:
  "\<exists>m. mutex_acquires 3 2 \<lparr>mtx_lock = 0, mtx_level = 0\<rparr> = Some m \<and> mutex_acquire 4 m = None
     \<and> mutex_releases 3 m = \<lparr>mtx_lock = 0, mtx_level = 0\<rparr>"
proof -
  obtain m where m: "mutex_acquires 3 2 \<lparr>mtx_lock = 0, mtx_level = 0\<rparr> = Some m"
      "\<forall>k < 3. mtx_lock (mutex_releases k m) = 2 \<and> (\<forall>u. u \<noteq> 2 \<longrightarrow> mutex_acquire u (mutex_releases k m) = None)"
      "mutex_releases 3 m = \<lparr>mtx_lock = 0, mtx_level = 0\<rparr>"
    using mutex_reentrant [of 2 "\<lparr>mtx_lock = 0, mtx_level = 0\<rparr>" 3] by auto
  have "mutex_acquire 4 (mutex_releases 0 m) = None" using m(2) [rule_format, of 0] by auto
  with m show ?thesis by auto
qed

text \<open>
  One undisturbed \<open>mutex_acquire\<close> of the assembly computes \<open>mutex_acquire\<close> of the model: with
  enough instructions it ends with the same mutex when that succeeds, and when the mutex is taken
  by another thread it never ends with the \<open>%eax\<close> that \<open>sched_yield\<close> leaves.
\<close>

theorem mutex_acquire_alone:
  assumes "tid \<noteq> 0"
  shows "case mutex_acquire tid m of
     Some m' \<Rightarrow> \<exists>n e. iter_instr (mtx_instr Y) n (m, \<lparr>mtx_pc = CmpOwner, mtx_eax = tid, mtx_held = h\<rparr>)
                   = Some (m', \<lparr>mtx_pc = MtxOut, mtx_eax = e, mtx_held = Suc h\<rparr>)
   | None \<Rightarrow> \<exists>th. iter_instr (mtx_instr sched_yield_eax) n (m, \<lparr>mtx_pc = CmpOwner, mtx_eax = tid, mtx_held = h\<rparr>)
                   = Some (m, th) \<and> mtx_held th = h"
proof -
  consider "mtx_lock m = tid" | "mtx_lock m = 0" "mtx_lock m \<noteq> tid" | "mtx_lock m \<noteq> 0" "mtx_lock m \<noteq> tid" by blast
  then show ?thesis
  proof cases
    case 1
    have "iter_instr (mtx_instr Y) 2 (m, \<lparr>mtx_pc = CmpOwner, mtx_eax = tid, mtx_held = h\<rparr>)
        = Some (m\<lparr>mtx_level := mtx_level m + 1\<rparr>, \<lparr>mtx_pc = MtxOut, mtx_eax = tid, mtx_held = Suc h\<rparr>)"
      using 1 by (simp add: eval_nat_numeral)
    with 1 show ?thesis by (auto simp: mutex_acquire_def simp del: iter_instr.simps)
  next
    case 2
    have "iter_instr (mtx_instr Y) 6 (m, \<lparr>mtx_pc = CmpOwner, mtx_eax = tid, mtx_held = h\<rparr>)
        = Some (\<lparr>mtx_lock = tid, mtx_level = 1\<rparr>, \<lparr>mtx_pc = MtxOut, mtx_eax = 0, mtx_held = Suc h\<rparr>)"
      using 2 by (cases m) (simp add: eval_nat_numeral)
    with 2 show ?thesis by (auto simp: mutex_acquire_def simp del: iter_instr.simps)
  next
    case 3
    have "\<exists>th. iter_instr (mtx_instr sched_yield_eax) n (m, \<lparr>mtx_pc = pc, mtx_eax = e, mtx_held = h\<rparr>) = Some (m, th)
        \<and> mtx_held th = h" if "pc \<in> {CmpOwner, CmpFree, Yielding}" "mtx_lock m \<noteq> e" for pc e
      using that
    proof (induction n arbitrary: pc e)
      case (Suc n)
      then show ?case using 3 by (auto simp: sched_yield_eax_def sched_sleep_eax_def)
    qed auto
    with 3 show ?thesis by (simp add: mutex_acquire_def)
  qed
qed

theorem mutex_acquire_alone_witness:
  "\<exists>th. iter_instr (mtx_instr sched_yield_eax) 100 (\<lparr>mtx_lock = 3, mtx_level = 1\<rparr>, \<lparr>mtx_pc = CmpOwner, mtx_eax = 2, mtx_held = 0\<rparr>)
     = Some (\<lparr>mtx_lock = 3, mtx_level = 1\<rparr>, th) \<and> mtx_held th = 0"
  using mutex_acquire_alone [where tid = 2 and m = "\<lparr>mtx_lock = 3, mtx_level = 1\<rparr>" and h = 0 and n = 100]
  by (auto simp: mutex_acquire_def)

text \<open>
  C13. The mutex does not exclude under a race, even if \<open>sched_yield\<close> preserved \<open>%eax\<close>: a thread
  whose \<open>xchg\<close> comes second keeps the other thread's id in \<open>%eax\<close> and later takes the lock
  under that id, so the other thread enters as if it were nesting.
\<close>

theorem mutex_race_breaks_exclusion:
  "\<exists>s. mtx_reach (\<lambda>e. e) s \<and> 0 < mtx_held (mtx_threads s 2) \<and> 0 < mtx_held (mtx_threads s 3)"
proof -
  let ?sch = "[(Acquire, 2), (Acquire, 3), (Instr, 2), (Instr, 2), (Instr, 3), (Instr, 3),
    (Instr, 2), (Instr, 3), (Instr, 2), (Instr, 2), (Instr, 2), (Instr, 3),
    (Release, 2), (Instr, 2), (Instr, 2),
    (Instr, 3), (Instr, 3), (Instr, 3), (Instr, 3), (Instr, 3), (Instr, 3),
    (Acquire, 2), (Instr, 2), (Instr, 2)]"
  obtain s where s: "mtx_run (\<lambda>e. e) ?sch mtx_init = Some s"
      "0 < mtx_held (mtx_threads s 2)" "0 < mtx_held (mtx_threads s 3)"
    by (simp add: mtx_init_def)
  then show ?thesis using mtx_run_reach mtx_reach_init by blast
qed

end
