(* ===== verification/Keyboard.thy ===== *)
theory Keyboard
  imports RingBuffer Sync
begin

text \<open>
  The keyboard driver \<open>kernel/src/all/kernel/input/keyboard.c\<close>: the tables of scan code set
  1 for a French keyboard, the shift counter, the interrupt side (\<open>kbd_handle_key\<close>, which
  queues characters) and the reader side (\<open>kbd_getchar\<close>, which waits for one). Both sides
  use the ring buffer through the bounded-queue contract.
\<close>

section \<open>The tables\<close>

datatype kbd_key_type = NONE | MOD | LOCK | REGULAR

text \<open>
  \<open>union kbd_scan\<close> is one byte, read as the character \<open>reg.ascii\<close> or, its lowest bit only,
  as the modifier \<open>mod.shift\<close>. Entries that the initialiser leaves out are zero.
\<close>

type_synonym kbd_scan = u8

definition KBD_SCAN_NONE :: kbd_scan where
  "KBD_SCAN_NONE = 0"

definition KBD_SCAN_REG :: "char \<Rightarrow> kbd_scan" where
  "KBD_SCAN_REG c = of_char c"

definition KBD_SCAN_MOD :: "u8 \<Rightarrow> kbd_scan" where
  "KBD_SCAN_MOD shift = shift AND 1"

definition reg_ascii :: "kbd_scan \<Rightarrow> u8" where
  "reg_ascii s = s"

definition mod_shift :: "kbd_scan \<Rightarrow> u8" where
  "mod_shift s = s AND 1"

definition kbd_specs :: "kbd_key_type list" where
  "kbd_specs =
     [NONE, REGULAR, REGULAR, REGULAR,
      REGULAR, REGULAR, REGULAR, REGULAR,
      REGULAR, REGULAR, REGULAR, REGULAR,
      REGULAR, REGULAR, REGULAR, REGULAR,
      REGULAR, REGULAR, REGULAR, REGULAR,
      REGULAR, REGULAR, REGULAR, REGULAR,
      REGULAR, REGULAR, NONE, NONE,
      REGULAR, NONE, REGULAR, REGULAR,
      REGULAR, REGULAR, REGULAR, REGULAR,
      REGULAR, REGULAR, REGULAR, REGULAR,
      NONE, NONE, MOD, NONE,
      REGULAR, REGULAR, REGULAR, REGULAR,
      REGULAR, REGULAR, REGULAR, REGULAR,
      REGULAR, REGULAR, MOD, NONE,
      NONE, REGULAR, NONE, NONE,
      NONE, NONE, NONE, NONE,
      NONE, NONE, NONE, NONE,
      NONE, NONE, NONE, NONE,
      NONE, NONE, NONE, NONE,
      NONE, NONE, NONE, NONE,
      NONE, NONE, NONE, NONE,
      NONE, NONE, NONE, NONE,
      NONE, NONE, NONE, NONE,
      NONE, NONE, NONE, NONE,
      NONE, NONE, NONE, NONE,
      NONE, NONE, NONE, NONE,
      NONE, NONE, NONE, NONE,
      NONE, NONE, NONE, NONE,
      NONE, NONE, NONE, NONE,
      NONE, NONE, NONE, NONE,
      NONE, NONE, NONE, NONE,
      NONE, NONE, NONE, NONE]"

definition kbd_scans :: "(kbd_scan \<times> kbd_scan) list" where
  "kbd_scans =
     [(KBD_SCAN_NONE, KBD_SCAN_NONE), (KBD_SCAN_REG (CHR 0x1B), KBD_SCAN_REG (CHR 0x1B)),
      (KBD_SCAN_REG (CHR ''&''), KBD_SCAN_REG (CHR ''1'')), (KBD_SCAN_NONE, KBD_SCAN_REG (CHR ''2'')),
      (KBD_SCAN_REG (CHR 0x22), KBD_SCAN_REG (CHR ''3'')), (KBD_SCAN_REG (CHR 0x27), KBD_SCAN_REG (CHR ''4'')),
      (KBD_SCAN_REG (CHR ''(''), KBD_SCAN_REG (CHR ''5'')), (KBD_SCAN_REG (CHR ''-''), KBD_SCAN_REG (CHR ''6'')),
      (KBD_SCAN_NONE, KBD_SCAN_REG (CHR ''7'')), (KBD_SCAN_REG (CHR ''_''), KBD_SCAN_REG (CHR ''8'')),
      (KBD_SCAN_NONE, KBD_SCAN_REG (CHR ''9'')), (KBD_SCAN_NONE, KBD_SCAN_REG (CHR ''0'')),
      (KBD_SCAN_REG (CHR '')''), KBD_SCAN_NONE), (KBD_SCAN_REG (CHR ''=''), KBD_SCAN_REG (CHR ''+'')),
      (KBD_SCAN_REG (CHR 0x08), KBD_SCAN_REG (CHR 0x08)), (KBD_SCAN_REG (CHR 0x09), KBD_SCAN_REG (CHR 0x09)),
      (KBD_SCAN_REG (CHR ''a''), KBD_SCAN_REG (CHR ''A'')), (KBD_SCAN_REG (CHR ''z''), KBD_SCAN_REG (CHR ''Z'')),
      (KBD_SCAN_REG (CHR ''e''), KBD_SCAN_REG (CHR ''E'')), (KBD_SCAN_REG (CHR ''r''), KBD_SCAN_REG (CHR ''R'')),
      (KBD_SCAN_REG (CHR ''t''), KBD_SCAN_REG (CHR ''T'')), (KBD_SCAN_REG (CHR ''y''), KBD_SCAN_REG (CHR ''Y'')),
      (KBD_SCAN_REG (CHR ''u''), KBD_SCAN_REG (CHR ''U'')), (KBD_SCAN_REG (CHR ''i''), KBD_SCAN_REG (CHR ''I'')),
      (KBD_SCAN_REG (CHR ''o''), KBD_SCAN_REG (CHR ''O'')), (KBD_SCAN_REG (CHR ''p''), KBD_SCAN_REG (CHR ''P'')),
      (KBD_SCAN_NONE, KBD_SCAN_NONE), (KBD_SCAN_NONE, KBD_SCAN_NONE),
      (KBD_SCAN_REG (CHR 0x0A), KBD_SCAN_REG (CHR 0x0A)), (KBD_SCAN_NONE, KBD_SCAN_NONE),
      (KBD_SCAN_REG (CHR ''q''), KBD_SCAN_REG (CHR ''Q'')), (KBD_SCAN_REG (CHR ''s''), KBD_SCAN_REG (CHR ''S'')),
      (KBD_SCAN_REG (CHR ''d''), KBD_SCAN_REG (CHR ''D'')), (KBD_SCAN_REG (CHR ''f''), KBD_SCAN_REG (CHR ''F'')),
      (KBD_SCAN_REG (CHR ''g''), KBD_SCAN_REG (CHR ''G'')), (KBD_SCAN_REG (CHR ''h''), KBD_SCAN_REG (CHR ''H'')),
      (KBD_SCAN_REG (CHR ''j''), KBD_SCAN_REG (CHR ''J'')), (KBD_SCAN_REG (CHR ''k''), KBD_SCAN_REG (CHR ''K'')),
      (KBD_SCAN_REG (CHR ''l''), KBD_SCAN_REG (CHR ''L'')), (KBD_SCAN_REG (CHR ''m''), KBD_SCAN_REG (CHR ''M'')),
      (KBD_SCAN_NONE, KBD_SCAN_NONE), (KBD_SCAN_NONE, KBD_SCAN_NONE),
      (KBD_SCAN_MOD 1, KBD_SCAN_NONE), (KBD_SCAN_NONE, KBD_SCAN_NONE),
      (KBD_SCAN_REG (CHR ''w''), KBD_SCAN_REG (CHR ''W'')), (KBD_SCAN_REG (CHR ''x''), KBD_SCAN_REG (CHR ''X'')),
      (KBD_SCAN_REG (CHR ''c''), KBD_SCAN_REG (CHR ''C'')), (KBD_SCAN_REG (CHR ''v''), KBD_SCAN_REG (CHR ''V'')),
      (KBD_SCAN_REG (CHR ''b''), KBD_SCAN_REG (CHR ''B'')), (KBD_SCAN_REG (CHR ''n''), KBD_SCAN_REG (CHR ''N'')),
      (KBD_SCAN_REG (CHR '',''), KBD_SCAN_REG (CHR ''?'')), (KBD_SCAN_REG (CHR '';''), KBD_SCAN_REG (CHR ''.'')),
      (KBD_SCAN_REG (CHR '':''), KBD_SCAN_REG (CHR ''/'')), (KBD_SCAN_REG (CHR ''!''), KBD_SCAN_NONE),
      (KBD_SCAN_MOD 1, KBD_SCAN_NONE), (KBD_SCAN_NONE, KBD_SCAN_NONE),
      (KBD_SCAN_NONE, KBD_SCAN_NONE), (KBD_SCAN_REG (CHR 0x20), KBD_SCAN_REG (CHR 0x20))]
     @ replicate 70 (KBD_SCAN_NONE, KBD_SCAN_NONE)"

section \<open>State and operations\<close>

record kbd_state =
  kbd_ring :: ringbuffer
  state_shift :: u8
  kbd_mem :: mem
  kbd_semaphore :: u32

definition KEY_UP :: "u8 \<Rightarrow> bool" where
  "KEY_UP scan \<longleftrightarrow> drop_bit 7 scan \<noteq> 0"

definition KEY_CODE :: "u8 \<Rightarrow> u8" where
  "KEY_CODE scan = scan AND 0x7F"

text \<open>The static ring buffer: 8 one-byte elements in the array \<open>buffer_data\<close>.\<close>

definition kbd_initial_ring :: "u32 \<Rightarrow> ringbuffer" where
  "kbd_initial_ring buffer_data =
     \<lparr>size_elem = 1, nb_elems = 8, buffer = buffer_data, head = 0, tail = 0\<rparr>"

definition kbd_initial :: "u32 \<Rightarrow> kbd_state" where
  "kbd_initial buffer_data =
     \<lparr>kbd_ring = kbd_initial_ring buffer_data, state_shift = 0, kbd_mem = (\<lambda>_. 0), kbd_semaphore = 0\<rparr>"

definition get_active_mod :: "kbd_state \<Rightarrow> u8" where
  "get_active_mod st = (if state_shift st \<noteq> 0 then 1 else 0)"

definition add_mods :: "kbd_state \<Rightarrow> kbd_scan \<Rightarrow> kbd_state" where
  "add_mods st mods = st\<lparr>state_shift := state_shift st + mod_shift mods\<rparr>"

definition remove_mods :: "kbd_state \<Rightarrow> kbd_scan \<Rightarrow> kbd_state" where
  "remove_mods st mods =
     (if state_shift st \<noteq> 0 then st\<lparr>state_shift := state_shift st - mod_shift mods\<rparr> else st)"

text \<open>\<open>local\<close> is the address of the local variable \<open>scan_reg\<close>, which the queue copies from.\<close>

definition kbd_handle_key :: "kbd_state \<Rightarrow> u32 \<Rightarrow> u8 \<Rightarrow> kbd_state result" where
  "kbd_handle_key st local scan =
     (let scan_code = unat (KEY_CODE scan);
          key_up = KEY_UP scan;
          entry = kbd_scans ! scan_code
      in case kbd_specs ! scan_code of
           REGULAR \<Rightarrow>
             (if \<not> key_up then
                let scan_reg = reg_ascii (if get_active_mod st = 0 then fst entry else snd entry);
                    st = st\<lparr>kbd_mem := (kbd_mem st)(local := scan_reg)\<rparr>
                in if scan_reg \<noteq> 0 then
                     bindE (ringbuffer_put (kbd_ring st) (kbd_mem st) local)
                       (\<lambda>(res, rb, m). Inr (st\<lparr>kbd_ring := rb, kbd_mem := m\<rparr>))
                   else Inr st
              else Inr st)
         | MOD \<Rightarrow>
             (let scan_mod = fst entry
              in if key_up then Inr (remove_mods st scan_mod) else Inr (add_mods st scan_mod))
         | _ \<Rightarrow> Inr st)"

fun kbd_handle_keys :: "kbd_state \<Rightarrow> u32 \<Rightarrow> u8 list \<Rightarrow> kbd_state result" where
  "kbd_handle_keys st local [] = Inr st"
| "kbd_handle_keys st local (k # ks) =
     bindE (kbd_handle_key st local k) (\<lambda>st. kbd_handle_keys st local ks)"

text \<open>
  \<open>kbd_getchar\<close> sleeps one millisecond at a time until a key is queued; \<open>env\<close> lists the scan
  codes that the interrupt handler receives during each of these sleeps, and \<open>None\<close> says that
  the reader still waits when the list is exhausted. A reader that finds the semaphore taken
  waits too. The reader's own copy goes through the
  local variable at \<open>thechar\<close>; the result is \<open>EOF\<close> (-1) on a queue error.
\<close>

fun kbd_wait :: "kbd_state \<Rightarrow> u32 \<Rightarrow> u8 list list \<Rightarrow> (kbd_state \<times> u8 list list) option result" where
  "kbd_wait st local [] =
     Inr (if ringbuffer_empty (kbd_ring st) then None else Some (st, []))"
| "kbd_wait st local (ks # env) =
     (if ringbuffer_empty (kbd_ring st)
      then bindE (kbd_handle_keys st local ks) (\<lambda>st. kbd_wait st local env)
      else Inr (Some (st, ks # env)))"

definition kbd_getchar ::
    "u32 \<Rightarrow> kbd_state \<Rightarrow> u32 \<Rightarrow> u32 \<Rightarrow> u8 list list \<Rightarrow> (int \<times> kbd_state \<times> u8 list list) option result"
where
  "kbd_getchar tid st local thechar env =
     (case semaphore_acquire tid (kbd_semaphore st) of
        None \<Rightarrow> Inr None
      | Some lock \<Rightarrow>
          bindE (kbd_wait (st\<lparr>kbd_semaphore := lock\<rparr>) local env)
            (\<lambda>w. case w of
               None \<Rightarrow> Inr None
             | Some (st, env) \<Rightarrow>
                 bindE (ringbuffer_get (kbd_ring st) (kbd_mem st) thechar)
                   (\<lambda>(err, rb, m).
                     Inr (Some (if err \<noteq> 0 then - 1 else uint (m thechar),
                                st\<lparr>kbd_ring := rb, kbd_mem := m,
                                   kbd_semaphore := semaphore_release (kbd_semaphore st)\<rparr>, env)))))"

section \<open>What the keys type\<close>

text \<open>
  The specification the driver is compared with: the character a scan code types, if any, the
  shift counter after it, and the characters typed by a sequence of scan codes.
\<close>

definition key_char :: "u8 \<Rightarrow> u8 \<Rightarrow> u8 list" where
  "key_char shift scan =
     (let entry = kbd_scans ! unat (KEY_CODE scan);
          c = (if shift = 0 then fst entry else snd entry)
      in if kbd_specs ! unat (KEY_CODE scan) = REGULAR \<and> \<not> KEY_UP scan \<and> c \<noteq> 0 then [c] else [])"

definition key_shift :: "u8 \<Rightarrow> u8 \<Rightarrow> u8" where
  "key_shift shift scan =
     (if kbd_specs ! unat (KEY_CODE scan) = MOD
      then if \<not> KEY_UP scan then shift + 1 else if shift = 0 then 0 else shift - 1
      else shift)"

fun typed :: "u8 \<Rightarrow> u8 list \<Rightarrow> u8 list" where
  "typed shift [] = []"
| "typed shift (k # ks) = key_char shift k @ typed (key_shift shift k) ks"

lemma typed_append: "typed s (ks @ ks') = typed s ks @ typed (foldl key_shift s ks) ks'"
  by (induction ks arbitrary: s) auto

text \<open>The driver's invariant; \<open>local\<close> is a byte outside the queue's array.\<close>

definition kbd_ok :: "kbd_state \<Rightarrow> u32 \<Rightarrow> bool" where
  "kbd_ok st local \<longleftrightarrow>
     rb_ok (kbd_ring st) \<and> size_elem (kbd_ring st) = 1 \<and> nb_elems (kbd_ring st) = 8
     \<and> rb_apart (kbd_ring st) local"

definition kbd_chars :: "kbd_state \<Rightarrow> u8 list" where
  "kbd_chars st = concat (rb_contents (kbd_ring st) (kbd_mem st))"

section \<open>The handler\<close>

lemma kbd_mod_entries:
  assumes "kbd_specs ! unat (KEY_CODE k) = MOD"
  shows "mod_shift (fst (kbd_scans ! unat (KEY_CODE k))) = 1"
proof -
  have "unat (KEY_CODE k) \<le> unat (0x7F :: u8)"
    unfolding KEY_CODE_def word_le_nat_alt [symmetric] by (rule word_and_le1)
  then have "unat (KEY_CODE k) < 128" by simp
  moreover have "\<forall>i < 128. kbd_specs ! i = MOD \<longrightarrow> mod_shift (fst (kbd_scans ! i)) = 1"
    by code_simp
  ultimately show ?thesis using assms by blast
qed

lemma rb_contents_local:
  assumes "rb_ok rb" and "rb_apart rb local"
  shows "rb_contents rb (m(local := c)) = rb_contents rb m"
proof -
  have "0 < size_elem rb" using assms(1) by (simp add: rb_ok_def)
  then have "\<not> in_buffer rb (local + 0)" using assms(2) unfolding rb_apart_def by blast
  then have "rb_element rb (m(local := c)) i = rb_element rb m i" for i
    by (intro rb_element_frame [OF assms(1)]) auto
  then show ?thesis by (simp add: rb_contents_def)
qed

lemma rb_put_sizes:
  "ringbuffer_put rb m data = Inr (r, rb', m') \<Longrightarrow> size_elem rb' = size_elem rb \<and> nb_elems rb' = nb_elems rb"
  by (auto simp: ringbuffer_put_def OFFSET_def split: if_splits)

lemma rb_get_sizes:
  "ringbuffer_get rb m data = Inr (r, rb', m') \<Longrightarrow> size_elem rb' = size_elem rb \<and> nb_elems rb' = nb_elems rb"
  by (auto simp: ringbuffer_get_def OFFSET_def split: if_splits)

lemma bytes_at_1: "bytes_at m p (Suc 0) = [m p]"
  by (simp add: bytes_at_def)

lemma kbd_chars_length:
  assumes "kbd_ok st local"
  shows "length (kbd_chars st) = length (rb_contents (kbd_ring st) (kbd_mem st))"
    and "length (kbd_chars st) \<le> 8"
proof -
  have "length x = 1" if "x \<in> set (rb_contents (kbd_ring st) (kbd_mem st))" for x
    using that assms by (auto simp: rb_contents_def rb_element_def kbd_ok_def bytes_at_1)
  then have "map length (rb_contents (kbd_ring st) (kbd_mem st))
      = replicate (length (rb_contents (kbd_ring st) (kbd_mem st))) 1"
    by (intro replicate_eqI) auto
  then show "length (kbd_chars st) = length (rb_contents (kbd_ring st) (kbd_mem st))"
    by (simp add: kbd_chars_def length_concat sum_list_replicate)
  then show "length (kbd_chars st) \<le> 8"
    using rbq.contents_bound [of "(kbd_ring st, kbd_mem st)"] assms by (simp add: kbd_ok_def)
qed

text \<open>Queueing one character: it is appended, or dropped when eight are waiting.\<close>

lemma kbd_put:
  assumes "kbd_ok st local"
  shows "\<exists>r rb m. ringbuffer_put (kbd_ring st) ((kbd_mem st)(local := c)) local = Inr (r, rb, m)
    \<and> kbd_ok (st\<lparr>kbd_ring := rb, kbd_mem := m\<rparr>) local \<and> rb_apart rb = rb_apart (kbd_ring st)
    \<and> kbd_chars (st\<lparr>kbd_ring := rb, kbd_mem := m\<rparr>) = take 8 (kbd_chars st @ [c])"
proof -
  let ?m = "(kbd_mem st)(local := c)"
  have ok: "rb_ok (kbd_ring st)" "rb_apart (kbd_ring st) local" "size_elem (kbd_ring st) = 1"
      "nb_elems (kbd_ring st) = 8"
    using assms by (simp_all add: kbd_ok_def)
  have len: "length (kbd_chars st) = length (rb_contents (kbd_ring st) (kbd_mem st))"
    "length (kbd_chars st) \<le> 8" using kbd_chars_length [OF assms] by blast+
  obtain r rb m where put: "ringbuffer_put (kbd_ring st) ?m local = Inr (r, rb, m)"
    and rb: "rb_ok rb" "rb_apart rb = rb_apart (kbd_ring st)"
      "rb_contents rb m = (if length (rb_contents (kbd_ring st) (kbd_mem st)) < 8
         then rb_contents (kbd_ring st) (kbd_mem st) @ [[c]] else rb_contents (kbd_ring st) (kbd_mem st))"
    using rbq.put_total [of "(kbd_ring st, ?m)" local] ok
    by (auto simp: rb_contents_local bytes_at_1)
  have "kbd_chars (st\<lparr>kbd_ring := rb, kbd_mem := m\<rparr>) = take 8 (kbd_chars st @ [c])"
    using len rb(3) by (auto simp: kbd_chars_def)
  with put rb ok rb_put_sizes [OF put] show ?thesis by (auto simp: kbd_ok_def)
qed

lemma kbd_handle_key_step:
  assumes "kbd_ok st local"
  shows "\<exists>st'. kbd_handle_key st local k = Inr st' \<and> kbd_ok st' local
    \<and> rb_apart (kbd_ring st') = rb_apart (kbd_ring st)
    \<and> state_shift st' = key_shift (state_shift st) k
    \<and> kbd_chars st' = take 8 (kbd_chars st @ key_char (state_shift st) k)"
proof -
  have len: "length (kbd_chars st) \<le> 8" using kbd_chars_length [OF assms] by blast
  show ?thesis
  proof (cases "kbd_specs ! unat (KEY_CODE k)")
    case MOD
    then show ?thesis using kbd_mod_entries [OF MOD] assms len
      by (auto simp: kbd_handle_key_def key_shift_def key_char_def add_mods_def remove_mods_def
          kbd_ok_def kbd_chars_def)
  next
    case REGULAR
    let ?c = "if state_shift st = 0 then fst (kbd_scans ! unat (KEY_CODE k)) else snd (kbd_scans ! unat (KEY_CODE k))"
    have mem: "kbd_chars (st\<lparr>kbd_mem := (kbd_mem st)(local := c)\<rparr>) = kbd_chars st" for c
      using assms by (simp add: kbd_chars_def kbd_ok_def rb_contents_local)
    obtain r rb m where put: "ringbuffer_put (kbd_ring st) ((kbd_mem st)(local := ?c)) local = Inr (r, rb, m)"
      "kbd_ok (st\<lparr>kbd_ring := rb, kbd_mem := m\<rparr>) local" "rb_apart rb = rb_apart (kbd_ring st)"
      "kbd_chars (st\<lparr>kbd_ring := rb, kbd_mem := m\<rparr>) = take 8 (kbd_chars st @ [?c])"
      using kbd_put [OF assms, of ?c] by blast
    consider "KEY_UP k" | "\<not> KEY_UP k" "?c = 0" | "\<not> KEY_UP k" "?c \<noteq> 0" by blast
    then show ?thesis
    proof cases
      case 1
      then show ?thesis using REGULAR assms len
        by (simp add: kbd_handle_key_def key_shift_def key_char_def)
    next
      case 2
      then show ?thesis using REGULAR assms len mem [of 0]
        by (auto simp: kbd_handle_key_def key_shift_def key_char_def reg_ascii_def get_active_mod_def
            kbd_ok_def Let_def)
    next
      case 3
      then show ?thesis using REGULAR put
        by (auto simp: kbd_handle_key_def key_shift_def key_char_def reg_ascii_def get_active_mod_def
            kbd_ok_def kbd_chars_def Let_def)
    qed
  qed (use assms len in \<open>simp_all add: kbd_handle_key_def key_shift_def key_char_def\<close>)
qed

lemma kbd_handle_keys_run:
  assumes "kbd_ok st local"
  shows "\<exists>st'. kbd_handle_keys st local ks = Inr st' \<and> kbd_ok st' local
    \<and> rb_apart (kbd_ring st') = rb_apart (kbd_ring st)
    \<and> state_shift st' = foldl key_shift (state_shift st) ks
    \<and> kbd_chars st' = take 8 (kbd_chars st @ typed (state_shift st) ks)"
  using assms
proof (induction ks arbitrary: st)
  case Nil
  then show ?case using kbd_chars_length by simp
next
  case (Cons k ks)
  obtain st1 where st1: "kbd_handle_key st local k = Inr st1" "kbd_ok st1 local"
      "rb_apart (kbd_ring st1) = rb_apart (kbd_ring st)"
      "state_shift st1 = key_shift (state_shift st) k"
      "kbd_chars st1 = take 8 (kbd_chars st @ key_char (state_shift st) k)"
    using kbd_handle_key_step [OF Cons.prems, of k] by blast
  have take_take: "take 8 (take 8 xs @ ys) = take 8 (xs @ ys)" for xs ys :: "u8 list"
    by (cases "length xs \<le> 8") simp_all
  obtain st2 where "kbd_handle_keys st1 local ks = Inr st2" "kbd_ok st2 local"
      "rb_apart (kbd_ring st2) = rb_apart (kbd_ring st1)"
      "state_shift st2 = foldl key_shift (state_shift st1) ks"
      "kbd_chars st2 = take 8 (kbd_chars st1 @ typed (state_shift st1) ks)"
    using Cons.IH [OF st1(2)] by blast
  moreover have "take 8 (kbd_chars st1 @ typed (state_shift st1) ks)
      = take 8 (kbd_chars st @ typed (state_shift st) (k # ks))"
    unfolding st1(4,5) take_take typed.simps by (simp only: append_assoc)
  ultimately show ?case using st1(1,3,4) by (simp only: kbd_handle_keys.simps bindE_simps foldl.simps) auto
qed

section \<open>The reader\<close>

lemma kbd_empty_iff:
  assumes "kbd_ok st local"
  shows "ringbuffer_empty (kbd_ring st) \<longleftrightarrow> kbd_chars st = []"
  using rbq.is_empty_iff [of "(kbd_ring st, kbd_mem st)"] kbd_chars_length(1) [OF assms] assms
  by (auto simp: kbd_ok_def)

lemma kbd_wait_run:
  assumes "kbd_ok st local" and "kbd_chars st = []"
    and "typed (state_shift st) (concat pre) = []"
    and "typed (state_shift st) (concat pre @ ks) \<noteq> []"
  shows "\<exists>st'. kbd_wait st local (pre @ ks # post) = Inr (Some (st', post)) \<and> kbd_ok st' local
    \<and> rb_apart (kbd_ring st') = rb_apart (kbd_ring st)
    \<and> state_shift st' = foldl key_shift (state_shift st) (concat pre @ ks)
    \<and> kbd_chars st' = take 8 (typed (state_shift st) (concat pre @ ks))"
  using assms
proof (induction pre arbitrary: st)
  case Nil
  obtain st' where st': "kbd_handle_keys st local ks = Inr st'" "kbd_ok st' local"
      "rb_apart (kbd_ring st') = rb_apart (kbd_ring st)"
      "state_shift st' = foldl key_shift (state_shift st) ks"
      "kbd_chars st' = take 8 (typed (state_shift st) ks)"
    using kbd_handle_keys_run [OF Nil.prems(1), of ks] Nil.prems(2) by auto
  then have "\<not> ringbuffer_empty (kbd_ring st')"
    using kbd_empty_iff [OF st'(2)] Nil.prems(4) by simp
  then have "kbd_wait st' local post = Inr (Some (st', post))" by (cases post) simp_all
  with st' Nil.prems(2) kbd_empty_iff [OF Nil.prems(1)] show ?case by simp
next
  case (Cons k pre)
  obtain st1 where st1: "kbd_handle_keys st local k = Inr st1" "kbd_ok st1 local"
      "rb_apart (kbd_ring st1) = rb_apart (kbd_ring st)"
      "state_shift st1 = foldl key_shift (state_shift st) k"
      "kbd_chars st1 = take 8 (typed (state_shift st) k)"
    using kbd_handle_keys_run [OF Cons.prems(1), of k] Cons.prems(2) by auto
  have none: "typed (state_shift st) k = []" and "typed (state_shift st1) (concat pre) = []"
    using Cons.prems(3) st1(4) by (simp_all add: typed_append)
  then show ?case
    using Cons.IH [OF st1(2)] Cons.prems(2,4) st1 kbd_empty_iff [OF Cons.prems(1)]
    by (simp add: typed_append)
qed

lemma kbd_take:
  assumes "kbd_ok st local" and "rb_apart (kbd_ring st) thechar" and "kbd_chars st = c # cs"
  shows "\<exists>rb m. ringbuffer_get (kbd_ring st) (kbd_mem st) thechar = Inr (0, rb, m) \<and> m thechar = c
    \<and> kbd_ok (st\<lparr>kbd_ring := rb, kbd_mem := m\<rparr>) local
    \<and> kbd_chars (st\<lparr>kbd_ring := rb, kbd_mem := m\<rparr>) = cs"
proof -
  let ?q = "(kbd_ring st, kbd_mem st)"
  obtain v vs where vs: "rb_contents (kbd_ring st) (kbd_mem st) = v # vs"
    using assms(3) by (cases "rb_contents (kbd_ring st) (kbd_mem st)") (auto simp: kbd_chars_def)
  then have "length v = 1" using assms(1)
    by (auto simp: kbd_ok_def rb_contents_def rb_element_def bytes_at_1 Cons_eq_map_conv)
  then have v: "v = [c]" "concat vs = cs" using assms(3) vs by (auto simp: kbd_chars_def length_Suc_conv)
  obtain rb m where get: "ringbuffer_get (kbd_ring st) (kbd_mem st) thechar = Inr (0, rb, m)"
    and rb: "rb_ok rb" "rb_apart rb = rb_apart (kbd_ring st)" "rb_contents rb m = vs"
      "bytes_at m thechar (unat (size_elem rb)) = [c]"
    using rbq.get_some [of ?q thechar v vs] assms(1,2) vs v by (auto simp: kbd_ok_def)
  show ?thesis using get rb v rb_get_sizes [OF get] assms(1)
    by (auto simp: kbd_ok_def kbd_chars_def bytes_at_1)
qed

lemma of_nat_u8_neq_0: "0 < n \<Longrightarrow> n < 256 \<Longrightarrow> (of_nat n :: u8) \<noteq> 0"
  using unat_of_nat_small [of n, where 'a = 8] by auto

section \<open>Properties\<close>

text \<open>
  C7. The keyboard interrupt side refines the pure specification: whatever scan codes arrive,
  \<open>kbd_handle_key\<close> never faults, and the eight-character queue holds what was waiting followed
  by what the codes type under the shift state, cut at eight characters.
\<close>

theorem kbd_handle_keys_correct:
  assumes "kbd_ok st local"
  shows "\<exists>st'. kbd_handle_keys st local ks = Inr st' \<and> kbd_ok st' local
    \<and> state_shift st' = foldl key_shift (state_shift st) ks
    \<and> kbd_chars st' = take 8 (kbd_chars st @ typed (state_shift st) ks)"
  using kbd_handle_keys_run [OF assms] by blast

lemma kbd_initial_ok: "kbd_ok (kbd_initial 1000) 500" "kbd_chars (kbd_initial 1000) = []"
proof -
  have "(8 :: u32) = 2 ^ 3" by simp
  then have "(8 :: u32) \<in> (\<lambda>k. 2 ^ k) ` {..<32}" by (intro image_eqI [of _ _ 3]) simp_all
  then show "kbd_ok (kbd_initial 1000) 500"
    by (auto simp: kbd_ok_def kbd_initial_def kbd_initial_ring_def rb_ok_def rb_apart_def
        in_buffer_def word_less_nat_alt unat_eq_0)
  show "kbd_chars (kbd_initial 1000) = []"
    by (simp add: kbd_chars_def kbd_initial_def kbd_initial_ring_def rb_contents_def)
qed

theorem kbd_handle_keys_correct_witness:
  "\<exists>st. kbd_handle_keys (kbd_initial 1000) 500 [0x2A, 0x10, 0x90, 0xAA, 0x30, 0x1C] = Inr st
    \<and> kbd_chars st = map of_char [CHR ''A'', CHR ''b'', CHR 0x0A]"
proof -
  have "state_shift (kbd_initial 1000) = 0" by (simp add: kbd_initial_def)
  moreover have "typed 0 [0x2A, 0x10, 0x90, 0xAA, 0x30, 0x1C] = map of_char [CHR ''A'', CHR ''b'', CHR 0x0A]"
    by code_simp
  ultimately show ?thesis
    using kbd_handle_keys_correct [OF kbd_initial_ok(1), of "[0x2A, 0x10, 0x90, 0xAA, 0x30, 0x1C]"]
      kbd_initial_ok(2) by auto
qed

text \<open>
  C8. The reader \<open>kbd_getchar\<close> returns, and with the right character: on an empty queue it
  sleeps through the intervals whose keys type nothing, and hands out the first character
  typed afterwards, leaving the others (up to seven) queued for the next call and its semaphore
  free.
\<close>

theorem kbd_getchar_correct:
  assumes "kbd_ok st local" and "kbd_semaphore st = 0" and "rb_apart (kbd_ring st) thechar" and "kbd_chars st = []"
    and "typed (state_shift st) (concat pre) = []"
    and "typed (state_shift st) (concat pre @ ks) = c # cs"
  shows "\<exists>st'. kbd_getchar tid st local thechar (pre @ ks # post) = Inr (Some (uint c, st', post))
    \<and> kbd_ok st' local \<and> kbd_semaphore st' = 0 \<and> kbd_chars st' = take 7 cs"
proof -
  let ?st = "st\<lparr>kbd_semaphore := tid\<rparr>"
  have "kbd_ok ?st local" "kbd_chars ?st = []" using assms(1,4) by (simp_all add: kbd_ok_def kbd_chars_def)
  then obtain st1 where st1: "kbd_wait ?st local (pre @ ks # post) = Inr (Some (st1, post))" "kbd_ok st1 local"
      "rb_apart (kbd_ring st1) = rb_apart (kbd_ring st)" "kbd_chars st1 = c # take 7 cs"
    using kbd_wait_run [of ?st local pre ks post] assms(5,6) by auto
  then obtain rb m where "ringbuffer_get (kbd_ring st1) (kbd_mem st1) thechar = Inr (0, rb, m)"
      "m thechar = c" "kbd_ok (st1\<lparr>kbd_ring := rb, kbd_mem := m\<rparr>) local"
      "kbd_chars (st1\<lparr>kbd_ring := rb, kbd_mem := m\<rparr>) = take 7 cs"
    using kbd_take [of st1 local thechar c] assms(3) by auto
  with st1 assms(2) show ?thesis
    by (auto simp: kbd_getchar_def semaphore_acquire_def semaphore_release_def kbd_ok_def kbd_chars_def)
qed

theorem kbd_getchar_correct_witness:
  "\<exists>st. kbd_getchar 2 (kbd_initial 1000) 500 500 [[], [0x2A], [0x03, 0x83, 0xAA]] = Inr (Some (50, st, []))
    \<and> kbd_chars st = []"
proof -
  have "state_shift (kbd_initial 1000) = 0" "kbd_semaphore (kbd_initial 1000) = 0" by (simp_all add: kbd_initial_def)
  moreover have "typed 0 (concat [[], [0x2A]]) = []" by code_simp
  moreover have "typed 0 (concat [[], [0x2A]] @ [0x03, 0x83, 0xAA]) = 50 # []" by code_simp
  moreover have "rb_apart (kbd_ring (kbd_initial 1000)) 500" using kbd_initial_ok(1) by (simp add: kbd_ok_def)
  ultimately show ?thesis
    using kbd_getchar_correct [OF kbd_initial_ok(1) _ _ kbd_initial_ok(2), of 500 "[[], [0x2A]]" "[0x03, 0x83, 0xAA]" 50 "[]" 2 "[]"]
    by auto
qed

text \<open>
  C9. The shift counter and typematic repeat: a left shift key held long enough to repeat its
  make code \<open>n\<close> times and then released leaves the counter at \<open>n - 1\<close>, so for \<open>n > 1\<close> shift
  stays active although no key is down, and the next letter comes out in upper case.
\<close>

theorem kbd_shift_stuck:
  assumes "kbd_ok st local" and "state_shift st = 0" and "1 < n" and "n < 256"
  shows "\<exists>st'. kbd_handle_keys st local (replicate n 0x2A @ [0xAA]) = Inr st'
    \<and> state_shift st' = of_nat (n - 1) \<and> get_active_mod st' = 1"
proof -
  have press: "key_shift s 0x2A = s + 1" for s
    by (simp add: key_shift_def KEY_CODE_def KEY_UP_def kbd_specs_def)
  have release: "key_shift s 0xAA = (if s = 0 then 0 else s - 1)" for s
    by (simp add: key_shift_def KEY_CODE_def KEY_UP_def kbd_specs_def)
  have "foldl key_shift s (replicate k 0x2A) = s + of_nat k" for s k
    by (induction k arbitrary: s) (simp_all add: press add.assoc)
  moreover have "(of_nat n :: u8) \<noteq> 0" "(of_nat (n - 1) :: u8) \<noteq> 0"
    using of_nat_u8_neq_0 [of n] of_nat_u8_neq_0 [of "n - 1"] assms(3,4) by linarith+
  moreover have "(of_nat n :: u8) - 1 = of_nat (n - 1)" using assms(3) by simp
  ultimately have "foldl key_shift 0 (replicate n 0x2A @ [0xAA]) = of_nat (n - 1)"
    by (simp add: release)
  moreover obtain st' where "kbd_handle_keys st local (replicate n 0x2A @ [0xAA]) = Inr st'"
      "state_shift st' = foldl key_shift 0 (replicate n 0x2A @ [0xAA])"
    using kbd_handle_keys_run [OF assms(1), of "replicate n 0x2A @ [0xAA]"] unfolding assms(2) by blast
  ultimately show ?thesis
    using \<open>(of_nat (n - 1) :: u8) \<noteq> 0\<close> unfolding get_active_mod_def by metis
qed

theorem kbd_shift_stuck_witness:
  "\<exists>st. kbd_handle_keys (kbd_initial 1000) 500 [0x2A, 0x2A, 0x2A, 0xAA] = Inr st \<and> get_active_mod st = 1"
  using kbd_shift_stuck [OF kbd_initial_ok(1), of 3] by (auto simp: kbd_initial_def numeral_3_eq_3)

end
