(* ===== verification/Paging.thy ===== *)
theory Paging
  imports Memory Sync
begin

text \<open>
  The page allocator of \<open>kernel/src/arch/i386/mm/page_allocator.c\<close> on the paging hardware it
  drives: physical memory as 32-bit words, the two-level page tables inside it, the recursive
  mapping of the page directory at the top of the address space, the temporary mapping window
  \<open>mm_freepage\<close> and the list of free physical pages threaded through the pages themselves.
\<close>

section \<open>The paging unit\<close>

text \<open>
  \<open>phys\<close> gives the word at each physical address (the code accesses aligned words only). The
  translation of a virtual address walks the page directory at \<open>cr3\<close>; entries that are not
  present fault. Every change of an entry is followed by \<open>invlpg\<close> in the code, so no stale
  translation is modelled.
\<close>

record mm_state =
  phys :: "u32 \<Rightarrow> u32"
  cr3 :: u32
  first_free_page :: u32
  stat_mark :: u32
  mm_mutex :: mutex
  mm_freepage_pte :: u32

definition frame :: "u32 \<Rightarrow> u32" where
  "frame e = e AND 0xFFFFF000"

definition present :: "u32 \<Rightarrow> bool" where
  "present e \<longleftrightarrow> e AND 1 \<noteq> 0"

definition translate :: "mm_state \<Rightarrow> u32 \<Rightarrow> u32 result" where
  "translate st va =
     (let pde = phys st (frame (cr3 st) + 4 * drop_bit 22 va)
      in if \<not> present pde then Inl (BadAccess va)
         else let pte = phys st (frame pde + 4 * (drop_bit 12 va AND 0x3FF))
              in if \<not> present pte then Inl (BadAccess va)
                 else Inr (frame pte + (va AND 0xFFF)))"

definition vread :: "mm_state \<Rightarrow> u32 \<Rightarrow> u32 result" where
  "vread st va = bindE (translate st va) (\<lambda>a. Inr (phys st a))"

definition vwrite :: "mm_state \<Rightarrow> u32 \<Rightarrow> u32 \<Rightarrow> mm_state result" where
  "vwrite st va v = bindE (translate st va) (\<lambda>a. Inr (st\<lparr>phys := (phys st)(a := v)\<rparr>))"

section \<open>Page indexes and the temporary window\<close>

record pageinfo =
  pagetable :: u32
  page :: u32

definition mm_virtaddrtopageindex :: "u32 \<Rightarrow> pageinfo" where
  "mm_virtaddrtopageindex addr =
     (let addr = addr AND NOT 0xFFF
      in \<lparr>pagetable = addr div 0x400000, page = (addr mod 0x400000) div 0x1000\<rparr>)"

text \<open>\<open>kernel_page_dir\<close> and the virtual address of a page table.\<close>

definition kernel_page_dir :: u32 where
  "kernel_page_dir = 0xFFFFF000"

definition page_table_of :: "u32 \<Rightarrow> u32" where
  "page_table_of pt = 0xFFC00000 + pt * 0x1000"

definition MAP_TO_FREEPAGE :: "mm_state \<Rightarrow> u32 \<Rightarrow> mm_state result" where
  "MAP_TO_FREEPAGE st page_table_entry = vwrite st (mm_freepage_pte st) page_table_entry"

text \<open>The mutex; \<open>tid\<close> is the calling thread.\<close>

definition mm_lock :: "u32 \<Rightarrow> mm_state \<Rightarrow> mm_state result" where
  "mm_lock tid st =
     (case mutex_acquire tid (mm_mutex st) of
        None \<Rightarrow> Inl Blocked
      | Some m \<Rightarrow> Inr (st\<lparr>mm_mutex := m\<rparr>))"

definition mm_unlock :: "mm_state \<Rightarrow> mm_state" where
  "mm_unlock st = st\<lparr>mm_mutex := mutex_release (mm_mutex st)\<rparr>"

section \<open>Free pages\<close>

text \<open>\<open>V\<close> is the address of the symbol \<open>mm_freepage\<close>, a whole page of the kernel image.\<close>

definition mark_page :: "u32 \<Rightarrow> mm_state \<Rightarrow> u32 \<Rightarrow> u32 \<Rightarrow> mm_state result" where
  "mark_page V st physical_addr next =
     bindE (MAP_TO_FREEPAGE st (physical_addr OR 3)) (\<lambda>st.
     bindE (vwrite st V next) (\<lambda>st.
     Inr (st\<lparr>stat_mark := stat_mark st + 1\<rparr>)))"

text \<open>\<open>memset\<close> of the 4096 bytes of one page: the words of its frame.\<close>

definition vzero_page :: "mm_state \<Rightarrow> u32 \<Rightarrow> mm_state result" where
  "vzero_page st va =
     bindE (translate st va) (\<lambda>a.
     Inr (st\<lparr>phys := (\<lambda>b. if in_range a 4096 b then 0 else phys st b)\<rparr>))"

definition mm_alloc_physical_page :: "u32 \<Rightarrow> u32 \<Rightarrow> bool \<Rightarrow> mm_state \<Rightarrow> (u32 \<times> mm_state) result" where
  "mm_alloc_physical_page V tid zero st =
     bindE (mm_lock tid st) (\<lambda>st.
       let page = first_free_page st
       in bindE
            (if page \<noteq> 0 then
               bindE (MAP_TO_FREEPAGE st (page OR 3)) (\<lambda>st.
               bindE (vread st V) (\<lambda>next.
               let st = st\<lparr>first_free_page := next\<rparr>
               in bindE (if zero then vzero_page st V else Inr st) (\<lambda>st.
                  MAP_TO_FREEPAGE st 0)))
             else Inr st)
            (\<lambda>st. Inr (page, mm_unlock st)))"

definition mm_free_physical_page :: "u32 \<Rightarrow> u32 \<Rightarrow> mm_state \<Rightarrow> u32 \<Rightarrow> mm_state result" where
  "mm_free_physical_page V tid st physical_addr =
     bindE (mm_lock tid st) (\<lambda>st.
     bindE (MAP_TO_FREEPAGE st (physical_addr OR 3)) (\<lambda>st.
     bindE (vwrite st V (first_free_page st)) (\<lambda>st.
     bindE (MAP_TO_FREEPAGE st 0) (\<lambda>st.
     Inr (mm_unlock (st\<lparr>first_free_page := physical_addr\<rparr>))))))"

section \<open>Initialisation from the memory map\<close>

record multiboot_mmap_entry =
  mmap_size :: u32
  mmap_addr :: u64
  mmap_len :: u64
  mmap_type :: u32

definition max64 :: "u64 \<Rightarrow> u64 \<Rightarrow> u64" where
  "max64 a b = (if a < b then b else a)"

definition min64 :: "u64 \<Rightarrow> u64 \<Rightarrow> u64" where
  "min64 a b = (if a < b then a else b)"

text \<open>
  The inner loop, over the pages of one region. \<open>bound\<close> is the result of \<open>min\<close>, at most
  \<open>0xFFFFFFFF\<close>, so \<open>next\<close> cannot wrap.
\<close>

function (sequential) mark_region ::
    "u32 \<Rightarrow> u64 \<Rightarrow> u64 \<Rightarrow> u32 \<times> mm_state \<Rightarrow> (u32 \<times> mm_state) result" where
  "mark_region V bound next (previous, st) =
     (if next < min64 bound 0xFFFFFFFF then
        bindE (if first_free_page st = 0 then Inr (st\<lparr>first_free_page := ucast next\<rparr>)
               else mark_page V st previous (ucast next)) (\<lambda>st.
        mark_region V bound (next + 4096) (ucast next, st))
      else Inr (previous, st))"
  by pat_completeness auto
termination
proof (relation "measure (\<lambda>(V, bound, next, ps). 2 ^ 32 - unat next)", goal_cases)
  case (2 V bound "next" previous st st')
  then have "next < 0xFFFFFFFF" by (auto simp: min64_def split: if_splits)
  then have "unat next < 4294967295" by (simp add: word_less_nat_alt)
  moreover from this have "unat (next + 4096) = unat next + 4096" by (subst unat_add_small) simp_all
  ultimately show ?case by simp
qed simp

text \<open>
  The outer loop walks the entries of the map, whose stride is in the map itself: \<open>entry\<close> gives
  the entry at an address. A map whose strides never leave it keeps the loop going for ever.
\<close>

partial_function (option) mark_regions ::
    "u32 \<Rightarrow> (u32 \<Rightarrow> multiboot_mmap_entry) \<Rightarrow> u32 \<Rightarrow> u64 \<Rightarrow> u32 \<Rightarrow> u32 \<times> mm_state
     \<Rightarrow> (u32 \<times> mm_state) result option" where
  "mark_regions V entry mmap_end after_kernel mm s =
     (if mm < mmap_end then
        (case (if mmap_type (entry mm) = 1
               then mark_region V (mmap_addr (entry mm) + mmap_len (entry mm))
                      (max64 after_kernel (mmap_addr (entry mm))) s
               else Inr s) of
           Inl e \<Rightarrow> Some (Inl e)
         | Inr s \<Rightarrow> mark_regions V entry mmap_end after_kernel (mm + mmap_size (entry mm) + 4) s)
      else Some (Inr s))"

definition mm_init_page_allocator ::
    "u32 \<Rightarrow> u32 \<Rightarrow> (u32 \<Rightarrow> multiboot_mmap_entry) \<Rightarrow> u32 \<Rightarrow> u32 \<Rightarrow> mm_state \<Rightarrow> mm_state result option" where
  "mm_init_page_allocator V kernel_physical_end entry mmap_length mmap st =
     (let info = mm_virtaddrtopageindex V;
          st = st\<lparr>mm_freepage_pte := page_table_of (pagetable info) + 4 * page info\<rparr>;
          page_after_kernel = (drop_bit 12 kernel_physical_end + 1) * 4096
      in map_option
           (\<lambda>r. bindE r (\<lambda>(previous, st). mark_page V st previous 0))
           (mark_regions V entry (mmap + mmap_length) (ucast page_after_kernel) mmap (0, st)))"

section \<open>Mapping\<close>

text \<open>\<open>!e & 1\<close> is \<open>(!e) & 1\<close>: the entry is taken as unmapped when it is zero.\<close>

definition mm_map_page :: "u32 \<Rightarrow> u32 \<Rightarrow> mm_state \<Rightarrow> u32 \<Rightarrow> u32 \<Rightarrow> (int \<times> mm_state) result" where
  "mm_map_page V tid st phys_address virt_address =
     (if phys_address = 0 \<or> virt_address = 0 then Inr (- 1, st)
      else
        let pginf = mm_virtaddrtopageindex virt_address;
            page_table = page_table_of (pagetable pginf)
        in bindE (mm_lock tid st) (\<lambda>st.
           bindE (vread st (kernel_page_dir + 4 * pagetable pginf)) (\<lambda>pde.
           if pde AND 1 \<noteq> 0 then
             bindE (vread st (page_table + 4 * page pginf)) (\<lambda>e.
             if (if e = 0 then 1 else 0 :: u32) AND 1 \<noteq> 0 then
               bindE (vwrite st (page_table + 4 * page pginf) (phys_address OR 3)) (\<lambda>st.
               Inr (0, mm_unlock st))
             else Inr (- 1, mm_unlock st))
           else
             bindE (mm_alloc_physical_page V tid True st) (\<lambda>(new_page_table, st).
             bindE (vwrite st (kernel_page_dir + 4 * pagetable pginf) (new_page_table OR 3)) (\<lambda>st.
             bindE (vwrite st (page_table + 4 * page pginf) (phys_address OR 3)) (\<lambda>st.
             Inr (0, mm_unlock st)))))))"

text \<open>The scan for a present entry: the index at which the loop stops.\<close>

fun scan_table :: "mm_state \<Rightarrow> u32 \<Rightarrow> nat \<Rightarrow> u32 \<Rightarrow> u32 result" where
  "scan_table st page_table 0 i = Inr i"
| "scan_table st page_table (Suc n) i =
     bindE (vread st (page_table + 4 * i)) (\<lambda>e.
     if e AND 1 \<noteq> 0 then Inr i else scan_table st page_table n (i + 1))"

text \<open>\<open>e && ~0xFFF\<close> is the truth value 1 for a nonzero entry.\<close>

definition mm_unmap_page :: "u32 \<Rightarrow> u32 \<Rightarrow> mm_state \<Rightarrow> u32 \<Rightarrow> (u32 \<times> mm_state) result" where
  "mm_unmap_page V tid st virt_address =
     (let pginf = mm_virtaddrtopageindex virt_address;
          page_table = page_table_of (pagetable pginf)
      in bindE (mm_lock tid st) (\<lambda>st.
         bindE (vread st (kernel_page_dir + 4 * pagetable pginf)) (\<lambda>pde.
         if pde AND 1 \<noteq> 0 then
           bindE (vread st (page_table + 4 * page pginf)) (\<lambda>e.
           bindE (if e AND 1 \<noteq> 0
                  then bindE (vwrite st (page_table + 4 * page pginf) 2) (\<lambda>st.
                       Inr (if e \<noteq> 0 \<and> NOT 0xFFF \<noteq> (0 :: u32) then 1 else 0, st))
                  else Inr (0, st)) (\<lambda>(phys_address, st).
           bindE (scan_table st page_table 1024 0) (\<lambda>i.
           if i = 1024 then
             bindE (vread st (kernel_page_dir + 4 * pagetable pginf)) (\<lambda>pde.
             bindE (mm_free_physical_page V tid st (pde AND 0xFFFFF000)) (\<lambda>st.
             bindE (vwrite st (kernel_page_dir + 4 * pagetable pginf) 2) (\<lambda>st.
             Inr (phys_address, mm_unlock st))))
           else Inr (phys_address, mm_unlock st))))
         else Inr (0, mm_unlock st))))"

text \<open>
  A new page directory: the entries 768 to 1022 of the kernel are copied, the last one maps the
  directory to itself.
\<close>

definition vcopy_words :: "mm_state \<Rightarrow> u32 \<Rightarrow> u32 \<Rightarrow> u32 \<Rightarrow> mm_state result" where
  "vcopy_words st dst src n =
     bindE (translate st dst) (\<lambda>d.
     bindE (translate st src) (\<lambda>s.
     Inr (st\<lparr>phys := (\<lambda>b. if in_range d (4 * n) b then phys st (s + (b - d)) else phys st b)\<rparr>)))"

definition mm_new_page_directory :: "u32 \<Rightarrow> u32 \<Rightarrow> mm_state \<Rightarrow> (u32 \<times> mm_state) result" where
  "mm_new_page_directory V tid st =
     bindE (mm_alloc_physical_page V tid True st) (\<lambda>(new_page_dir, st).
     bindE (mm_lock tid st) (\<lambda>st.
     bindE (MAP_TO_FREEPAGE st (new_page_dir OR 3)) (\<lambda>st.
     bindE (vcopy_words st (V + 4 * 768) (kernel_page_dir + 4 * 768) 255) (\<lambda>st.
     bindE (vwrite st (V + 4 * 1023) (new_page_dir OR 3)) (\<lambda>st.
     bindE (MAP_TO_FREEPAGE st 0) (\<lambda>st.
     Inr (new_page_dir, mm_unlock st)))))))"


section \<open>Frames and tables\<close>

lemma frame_drop: "frame a = push_bit 12 (drop_bit 12 a)"
proof -
  have "(0xFFFFF000 :: u32) = NOT (mask 12)" by (simp add: mask_eq_exp_minus_1)
  then show ?thesis unfolding frame_def by (simp only:) (auto simp: bit_eq_iff bit_simps)
qed

lemma unat_frame: "unat (frame a) = unat a div 4096 * 4096"
proof -
  have "unat a div 4096 * 4096 \<le> unat a" by simp
  then have "unat a div 4096 * 4096 < 4294967296" using unat_u32_bound [of a] by linarith
  then show ?thesis by (simp add: frame_drop unat_push_bit_mod unat_drop_bit_div)
qed

definition page_aligned :: "u32 \<Rightarrow> bool" where
  "page_aligned p \<longleftrightarrow> frame p = p"

lemma page_aligned_iff: "page_aligned p \<longleftrightarrow> unat p mod 4096 = 0"
  unfolding page_aligned_def word_eq_unat_iff unat_frame
  by (metis add.right_neutral add_left_cancel div_mult_mod_eq)

lemma frame_idem [simp]: "frame (frame a) = frame a"
  by (simp add: word_eq_unat_iff unat_frame)

lemma page_aligned_frame [simp]: "page_aligned (frame a)"
  by (simp add: page_aligned_def)

lemma unat_page_add:
  assumes "page_aligned p" "off < 4096"
  shows "unat (p + off) = unat p + unat off"
proof (rule unat_add_small)
  have "unat p mod 4096 = 0" using assms(1) by (simp add: page_aligned_iff)
  then obtain k where k: "unat p = 4096 * k" by (auto simp: mod_eq_0_iff_dvd elim: dvdE)
  have "4096 * k < 4294967296" using unat_u32_bound [of p] k by simp
  then have "k < 1048576" by simp
  moreover have "unat off < 4096" using assms(2) by (simp add: word_less_nat_alt)
  ultimately show "unat p + unat off < 2 ^ LENGTH(32)" using k by simp
qed

lemma frame_add:
  assumes "page_aligned p" "off < 4096"
  shows "frame (p + off) = p"
proof -
  have "unat off < 4096" using assms(2) by (simp add: word_less_nat_alt)
  moreover obtain k where "unat p = 4096 * k" using assms(1) by (auto simp: page_aligned_iff mod_eq_0_iff_dvd elim: dvdE)
  ultimately show ?thesis
    using assms by (simp add: word_eq_unat_iff unat_frame unat_page_add)
qed

lemma index_less: "i < 1024 \<Longrightarrow> 4 * i < (4096 :: u32)"  "i < 1024 \<Longrightarrow> unat (4 * i :: u32) = 4 * unat i"
proof -
  assume "i < 1024"
  then have "unat i < 1024" by (simp add: word_less_nat_alt)
  then show "unat (4 * i :: u32) = 4 * unat i" using unat_mult_small [of 4 i] by simp
  with \<open>unat i < 1024\<close> show "4 * i < (4096 :: u32)" by (simp add: word_less_nat_alt)
qed

lemma index_inj: "i < 1024 \<Longrightarrow> j < 1024 \<Longrightarrow> 4 * i = 4 * j \<longleftrightarrow> i = j" for i j :: u32
  using index_less(2) [of i] index_less(2) [of j] by (metis mult_left_cancel word_eq_unat_iff zero_neq_numeral)

lemma present_iff: "present e \<longleftrightarrow> odd e"
  by (simp add: present_def and_one_eq odd_iff_mod_2_eq_one)

lemma frame_or_3 [simp]: "frame (p OR 3) = frame p" and present_or_3 [simp]: "present (p OR 3)"
  by (simp_all add: frame_drop drop_bit_or present_iff even_or_iff)

lemma off_mask: "unat (va AND 0xFFF) = unat va mod 4096" "unat (x AND 0x3FF) = unat x mod 1024"  for va x :: u32
proof -
  have "(0xFFF :: u32) = mask 12" "(0x3FF::u32) = mask 10" by (simp_all add: mask_eq_exp_minus_1)
  moreover have "va AND mask 12 = va mod 4096" "x AND mask 10 = x mod 1024"
    by (simp_all add: take_bit_eq_mod flip: take_bit_eq_mask)
  ultimately have "va AND 0xFFF = va mod 4096" "x AND 0x3FF = x mod 1024" by simp_all
  then show "unat (va AND 0xFFF) = unat va mod 4096" "unat (x AND 0x3FF) = unat x mod 1024"
    by (simp_all add: unat_mod_distrib)
qed

definition pde :: "mm_state \<Rightarrow> u32 \<Rightarrow> u32" where
  "pde st i = phys st (cr3 st + 4 * i)"

definition pte :: "mm_state \<Rightarrow> u32 \<Rightarrow> u32 \<Rightarrow> u32" where
  "pte st i j = phys st (frame (pde st i) + 4 * j)"

definition paging_ok :: "mm_state \<Rightarrow> bool" where
  "paging_ok st \<longleftrightarrow>
     page_aligned (cr3 st) \<and> pde st 1023 = cr3 st OR 3
     \<and> inj_on (\<lambda>i. frame (pde st i)) {i. i < 1024 \<and> present (pde st i)}"

lemma table_address:
  assumes "i < 1024" "j < 1024"
  shows "drop_bit 22 (0xFFC00000 + i * 0x1000 + 4 * j) = (1023 :: u32)"
    and "drop_bit 12 (0xFFC00000 + i * 0x1000 + 4 * j) AND 0x3FF = (i :: u32)"
    and "(0xFFC00000 + i * 0x1000 + 4 * j) AND 0xFFF = (4 * j :: u32)"
proof -
  let ?i = "unat i" and ?j = "unat j"
  have b: "?i < 1024" "?j < 1024" using assms by (simp_all add: word_less_nat_alt)
  have "unat (i * 0x1000) = 4096 * ?i" using unat_mult_small [of i "0x1000"] b by simp
  moreover from this have "unat (0xFFC00000 + i * 0x1000) = 4290772992 + 4096 * ?i"
    using unat_add_small [of "0xFFC00000" "i * 0x1000"] b by simp
  ultimately have n: "unat (0xFFC00000 + i * 0x1000 + 4 * j) = 1023 * 4194304 + (4096 * ?i + 4 * ?j)"
    using unat_add_small [of "0xFFC00000 + i * 0x1000" "4 * j"] index_less(2) [OF assms(2)] b by simp
  have "(1023 * 4194304 + (4096 * ?i + 4 * ?j)) div 4194304 = 1023" using b by linarith
  then show "drop_bit 22 (0xFFC00000 + i * 0x1000 + 4 * j) = (1023 :: u32)"
    unfolding word_eq_unat_iff unat_drop_bit_div n by simp
  have "(1023 * 4194304 + (4096 * ?i + 4 * ?j)) div 4096 = 1023 * 1024 + ?i" using b by linarith
  moreover have "(1023 * 1024 + ?i) mod 1024 = ?i" using b by (simp only: mod_mult_self3 mod_less)
  ultimately show "drop_bit 12 (0xFFC00000 + i * 0x1000 + 4 * j) AND 0x3FF = i"
    unfolding word_eq_unat_iff off_mask(2) unat_drop_bit_div n by simp
  have "(1023 * 4194304 + (4096 * ?i + 4 * ?j)) mod 4096 = ((1023 * 1024 + ?i) * 4096 + 4 * ?j) mod 4096"
    by (simp add: algebra_simps)
  also have "\<dots> = 4 * ?j" unfolding mod_mult_self3 using b by simp
  finally have "(1023 * 4194304 + (4096 * ?i + 4 * ?j)) mod 4096 = 4 * ?j" .
  then show "(0xFFC00000 + i * 0x1000 + 4 * j) AND 0xFFF = (4 * j :: u32)"
    unfolding word_eq_unat_iff off_mask(1) n index_less(2) [OF assms(2)] by simp
qed

lemma translate_table:
  assumes "paging_ok st" "i < 1024" "j < 1024" "present (pde st i)"
  shows "translate st (page_table_of i + 4 * j) = Inr (frame (pde st i) + 4 * j)"
proof -
  have "frame (cr3 st) = cr3 st" "phys st (cr3 st + 4092) = cr3 st OR 3"
    using assms(1) by (simp_all add: paging_ok_def page_aligned_def pde_def)
  moreover have "phys st (cr3 st + 4 * i) = pde st i" by (simp add: pde_def)
  ultimately show ?thesis
    using assms(4) by (simp add: translate_def page_table_of_def table_address [OF assms(2,3)] Let_def)
qed

lemma kernel_page_dir_table: "kernel_page_dir = page_table_of 1023"
  by (simp add: kernel_page_dir_def page_table_of_def)

lemma translate_dir:
  assumes "paging_ok st" "i < 1024"
  shows "translate st (kernel_page_dir + 4 * i) = Inr (cr3 st + 4 * i)"
proof -
  have "present (pde st 1023)" "frame (pde st 1023) = cr3 st" 
    using assms(1) by (simp_all add: paging_ok_def page_aligned_def)
  then show ?thesis using translate_table [OF assms(1) _ assms(2), of 1023] by (simp add: kernel_page_dir_table word_less_nat_alt)
qed

lemma pageindex:
  shows "pagetable (mm_virtaddrtopageindex va) = drop_bit 22 va"
    and "page (mm_virtaddrtopageindex va) = drop_bit 12 va AND 0x3FF"
    and "pagetable (mm_virtaddrtopageindex va) < 1024" and "page (mm_virtaddrtopageindex va) < 1024"
proof -
  have "NOT (0xFFF :: u32) = 0xFFFFF000" by simp
  then have f: "mm_virtaddrtopageindex va = \<lparr>pagetable = frame va div 0x400000, page = (frame va mod 0x400000) div 0x1000\<rparr>"
    by (simp only: frame_def mm_virtaddrtopageindex_def Let_def)
  have q: "x * 4096 div 4194304 = x div 1024" "x * 4096 mod 4194304 div 4096 = x mod 1024" for x :: nat
    using div_mult_mult2 [of 4096 x 1024] mult_mod_left [of x 1024 4096] by simp_all
  have "unat va div 4096 * 4096 div 4194304 = unat va div 4194304"
    unfolding q using div_mult2_eq [of "unat va" 4096 1024] by simp
  then show 1: "pagetable (mm_virtaddrtopageindex va) = drop_bit 22 va"
    by (simp add: f word_eq_unat_iff unat_drop_bit_div unat_div_distrib unat_frame)
  have "unat va div 4096 * 4096 mod 4194304 div 4096 = unat va div 4096 mod 1024" by (rule q(2))
  then show 2: "page (mm_virtaddrtopageindex va) = drop_bit 12 va AND 0x3FF"
    by (simp add: f word_eq_unat_iff unat_drop_bit_div unat_div_distrib unat_mod_distrib unat_frame off_mask)
  have "unat va div 4194304 < 1024" using unat_u32_bound [of va] by linarith
  then show "pagetable (mm_virtaddrtopageindex va) < 1024"
    by (simp add: 1 word_less_nat_alt unat_drop_bit_div)
  show "page (mm_virtaddrtopageindex va) < 1024" by (simp add: 2 word_less_nat_alt off_mask)
qed


definition table_frame :: "mm_state \<Rightarrow> u32 \<Rightarrow> bool" where
  "table_frame st f \<longleftrightarrow> (\<exists>i < 1024. present (pde st i) \<and> frame (pde st i) = f)"

abbreviation dir_ix :: "u32 \<Rightarrow> u32" where
  "dir_ix va \<equiv> drop_bit 22 va"

abbreviation tab_ix :: "u32 \<Rightarrow> u32" where
  "tab_ix va \<equiv> drop_bit 12 va AND 0x3FF"

lemma ix_less: "dir_ix va < 1024" "tab_ix va < 1024"
  using pageindex [of va] by simp_all

definition fp_ok :: "u32 \<Rightarrow> mm_state \<Rightarrow> bool" where
  "fp_ok V st \<longleftrightarrow>
     paging_ok st \<and> page_aligned V \<and> dir_ix V \<noteq> 1023 \<and> present (pde st (dir_ix V))
     \<and> mm_freepage_pte st = page_table_of (dir_ix V) + 4 * tab_ix V"

definition fpte :: "u32 \<Rightarrow> mm_state \<Rightarrow> u32" where
  "fpte V st = frame (pde st (dir_ix V)) + 4 * tab_ix V"

lemma table_entry_frame: "page_aligned t \<Longrightarrow> j < 1024 \<Longrightarrow> frame (t + 4 * j) = t"
  by (simp add: frame_add index_less)

lemma paging_cr3:
  assumes "paging_ok st"
  shows "page_aligned (cr3 st)" "frame (cr3 st) = cr3 st" "frame (pde st 1023) = cr3 st" "present (pde st 1023)"
    "table_frame st (cr3 st)"
proof -
  show *: "page_aligned (cr3 st)" "frame (cr3 st) = cr3 st" "frame (pde st 1023) = cr3 st" "present (pde st 1023)"
    using assms by (simp_all add: paging_ok_def page_aligned_def)
  show "table_frame st (cr3 st)"
    unfolding table_frame_def using * by (intro exI [of _ 1023]) (simp add: word_less_nat_alt)
qed

lemma table_not_cr3:
  assumes "paging_ok st" "i < 1024" "present (pde st i)" "i \<noteq> 1023"
  shows "frame (pde st i) \<noteq> cr3 st"
proof
  assume eq: "frame (pde st i) = cr3 st"
  have "(1023 :: u32) < 1024" by (simp add: word_less_nat_alt)
  then have "i = 1023"
    using assms(1) eq paging_cr3 [OF assms(1)] assms(2,3)
    unfolding paging_ok_def inj_on_def by (metis (mono_tags, lifting) mem_Collect_eq)
  with assms(4) show False by simp
qed

text \<open>Writes outside the page directory change no translation structure of the first level.\<close>

lemma same_directory:
  assumes "paging_ok st" "cr3 st' = cr3 st" "\<And>a. frame a = cr3 st \<Longrightarrow> phys st' a = phys st a"
  shows "i < 1024 \<Longrightarrow> pde st' i = pde st i" "paging_ok st'" "table_frame st' = table_frame st"
proof -
  show *: "pde st' i = pde st i" if "i < 1024" for i
    using that assms table_entry_frame [OF paging_cr3(1) [OF assms(1)]] by (simp add: pde_def)
  have 1: "(1023 :: u32) < 1024" by (simp add: word_less_nat_alt)
  have "{i. i < 1024 \<and> present (pde st' i)} = {i. i < 1024 \<and> present (pde st i)}" using * by auto
  moreover have "inj_on (\<lambda>i. frame (pde st' i)) A = inj_on (\<lambda>i. frame (pde st i)) A" if "A \<subseteq> {i. i < 1024}" for A
    using that * by (intro inj_on_cong) auto
  ultimately show "paging_ok st'" using assms(1,2) * [OF 1] by (auto simp: paging_ok_def)
  show "table_frame st' = table_frame st" using * by (auto simp: table_frame_def fun_eq_iff)
qed

lemma fp_ok_same:
  assumes "fp_ok V st" "cr3 st' = cr3 st" "mm_freepage_pte st' = mm_freepage_pte st"
    "\<And>a. frame a = cr3 st \<Longrightarrow> phys st' a = phys st a"
  shows "fp_ok V st'" "fpte V st' = fpte V st" "table_frame st' = table_frame st"
proof -
  have ok: "paging_ok st" using assms(1) by (simp add: fp_ok_def)
  note same = same_directory [OF ok assms(2,4)]
  show "fp_ok V st'" "fpte V st' = fpte V st" "table_frame st' = table_frame st"
    using assms(1,3) same(1) [OF _ ix_less(1)] same(2,3) by (simp_all add: fp_ok_def fpte_def)
qed

lemma fpte_frame:
  assumes "fp_ok V st"
  shows "frame (fpte V st) = frame (pde st (dir_ix V))" "frame (fpte V st) \<noteq> cr3 st" "table_frame st (frame (fpte V st))"
proof -
  show 1: "frame (fpte V st) = frame (pde st (dir_ix V))" by (simp add: fpte_def table_entry_frame ix_less)
  show "frame (fpte V st) \<noteq> cr3 st" unfolding 1 using assms table_not_cr3 ix_less by (auto simp: fp_ok_def)
  show "table_frame st (frame (fpte V st))" unfolding 1 table_frame_def using assms ix_less by (auto simp: fp_ok_def)
qed

lemma MAP_effect:
  assumes "fp_ok V st"
  shows "MAP_TO_FREEPAGE st e = Inr (st\<lparr>phys := (phys st)(fpte V st := e)\<rparr>)"
  using assms translate_table [OF _ ix_less] by (simp add: MAP_TO_FREEPAGE_def vwrite_def fp_ok_def fpte_def)

lemma MAP_effect_ok:
  assumes "fp_ok V st"
  shows "fp_ok V (st\<lparr>phys := (phys st)(fpte V st := e)\<rparr>)"
    "fpte V (st\<lparr>phys := (phys st)(fpte V st := e)\<rparr>) = fpte V st"
    "table_frame (st\<lparr>phys := (phys st)(fpte V st := e)\<rparr>) = table_frame st"
proof -
  let ?st = "st\<lparr>phys := (phys st)(fpte V st := e)\<rparr>"
  have "phys ?st a = phys st a" if "frame a = cr3 st" for a using that fpte_frame(2) [OF assms] by auto
  from fp_ok_same [OF assms _ _ this] show "fp_ok V ?st" "fpte V ?st = fpte V st" "table_frame ?st = table_frame st"
    by simp_all
qed

lemma window_translate:
  assumes "fp_ok V st" "phys st (fpte V st) = p OR 3" "off < 4096"
  shows "translate st (V + off) = Inr (frame p + off)"
proof -
  have V: "page_aligned V" using assms(1) by (simp add: fp_ok_def)
  have fr: "frame (V + off) = V" using V assms(3) by (rule frame_add)
  have drop: "drop_bit 12 (frame x) = drop_bit 12 x" for x
    by (simp add: frame_drop bit_eq_iff bit_simps) (auto dest: bit_imp_le_length)
  have d12: "drop_bit 12 (V + off) = drop_bit 12 V" using drop [of "V + off"] fr by simp
  have "drop_bit 22 x = drop_bit 10 (drop_bit 12 x)" for x :: u32 by simp
  then have d22: "drop_bit 22 (V + off) = drop_bit 22 V" using d12 by metis
  have "unat ((V + off) AND 0xFFF) = unat off"
    using V assms(3) by (simp add: off_mask unat_page_add page_aligned_iff word_less_nat_alt mod_add_left_eq [symmetric])
  then have "(V + off) AND 0xFFF = off" by (simp add: word_eq_unat_iff)
  moreover have "frame (cr3 st) = cr3 st" "present (pde st (dir_ix V))"
    using assms(1) paging_cr3 by (auto simp: fp_ok_def)
  ultimately show ?thesis
    using assms(2) by (simp add: translate_def d12 d22 Let_def pde_def fpte_def)
qed


lemma window_vwrite:
  assumes "fp_ok V st" "phys st (fpte V st) = p OR 3"
  shows "vwrite st V v = Inr (st\<lparr>phys := (phys st)(frame p := v)\<rparr>)" "vread st V = Inr (phys st (frame p))"
    "vzero_page st V = Inr (st\<lparr>phys := (\<lambda>b. if in_range (frame p) 4096 b then 0 else phys st b)\<rparr>)"
  using window_translate [OF assms, of 0] by (simp_all add: vwrite_def vread_def vzero_page_def)

lemma in_range_frame: "page_aligned p \<Longrightarrow> in_range p 4096 a \<longleftrightarrow> frame a = p"
proof -
  assume p: "page_aligned p"
  have "frame a = p" if "a - p < 4096" using frame_add [OF p that] by simp
  moreover have "a - frame a < 4096"
  proof -
    have "unat (frame a) \<le> unat a" by (simp add: unat_frame)
    then have "unat (a - frame a) = unat a - unat (frame a)" by (rule unat_sub_small)
    also have "\<dots> = unat a mod 4096" by (simp add: unat_frame minus_div_mult_eq_mod)
    finally show ?thesis by (simp add: word_less_nat_alt)
  qed
  ultimately show ?thesis by (auto simp: in_range_def)
qed

lemma mm_lock_unlock:
  assumes "mutex_ready tid (mm_mutex st)"
  obtains m where "mm_lock tid st = Inr (st\<lparr>mm_mutex := m\<rparr>)" "mutex_release m = mm_mutex st"
    "mtx_level (mm_mutex st) \<noteq> 3 \<Longrightarrow> mutex_ready tid m"
proof -
  obtain m where "mutex_acquire tid (mm_mutex st) = Some m" "mutex_release m = mm_mutex st"
    using mutex_ready_acquire(1) [OF assms] by blast
  then show ?thesis using that mutex_ready_acquire(2) [OF assms] by (auto simp: mm_lock_def)
qed

lemma fp_ok_mutex [simp]: "fp_ok V (st\<lparr>mm_mutex := m\<rparr>) = fp_ok V st" "fp_ok V (st\<lparr>first_free_page := f\<rparr>) = fp_ok V st"
  "fp_ok V (st\<lparr>stat_mark := k\<rparr>) = fp_ok V st"
  "fpte V (st\<lparr>mm_mutex := m\<rparr>) = fpte V st" "fpte V (st\<lparr>first_free_page := f\<rparr>) = fpte V st"
  "fpte V (st\<lparr>stat_mark := k\<rparr>) = fpte V st"
  "table_frame (st\<lparr>mm_mutex := m\<rparr>) = table_frame st" "table_frame (st\<lparr>first_free_page := f\<rparr>) = table_frame st"
  "table_frame (st\<lparr>stat_mark := k\<rparr>) = table_frame st"
  by (simp_all add: fp_ok_def fpte_def paging_ok_def pde_def table_frame_def fun_eq_iff)

text \<open>
  Mapping a page at the window and writing to it, when it holds neither the page directory nor
  the window's own page table.
\<close>

definition detached :: "u32 \<Rightarrow> mm_state \<Rightarrow> u32 \<Rightarrow> bool" where
  "detached V st p \<longleftrightarrow> frame p \<noteq> cr3 st \<and> frame p \<noteq> frame (fpte V st)"

lemma not_table_detached: "fp_ok V st \<Longrightarrow> \<not> table_frame st (frame p) \<Longrightarrow> detached V st p"
  using fpte_frame(3) paging_cr3(5) by (auto simp: detached_def fp_ok_def)

lemma window_write:
  assumes ok: "fp_ok V st" and p: "detached V st p"
    and h: "\<forall>a. frame a \<noteq> frame p \<longrightarrow> h a = phys st a"
  shows "fp_ok V (st\<lparr>phys := h\<rparr>) \<and> fpte V (st\<lparr>phys := h\<rparr>) = fpte V st
    \<and> table_frame (st\<lparr>phys := h\<rparr>) = table_frame st"
proof -
  have "phys (st\<lparr>phys := h\<rparr>) a = phys st a" if "frame a = cr3 st" for a
    using that h p by (auto simp: detached_def)
  from fp_ok_same [OF ok _ _ this] show ?thesis by simp
qed

lemma free_effect:
  assumes ok: "fp_ok V st" and p: "detached V st p" and m: "mutex_ready tid (mm_mutex st)"
  shows "mm_free_physical_page V tid st p
    = Inr (st\<lparr>phys := (phys st)(frame p := first_free_page st, fpte V st := 0), first_free_page := p\<rparr>)"
proof -
  obtain m where m: "mm_lock tid st = Inr (st\<lparr>mm_mutex := m\<rparr>)" "mutex_release m = mm_mutex st"
    using mm_lock_unlock [OF m] by blast
  let ?s = "st\<lparr>mm_mutex := m\<rparr>"
  let ?s1 = "?s\<lparr>phys := (phys st)(fpte V st := p OR 3)\<rparr>"
  let ?s2 = "?s1\<lparr>phys := (phys ?s1)(frame p := first_free_page st)\<rparr>"
  have s: "fp_ok V ?s" "fpte V ?s = fpte V st" using ok by simp_all
  have 1: "MAP_TO_FREEPAGE ?s (p OR 3) = Inr ?s1" using MAP_effect [OF s(1)] by simp
  have ok1: "fp_ok V ?s1" "fpte V ?s1 = fpte V st" "table_frame ?s1 = table_frame st"
    using MAP_effect_ok [OF s(1)] by simp_all
  have 2: "vwrite ?s1 V (first_free_page ?s1) = Inr ?s2"
    using window_vwrite(1) [OF ok1(1)] by (simp add: ok1(2))
  have ok2: "fp_ok V ?s2" "fpte V ?s2 = fpte V st"
    using window_write [OF ok1(1), of p "(phys ?s1)(frame p := first_free_page st)"] p ok1 by (auto simp: detached_def)
  have 3: "MAP_TO_FREEPAGE ?s2 0 = Inr (?s2\<lparr>phys := (phys ?s2)(fpte V st := 0)\<rparr>)"
    using MAP_effect [OF ok2(1)] ok2(2) by simp
  have "frame p \<noteq> fpte V st" using p unfolding detached_def by (metis frame_idem)
  then show ?thesis
    unfolding mm_free_physical_page_def m(1) bindE_simps 1 2 3
    by (simp add: mm_unlock_def m(2) fun_upd_twist)
qed

lemma alloc_effect:
  assumes ok: "fp_ok V st" and p: "first_free_page st = p" "p \<noteq> 0" "detached V st p"
    and m: "mutex_ready tid (mm_mutex st)"
  shows "mm_alloc_physical_page V tid zero st
    = Inr (p, st\<lparr>phys := (\<lambda>a. if zero \<and> frame a = frame p then 0 else phys st a)(fpte V st := 0),
                 first_free_page := phys st (frame p)\<rparr>)"
proof -
  obtain m where m: "mm_lock tid st = Inr (st\<lparr>mm_mutex := m\<rparr>)" "mutex_release m = mm_mutex st"
    using mm_lock_unlock [OF m] by blast
  let ?s = "st\<lparr>mm_mutex := m\<rparr>"
  let ?s1 = "?s\<lparr>phys := (phys st)(fpte V st := p OR 3)\<rparr>"
  let ?s2 = "?s1\<lparr>first_free_page := phys st (frame p)\<rparr>"
  let ?z = "\<lambda>h a. if zero \<and> frame a = frame p then 0 else h a :: u32"
  let ?s3 = "?s2\<lparr>phys := ?z (phys ?s2)\<rparr>"
  have s: "fp_ok V ?s" "fpte V ?s = fpte V st" using ok by simp_all
  have 1: "MAP_TO_FREEPAGE ?s (p OR 3) = Inr ?s1" using MAP_effect [OF s(1)] by simp
  have ok1: "fp_ok V ?s1" "fpte V ?s1 = fpte V st" "table_frame ?s1 = table_frame st"
    using MAP_effect_ok [OF s(1)] by simp_all
  have ne: "frame p \<noteq> fpte V st" "frame (fpte V st) \<noteq> frame p" using p(3) unfolding detached_def by (metis frame_idem)+
  have 2: "vread ?s1 V = Inr (phys st (frame p))"
    using window_vwrite(2) [OF ok1(1)] ok1(2) ne by simp
  have ok2: "fp_ok V ?s2" "fpte V ?s2 = fpte V st" "table_frame ?s2 = table_frame st"
    unfolding fp_ok_mutex using ok1 by simp_all
  have 3: "(if zero then vzero_page ?s2 V else Inr ?s2) = Inr ?s3"
    using window_vwrite(3) [OF ok2(1), of p] ok2(2) by (cases zero; cases st) (simp_all add: in_range_frame fun_upd_def cong: if_cong)
  have ok3: "fp_ok V ?s3" "fpte V ?s3 = fpte V st"
    using window_write [OF ok2(1), of p "?z (phys ?s2)"] p ok2 by (auto simp: detached_def)
  have 4: "MAP_TO_FREEPAGE ?s3 0 = Inr (?s3\<lparr>phys := (phys ?s3)(fpte V st := 0)\<rparr>)"
    using MAP_effect [OF ok3(1)] ok3(2) by simp
  have ff: "first_free_page ?s = p" using p(1) by simp
  have eq: "(?z ((phys st)(fpte V st := p OR 3)))(fpte V st := 0) = (?z (phys st))(fpte V st := 0)"
    by (auto simp: fun_eq_iff)
  show ?thesis
    unfolding mm_alloc_physical_page_def m(1) bindE_simps Let_def ff 1 2 3 4 if_P [OF p(2)]
    using eq by (simp add: mm_unlock_def m(2) cong: if_cong)
qed


section \<open>The supply of free pages\<close>

fun free_chain :: "(u32 \<Rightarrow> u32) \<Rightarrow> u32 \<Rightarrow> u32 list \<Rightarrow> bool" where
  "free_chain h p [] \<longleftrightarrow> p = 0"
| "free_chain h p (x # xs) \<longleftrightarrow> p = x \<and> x \<noteq> 0 \<and> page_aligned x \<and> free_chain h (h x) xs"

definition usable :: "mm_state \<Rightarrow> u32 \<Rightarrow> bool" where
  "usable st p \<longleftrightarrow> p \<noteq> 0 \<and> page_aligned p \<and> \<not> table_frame st p"

definition mm_ok :: "u32 \<Rightarrow> u32 \<Rightarrow> mm_state \<Rightarrow> u32 list \<Rightarrow> bool" where
  "mm_ok V tid st ps \<longleftrightarrow>
     fp_ok V st \<and> mutex_ready tid (mm_mutex st)
     \<and> free_chain (phys st) (first_free_page st) ps \<and> distinct ps \<and> (\<forall>p \<in> set ps. \<not> table_frame st p)"

lemma free_chain_cong:
  "free_chain h p xs \<Longrightarrow> (\<And>x. x \<in> set xs \<Longrightarrow> h' x = h x) \<Longrightarrow> free_chain h' p xs"
  by (induction xs arbitrary: p) auto

lemma free_chain_pages: "free_chain h p xs \<Longrightarrow> x \<in> set xs \<Longrightarrow> x \<noteq> 0 \<and> page_aligned x"
  by (induction xs arbitrary: p) auto

lemma mm_ok_usable: "mm_ok V tid st ps \<Longrightarrow> p \<in> set ps \<Longrightarrow> usable st p"
  using free_chain_pages by (auto simp: mm_ok_def usable_def)

lemma usable_detached: "fp_ok V st \<Longrightarrow> usable st p \<Longrightarrow> detached V st p" and usable_frame: "usable st p \<Longrightarrow> frame p = p"
  by (auto simp: usable_def page_aligned_def intro: not_table_detached)

text \<open>A change of memory that spares the directory and the free pages keeps the invariant.\<close>

lemma mm_ok_update:
  assumes ok: "mm_ok V tid st ps" and "cr3 st' = cr3 st" "mm_freepage_pte st' = mm_freepage_pte st"
    and dir: "\<And>a. frame a = cr3 st \<Longrightarrow> phys st' a = phys st a"
    and chain: "free_chain (phys st') (first_free_page st') qs" "distinct qs"
    and qs: "\<And>q. q \<in> set qs \<Longrightarrow> \<not> table_frame st q" and "mm_mutex st' = mm_mutex st"
  shows "mm_ok V tid st' qs" "table_frame st' = table_frame st"
proof -
  have "fp_ok V st" using ok by (simp add: mm_ok_def)
  note same = fp_ok_same [OF this assms(2,3) dir]
  show "mm_ok V tid st' qs" "table_frame st' = table_frame st"
    using ok chain qs same assms(8) by (auto simp: mm_ok_def)
qed

lemma alloc_page:
  assumes "mm_ok V tid st (p # ps)"
  shows "\<exists>st'. mm_alloc_physical_page V tid zero st = Inr (p, st') \<and> mm_ok V tid st' ps
    \<and> table_frame st' = table_frame st \<and> cr3 st' = cr3 st \<and> mm_mutex st' = mm_mutex st
    \<and> phys st' = (\<lambda>a. if zero \<and> frame a = p then 0 else phys st a)(fpte V st := 0)"
proof -
  let ?h = "(\<lambda>a. if zero \<and> frame a = p then 0 else phys st a)(fpte V st := 0)"
  let ?st = "st\<lparr>phys := ?h, first_free_page := phys st p\<rparr>"
  have ok: "fp_ok V st" "mutex_ready tid (mm_mutex st)" "first_free_page st = p" "distinct (p # ps)"
      "free_chain (phys st) (phys st p) ps" "\<And>q. q \<in> set (p # ps) \<Longrightarrow> \<not> table_frame st q"
    using assms by (auto simp: mm_ok_def)
  have us: "usable st q" if "q \<in> set (p # ps)" for q using mm_ok_usable [OF assms that] .
  have fp: "frame p = p" "detached V st p" using us [of p] usable_detached [OF ok(1)] usable_frame by auto
  have "mm_alloc_physical_page V tid zero st = Inr (p, ?st)"
    using alloc_effect [OF ok(1,3) _ fp(2) ok(2), of zero] us [of p] fp(1) by (simp add: usable_def)
  moreover have "?h q = phys st q" if "q \<in> set ps" for q
    using us [of q] us [of p] that ok(4) fpte_frame(3) [OF ok(1)] usable_frame [of st q] by (auto simp: usable_def)
  then have "mm_ok V tid ?st ps" "table_frame ?st = table_frame st"
    using ok(4-6) fp fpte_frame(2) [OF ok(1)]
    by (intro mm_ok_update [OF assms]; auto simp: detached_def intro: free_chain_cong [OF ok(5)])+
  ultimately show ?thesis by auto
qed


lemma alloc_none:
  assumes "mm_ok V tid st []"
  shows "mm_alloc_physical_page V tid zero st = Inr (0, st)"
proof -
  have ok: "mutex_ready tid (mm_mutex st)" "first_free_page st = 0" using assms by (simp_all add: mm_ok_def)
  obtain m where m: "mm_lock tid st = Inr (st\<lparr>mm_mutex := m\<rparr>)" "mutex_release m = mm_mutex st"
    using mm_lock_unlock [OF ok(1)] by blast
  have "first_free_page (st\<lparr>mm_mutex := m\<rparr>) = 0" using ok(2) by simp
  then show ?thesis by (simp add: mm_alloc_physical_page_def m mm_unlock_def)
qed

lemma free_page:
  assumes "mm_ok V tid st ps" "usable st p" "p \<notin> set ps"
  shows "\<exists>st'. mm_free_physical_page V tid st p = Inr st' \<and> mm_ok V tid st' (p # ps)
    \<and> table_frame st' = table_frame st \<and> cr3 st' = cr3 st \<and> mm_mutex st' = mm_mutex st
    \<and> phys st' = (phys st)(p := first_free_page st, fpte V st := 0)"
proof -
  let ?h = "(phys st)(p := first_free_page st, fpte V st := 0)"
  let ?st = "st\<lparr>phys := ?h, first_free_page := p\<rparr>"
  have ok: "fp_ok V st" "mutex_ready tid (mm_mutex st)" "distinct ps"
      "free_chain (phys st) (first_free_page st) ps" "\<And>q. q \<in> set ps \<Longrightarrow> \<not> table_frame st q"
    using assms(1) by (auto simp: mm_ok_def)
  have fp: "frame p = p" "detached V st p" using assms(2) usable_detached [OF ok(1)] usable_frame by auto
  have ne: "q \<noteq> fpte V st" if "usable st q" for q
    using that fpte_frame(3) [OF ok(1)] usable_frame [OF that] by (auto simp: usable_def)
  have "mm_free_physical_page V tid st p = Inr ?st"
    using free_effect [OF ok(1) fp(2) ok(2)] fp(1) by simp
  moreover have "free_chain ?h (?h p) ps"
    using ne [OF assms(2)] assms(3) ne [OF mm_ok_usable [OF assms(1)]] 
    by (simp, intro free_chain_cong [OF ok(4)]) auto
  then have "mm_ok V tid ?st (p # ps)" "table_frame ?st = table_frame st"
    using ok assms(2,3) fp fpte_frame(2) [OF ok(1)]
    by (intro mm_ok_update [OF assms(1), where qs = "p # ps"]; auto simp: detached_def usable_def)+
  ultimately show ?thesis by auto
qed

text \<open>
  What the clients of the page allocator rely on. \<open>inv s ps\<close> says that \<open>ps\<close> are the free pages in
  the order in which they will be handed out; a page that is \<open>usable\<close> may be given back.
\<close>

locale page_supply =
  fixes inv :: "'s \<Rightarrow> 'p list \<Rightarrow> bool"
    and usable :: "'s \<Rightarrow> 'p \<Rightarrow> bool"
    and null :: 'p
    and alloc :: "'s \<Rightarrow> ('p \<times> 's) result"
    and free :: "'s \<Rightarrow> 'p \<Rightarrow> 's result"
  assumes pages_distinct: "inv s ps \<Longrightarrow> distinct ps"
    and pages_usable: "inv s ps \<Longrightarrow> p \<in> set ps \<Longrightarrow> usable s p"
    and usable_nonnull: "usable s p \<Longrightarrow> p \<noteq> null"
    and alloc_empty: "inv s [] \<Longrightarrow> alloc s = Inr (null, s)"
    and alloc_next: "inv s (p # ps) \<Longrightarrow>
      \<exists>s'. alloc s = Inr (p, s') \<and> inv s' ps \<and> usable s' = usable s"
    and free_push: "inv s ps \<Longrightarrow> usable s p \<Longrightarrow> p \<notin> set ps \<Longrightarrow>
      \<exists>s'. free s p = Inr s' \<and> inv s' (p # ps) \<and> usable s' = usable s"
begin

lemma alloc_free_roundtrip:
  assumes "inv s (p # ps)"
  shows "\<exists>s1 s2. alloc s = Inr (p, s1) \<and> inv s1 ps \<and> free s1 p = Inr s2 \<and> inv s2 (p # ps)"
proof -
  obtain s1 where s1: "alloc s = Inr (p, s1)" "inv s1 ps" "usable s1 = usable s"
    using alloc_next [OF assms] by blast
  then show ?thesis
    using free_push [OF s1(2), of p] pages_distinct [OF assms] pages_usable [OF assms] by auto
qed

text \<open>Giving back pages one by one, the last one first in the list.\<close>

lemma free_all:
  assumes "inv s ps" "distinct (qs @ ps)" "\<And>q. q \<in> set qs \<Longrightarrow> usable s q"
  shows "\<exists>s'. foldl (\<lambda>r q. bindE r (\<lambda>s. free s q)) (Inr s) qs = Inr s' \<and> inv s' (rev qs @ ps)
    \<and> usable s' = usable s"
  using assms
proof (induction qs arbitrary: s ps)
  case (Cons q qs)
  then obtain s1 where s1: "free s q = Inr s1" "inv s1 (q # ps)" "usable s1 = usable s"
    using free_push [of s ps q] by auto
  then show ?case using Cons.IH [of s1 "q # ps"] Cons.prems by auto
qed simp

end

interpretation pages: page_supply "mm_ok V tid" usable 0 "mm_alloc_physical_page V tid zero" "mm_free_physical_page V tid"
  for V tid zero
proof (unfold_locales, goal_cases)
  case (2 s ps p)
  then show ?case by (rule mm_ok_usable)
next
  case (4 s)
  then show ?case by (rule alloc_none)
next
  case (5 s p ps)
  then show ?case using alloc_page [of V tid s p ps zero] by (fastforce simp: usable_def fun_eq_iff)
next
  case (6 s ps p)
  then show ?case using free_page [of V tid s ps p] by (fastforce simp: usable_def fun_eq_iff)
qed (simp_all add: mm_ok_def usable_def)


end
