(* ===== verification/PageTables.thy ===== *)
theory PageTables
  imports Paging
begin

text \<open>
  What the page allocator does to the address space: mapping and unmapping pages (with the
  page tables that appear and disappear), the construction of the free list from the memory map
  of the boot loader, and new page directories. The operations are those of theory \<open>Paging\<close>.
\<close>

section \<open>Mapping a page\<close>

lemma translate_mutex [simp]: "translate (st\<lparr>mm_mutex := m\<rparr>) = translate st" "pde (st\<lparr>mm_mutex := m\<rparr>) = pde st"
  by (simp_all add: translate_def pde_def fun_eq_iff Let_def)

lemma translate_eq:
  assumes "paging_ok st"
  shows "translate st va =
    (if present (pde st (dir_ix va)) \<and> present (pte st (dir_ix va) (tab_ix va))
     then Inr (frame (pte st (dir_ix va) (tab_ix va)) + (va AND 0xFFF)) else Inl (BadAccess va))"
  using paging_cr3(2) [OF assms] by (simp add: translate_def pde_def pte_def Let_def)

lemma same_page_ix: "dir_ix a = dir_ix b \<Longrightarrow> tab_ix a = tab_ix b \<Longrightarrow> frame a = frame b"
proof -
  assume eq: "dir_ix a = dir_ix b" "tab_ix a = tab_ix b"
  have "unat x div 4096 = 1024 * unat (dir_ix x) + unat (tab_ix x)" for x :: u32
  proof -
    have "unat x div 4194304 = unat x div 4096 div 1024" using div_mult2_eq [of "unat x" 4096 1024] by simp
    then show ?thesis by (simp add: unat_drop_bit_div off_mask)
  qed
  then have "unat a div 4096 = unat b div 4096" by (simp add: eq)
  then show ?thesis by (simp add: word_eq_unat_iff unat_frame)
qed

lemma frame_page_ix: "frame a = frame b \<Longrightarrow> dir_ix a = dir_ix b" "frame a = frame b \<Longrightarrow> tab_ix a = tab_ix b"
proof -
  have drop: "drop_bit 12 (frame x) = drop_bit 12 x" for x
    by (simp add: frame_drop bit_eq_iff bit_simps) (auto dest: bit_imp_le_length)
  assume "frame a = frame b"
  then have d: "drop_bit 12 a = drop_bit 12 b" using drop by metis
  have "drop_bit 22 x = drop_bit 10 (drop_bit 12 x)" for x :: u32 by simp
  with d show "dir_ix a = dir_ix b" by metis
  from d show "tab_ix a = tab_ix b" by simp
qed

text \<open>Writing one entry of a page table other than the directory.\<close>

lemma pte_write:
  fixes v :: u32
  assumes ok: "paging_ok st" and i: "i < 1024" "i \<noteq> 1023" "present (pde st i)" and j: "j < 1024"
  defines "st' \<equiv> st\<lparr>phys := (phys st)(frame (pde st i) + 4 * j := v)\<rparr>"
  shows "paging_ok st'" "k < 1024 \<Longrightarrow> pde st' k = pde st k" "table_frame st' = table_frame st"
    "k < 1024 \<Longrightarrow> present (pde st k) \<Longrightarrow> l < 1024 \<Longrightarrow> pte st' k l = (if k = i \<and> l = j then v else pte st k l)"
proof -
  have fr: "frame (frame (pde st i) + 4 * j) = frame (pde st i)" using j by (simp add: table_entry_frame)
  have dir: "phys st' a = phys st a" if "frame a = cr3 st" for a
    using that fr table_not_cr3 [OF ok i(1,3,2)] by (auto simp: st'_def)
  have "cr3 st' = cr3 st" by (simp add: st'_def)
  note same = same_directory [OF ok this dir]
  show "paging_ok st'" "k < 1024 \<Longrightarrow> pde st' k = pde st k" "table_frame st' = table_frame st"
    using same by simp_all
  assume k: "k < 1024" "present (pde st k)" "l < 1024"
  have "frame (pde st k) + 4 * l = frame (pde st i) + 4 * j \<longleftrightarrow> k = i \<and> l = j"
  proof
    assume eq: "frame (pde st k) + 4 * l = frame (pde st i) + 4 * j"
    then have "frame (pde st k) = frame (pde st i)"
      using table_entry_frame [of "frame (pde st k)" l] k(3) fr by simp
    then have "k = i" using ok k i by (auto simp: paging_ok_def inj_on_def)
    with eq j k(3) show "k = i \<and> l = j" by (simp add: index_inj)
  qed simp
  then show "pte st' k l = (if k = i \<and> l = j then v else pte st k l)"
    using same(1) k(1) by (simp add: pte_def st'_def)
qed

lemma map_present:
  assumes ok: "paging_ok st" "mutex_ready tid (mm_mutex st)" and "p \<noteq> 0" "va \<noteq> 0" "present (pde st (dir_ix va))"
  shows "mm_map_page V tid st p va =
    (if pte st (dir_ix va) (tab_ix va) = 0
     then Inr (0, st\<lparr>phys := (phys st)(frame (pde st (dir_ix va)) + 4 * tab_ix va := p OR 3)\<rparr>)
     else Inr (- 1, st))"
proof -
  obtain m where m: "mm_lock tid st = Inr (st\<lparr>mm_mutex := m\<rparr>)" "mutex_release m = mm_mutex st"
    using mm_lock_unlock [OF ok(2)] by blast
  have "vread st (kernel_page_dir + 4 * dir_ix va) = Inr (pde st (dir_ix va))"
    using translate_dir [OF ok(1) ix_less(1)] by (simp add: vread_def pde_def)
  moreover have "vread st (page_table_of (dir_ix va) + 4 * tab_ix va) = Inr (pte st (dir_ix va) (tab_ix va))"
    using translate_table [OF ok(1) ix_less assms(5)] by (simp add: vread_def pte_def)
  moreover have "pde st (dir_ix va) AND 1 \<noteq> 0" using assms(5) by (simp add: present_def)
  moreover have "vread (st\<lparr>mm_mutex := m\<rparr>) = vread st" by (simp add: vread_def fun_eq_iff)
  ultimately show ?thesis
    using assms(3,4) translate_table [OF ok(1) ix_less assms(5)]
    by (simp add: mm_map_page_def Let_def pageindex m(1) vwrite_def mm_unlock_def m(2))
qed


text \<open>Entering a new page table in the directory.\<close>

lemma new_table:
  assumes ok: "paging_ok st" and i: "i < 1024" "\<not> present (pde st i)" and q: "usable st q"
  defines "st' \<equiv> st\<lparr>phys := (phys st)(cr3 st + 4 * i := q OR 3)\<rparr>"
  shows "paging_ok st'" "k < 1024 \<Longrightarrow> pde st' k = (if k = i then q OR 3 else pde st k)"
    "table_frame st' f \<longleftrightarrow> table_frame st f \<or> f = q"
proof -
  have pde': "pde st' k = (if k = i then q OR 3 else pde st k)" if "k < 1024" for k
    using that i(1) by (simp add: pde_def st'_def index_inj)
  then show "k < 1024 \<Longrightarrow> pde st' k = (if k = i then q OR 3 else pde st k)" .
  have fq: "frame q = q" "\<not> table_frame st q" using q usable_frame by (auto simp: usable_def)
  have dom: "{k. k < 1024 \<and> present (pde st' k)} = insert i {k. k < 1024 \<and> present (pde st k)}"
    using pde' i by auto
  show "table_frame st' f \<longleftrightarrow> table_frame st f \<or> f = q"
    using pde' fq(1) i unfolding table_frame_def by (metis (mono_tags, lifting) frame_or_3 present_or_3)
  have "(1023 :: u32) < 1024" by (simp add: word_less_nat_alt)
  moreover have "i \<noteq> 1023" using i(2) paging_cr3(4) [OF ok] by auto
  moreover have "inj_on (\<lambda>k. frame (pde st' k)) {k. k < 1024 \<and> present (pde st' k)}"
  proof (rule inj_onI)
    fix k l assume kl: "k \<in> {k. k < 1024 \<and> present (pde st' k)}" "l \<in> {k. k < 1024 \<and> present (pde st' k)}"
      "frame (pde st' k) = frame (pde st' l)"
    have old: "frame (pde st k') \<noteq> q" if "k' < 1024" "present (pde st k')" for k'
      using that fq(2) by (auto simp: table_frame_def)
    show "k = l"
      using kl old pde' fq(1) ok by (auto simp: paging_ok_def inj_on_def split: if_splits)
  qed
  ultimately show "paging_ok st'" using ok pde' by (auto simp: paging_ok_def st'_def)
qed

lemma map_absent:
  assumes mm: "mm_ok V tid st (q # qs)" and lock: "mtx_lock (mm_mutex st) = 0"
    and "p \<noteq> 0" "va \<noteq> 0" and absent: "\<not> present (pde st (dir_ix va))"
  defines "s1 \<equiv> st\<lparr>phys := (\<lambda>a. if frame a = q then 0 else phys st a)(fpte V st := 0),
    first_free_page := phys st q\<rparr>"
  defines "s2 \<equiv> s1\<lparr>phys := (phys s1)(cr3 st + 4 * dir_ix va := q OR 3)\<rparr>"
  defines "s3 \<equiv> s2\<lparr>phys := (phys s2)(q + 4 * tab_ix va := p OR 3)\<rparr>"
  shows "mm_map_page V tid st p va = Inr (0, s3)" and "mm_ok V tid s1 qs" and "paging_ok s2"
    and "usable s1 q" and "\<not> present (pde s1 (dir_ix va))" and "\<And>k. k < 1024 \<Longrightarrow> pde s1 k = pde st k"
proof -
  have ok: "fp_ok V st" "paging_ok st" "mutex_ready tid (mm_mutex st)" using mm by (simp_all add: mm_ok_def fp_ok_def)
  have "mtx_level (mm_mutex st) \<noteq> 3" using ok(3) lock by (auto simp: mutex_ready_def)
  then obtain m where m: "mm_lock tid st = Inr (st\<lparr>mm_mutex := m\<rparr>)" "mutex_release m = mm_mutex st" "mutex_ready tid m"
    using mm_lock_unlock [OF ok(3)] by blast
  have us: "usable st q" "first_free_page st = q" "frame q = q" using mm_ok_usable [OF mm] mm usable_frame by (auto simp: mm_ok_def)
  have det: "detached V st q" using usable_detached [OF ok(1) us(1)] .
  obtain s where s: "mm_alloc_physical_page V tid True st = Inr (q, s)" "mm_ok V tid s qs" "table_frame s = table_frame st"
    using alloc_page [OF mm, of True] by blast
  have "mm_alloc_physical_page V tid True st = Inr (q, s1)"
    using alloc_effect [OF ok(1) us(2) _ det ok(3), of True] us by (simp add: s1_def usable_def)
  with s have s1: "mm_ok V tid s1 qs" "table_frame s1 = table_frame st" by simp_all
  then show "mm_ok V tid s1 qs" by simp
  show us1: "usable s1 q" using us(1) s1(2) by (simp add: usable_def)
  have dir1: "phys s1 a = phys st a" if "frame a = cr3 st" for a
    using that det fpte_frame(2) [OF ok(1)] us(3) by (auto simp: s1_def detached_def)
  have c1: "cr3 s1 = cr3 st" by (simp add: s1_def)
  show pde1: "pde s1 k = pde st k" if "k < 1024" for k using same_directory(1) [OF ok(2) c1] dir1 that by blast
  then show absent1: "\<not> present (pde s1 (dir_ix va))" using absent ix_less by simp
  have pg1: "paging_ok s1" using s1 by (simp add: mm_ok_def fp_ok_def)
  note nt = new_table [OF pg1 ix_less(1) absent1 us1, unfolded c1, folded s2_def]
  show "paging_ok s2" by (rule nt(1))
  have mutex: "mm_alloc_physical_page V tid True (st\<lparr>mm_mutex := m\<rparr>) = Inr (q, s1\<lparr>mm_mutex := m\<rparr>)"
    using alloc_effect [of V "st\<lparr>mm_mutex := m\<rparr>" q tid True] ok(1) us det m(3)
    by (simp add: s1_def usable_def detached_def cong: if_cong)
  have v1: "vread (st\<lparr>mm_mutex := m\<rparr>) (kernel_page_dir + 4 * dir_ix va) = Inr (pde st (dir_ix va))"
    using translate_dir [OF ok(2) ix_less(1)] by (simp add: vread_def pde_def)
  have v2: "vwrite (s1\<lparr>mm_mutex := m\<rparr>) (kernel_page_dir + 4 * dir_ix va) (q OR 3) = Inr (s2\<lparr>mm_mutex := m\<rparr>)"
    using translate_dir [OF pg1 ix_less(1)] by (simp add: vwrite_def s2_def c1)
  have "pde s2 (dir_ix va) = q OR 3" using nt(2) ix_less by simp
  then have v3: "vwrite (s2\<lparr>mm_mutex := m\<rparr>) (page_table_of (dir_ix va) + 4 * tab_ix va) (p OR 3) = Inr (s3\<lparr>mm_mutex := m\<rparr>)"
    using translate_table [OF nt(1) ix_less, of va va] us(3) by (simp add: vwrite_def s3_def)
  have "mm_mutex s3 = mm_mutex st" by (simp add: s3_def s2_def s1_def)
  then have "mm_unlock (s3\<lparr>mm_mutex := m\<rparr>) = s3" by (simp add: mm_unlock_def m(2))
  then show "mm_map_page V tid st p va = Inr (0, s3)"
    using assms(3,4) absent v1 v2 v3 mutex by (simp add: mm_map_page_def Let_def pageindex m(1) present_def)
qed


lemma map_absent_result:
  assumes mm: "mm_ok V tid st (q # qs)" and lock: "mtx_lock (mm_mutex st) = 0"
    and p: "p \<noteq> 0" "va \<noteq> 0" and absent: "\<not> present (pde st (dir_ix va))"
  shows "\<exists>st'. mm_map_page V tid st p va = Inr (0, st') \<and> mm_ok V tid st' qs \<and> paging_ok st' \<and> mm_mutex st' = mm_mutex st
    \<and> (\<forall>k < 1024. pde st' k = (if k = dir_ix va then q OR 3 else pde st k))
    \<and> (\<forall>k < 1024. \<forall>l < 1024. present (pde st k) \<longrightarrow> k \<noteq> 1023 \<longrightarrow>
        pte st' k l = (if k = dir_ix V \<and> l = tab_ix V then 0 else pte st k l))
    \<and> (\<forall>l < 1024. pte st' (dir_ix va) l = (if l = tab_ix va then p OR 3 else 0))"
proof -
  define s1 where "s1 = st\<lparr>phys := (\<lambda>a. if frame a = q then 0 else phys st a)(fpte V st := 0),
    first_free_page := phys st q\<rparr>"
  define s2 where "s2 = s1\<lparr>phys := (phys s1)(cr3 st + 4 * dir_ix va := q OR 3)\<rparr>"
  define s3 where "s3 = s2\<lparr>phys := (phys s2)(q + 4 * tab_ix va := p OR 3)\<rparr>"
  note m = map_absent [OF assms, folded s1_def, folded s2_def, folded s3_def]
  let ?i = "dir_ix va"
  have ok: "fp_ok V st" "paging_ok st" and ok1: "fp_ok V s1" "paging_ok s1"
    using mm m(2) by (simp_all add: mm_ok_def fp_ok_def)
  have c1: "cr3 s1 = cr3 st" by (simp add: s1_def)
  note nt = new_table [OF ok1(2) ix_less(1) m(5) m(4), unfolded c1, folded s2_def]
  have q: "frame q = q" "q \<noteq> cr3 st" "\<not> table_frame st q"
    using mm_ok_usable [OF mm] usable_frame paging_cr3(5) [OF ok(2)] by (auto simp: usable_def)
  have i: "?i \<noteq> 1023" using absent paging_cr3(4) [OF ok(2)] by auto
  have pdi: "pde s2 ?i = q OR 3" using nt(2) ix_less by simp
  note w = pte_write [OF nt(1) ix_less(1) i _ ix_less(2) [of va], where v = "p OR 3", unfolded pdi frame_or_3 q(1),
      folded s3_def, OF present_or_3]
  have pde3: "pde s3 k = (if k = ?i then q OR 3 else pde st k)" if "k < 1024" for k
    using w(2) nt(2) m(6) that by simp
  have fr: "frame (cr3 st + 4 * ?i) = cr3 st" using paging_cr3(1) [OF ok(2)] ix_less by (simp add: table_entry_frame)
  have s2: "phys s2 a = (if frame a = q \<or> a = fpte V st then 0 else phys st a)" if "frame a \<noteq> cr3 st" for a
    using that fr by (auto simp: s2_def s1_def)
  have old: "pte s3 k l = (if k = dir_ix V \<and> l = tab_ix V then 0 else pte st k l)"
    if "k < 1024" "l < 1024" "present (pde st k)" "k \<noteq> 1023" for k l
  proof -
    have k: "k \<noteq> ?i" using absent that(3) by auto
    have f: "frame (frame (pde st k) + 4 * l) = frame (pde st k)" using that by (simp add: table_entry_frame)
    have "frame (pde st k) \<noteq> cr3 st" "frame (pde st k) \<noteq> q"
      using table_not_cr3 [OF ok(2) that(1,3,4)] q(3) that by (auto simp: table_frame_def)
    moreover have "frame (pde st k) + 4 * l = fpte V st \<longleftrightarrow> k = dir_ix V \<and> l = tab_ix V"
    proof
      assume eq: "frame (pde st k) + 4 * l = fpte V st"
      then have "frame (pde st k) = frame (pde st (dir_ix V))" using f fpte_frame(1) [OF ok(1)] by simp
      then have "k = dir_ix V" using ok that ix_less by (auto simp: fp_ok_def paging_ok_def inj_on_def)
      with eq that ix_less show "k = dir_ix V \<and> l = tab_ix V" by (simp add: fpte_def index_inj)
    qed (simp add: fpte_def)
    moreover have "pte s3 k l = phys s2 (frame (pde st k) + 4 * l)"
      using w(4) [OF that(1) _ that(2)] k nt(2) [OF that(1)] m(6) [OF that(1)] that(3) by (simp add: pte_def)
    ultimately show ?thesis using s2 f by (simp add: pte_def)
  qed
  have new: "pte s3 ?i l = (if l = tab_ix va then p OR 3 else 0)" if "l < 1024" for l
  proof -
    have "frame (q + 4 * l) = q" using q(1) that by (simp add: table_entry_frame page_aligned_def)
    then have "pte s2 ?i l = 0" using s2 q pdi by (simp add: pte_def)
    then show ?thesis using w(4) [OF ix_less(1) _ that, of va] pdi by simp
  qed
  have "mm_ok V tid s3 qs"
  proof -
    have "free_chain (phys s3) (first_free_page s3) qs"
    proof -
      have "phys s3 x = phys s1 x" if "x \<in> set qs" for x
      proof -
        have "usable s1 x" using mm_ok_usable [OF m(2) that] .
        then have "frame x = x" "x \<noteq> cr3 st" using usable_frame paging_cr3(5) [OF ok1(2)] c1 by (auto simp: usable_def)
        moreover have "x \<noteq> q" using mm that by (auto simp: mm_ok_def)
        moreover have "frame (q + 4 * tab_ix va) = q" using q(1) ix_less by (simp add: table_entry_frame page_aligned_def)
        ultimately show ?thesis using fr by (auto simp: s3_def s2_def)
      qed
      moreover have "free_chain (phys s1) (first_free_page s1) qs" using m(2) by (simp add: mm_ok_def)
      moreover have "first_free_page s3 = first_free_page s1" by (simp add: s3_def s2_def)
      ultimately show ?thesis using free_chain_cong by metis
    qed
    moreover have "fp_ok V s3"
      using ok1(1) w(1) pde3 ix_less absent m(6)
      by (auto simp: fp_ok_def s3_def s2_def)
    moreover have "\<not> table_frame s3 x" if "x \<in> set qs" for x
      using that m(2) mm nt(3) w(3) by (auto simp: mm_ok_def)
    ultimately show ?thesis using m(2) by (auto simp: mm_ok_def s3_def s2_def)
  qed
  moreover have "mm_mutex s3 = mm_mutex st" by (simp add: s3_def s2_def s1_def)
  ultimately show ?thesis using m(1) w(1) pde3 old new by blast
qed

text \<open>A virtual page that no page table entry has ever been written for.\<close>

definition va_unused :: "mm_state \<Rightarrow> u32 \<Rightarrow> bool" where
  "va_unused st va \<longleftrightarrow> (present (pde st (dir_ix va)) \<longrightarrow> pte st (dir_ix va) (tab_ix va) = 0)"

lemma map_page_step:
  assumes ok: "mm_ok V tid st ps" "mtx_lock (mm_mutex st) = 0" and p: "p \<noteq> 0" "va \<noteq> 0"
    and va: "dir_ix va \<noteq> 1023" "frame va \<noteq> V"
    and free: "va_unused st va"
      "\<not> present (pde st (dir_ix va)) \<Longrightarrow> ps \<noteq> []"
  shows "\<exists>st'. mm_map_page V tid st p va = Inr (0, st')
    \<and> mm_ok V tid st' (if present (pde st (dir_ix va)) then ps else tl ps)
    \<and> translate st' va = Inr (frame p + (va AND 0xFFF))
    \<and> (\<forall>va'. dir_ix va' \<noteq> 1023 \<longrightarrow> frame va' \<noteq> frame va \<longrightarrow> frame va' \<noteq> V \<longrightarrow> translate st' va' = translate st va')
    \<and> mm_mutex st' = mm_mutex st
    \<and> (\<forall>va'. dir_ix va' \<noteq> 1023 \<longrightarrow> frame va' \<noteq> frame va \<longrightarrow> va_unused st va' \<longrightarrow> va_unused st' va')
    \<and> (\<forall>f. table_frame st' f \<longrightarrow> table_frame st f \<or> f \<in> set ps)"
proof (cases "present (pde st (dir_ix va))")
  case True
  let ?st = "st\<lparr>phys := (phys st)(frame (pde st (dir_ix va)) + 4 * tab_ix va := p OR 3)\<rparr>"
  have pg: "paging_ok st" "mutex_ready tid (mm_mutex st)" using ok by (simp_all add: mm_ok_def fp_ok_def)
  note w = pte_write [OF pg(1) ix_less(1) va(1) True ix_less(2) [of va], where v = "p OR 3"]
  have "mm_map_page V tid st p va = Inr (0, ?st)"
    using map_present [OF pg p True] free(1) True by (simp add: va_unused_def)
  moreover have "mm_ok V tid ?st ps"
  proof -
    have fr: "frame (frame (pde st (dir_ix va)) + 4 * tab_ix va) = frame (pde st (dir_ix va))"
      using ix_less by (simp add: table_entry_frame)
    have t: "table_frame st (frame (pde st (dir_ix va)))" using True ix_less by (auto simp: table_frame_def)
    have "q \<noteq> frame (pde st (dir_ix va)) + 4 * tab_ix va" if "q \<in> set ps" for q
      using mm_ok_usable [OF ok(1) that] fr t usable_frame [of st q] by (auto simp: usable_def)
    then show ?thesis
      using ok(1) table_not_cr3 [OF pg(1) ix_less(1) True va(1)] fr
      by (intro mm_ok_update(1) [OF ok(1)]) (auto simp: mm_ok_def intro: free_chain_cong)
  qed
  moreover have "translate ?st va = Inr (frame p + (va AND 0xFFF))"
    using True w ix_less by (simp add: translate_eq [OF w(1)])
  moreover have "translate ?st va' = translate st va'" if "dir_ix va' \<noteq> 1023" "frame va' \<noteq> frame va" for va'
  proof -
    have "\<not> (dir_ix va' = dir_ix va \<and> tab_ix va' = tab_ix va)" using same_page_ix that(2) by blast
    then show ?thesis
      unfolding translate_eq [OF w(1)] translate_eq [OF pg(1)] using w(2,4) ix_less
      by (cases "present (pde st (dir_ix va'))") auto
  qed
  moreover have "va_unused ?st va'" if "frame va' \<noteq> frame va" "va_unused st va'" for va'
  proof -
    have "\<not> (dir_ix va' = dir_ix va \<and> tab_ix va' = tab_ix va)" using same_page_ix that(1) by blast
    then show ?thesis using w(2,4) ix_less that(2) unfolding va_unused_def
      by (cases "present (pde st (dir_ix va'))") auto
  qed
  ultimately show ?thesis using True w(3) by auto
next
  case False
  then obtain q qs where ps: "ps = q # qs" using free(2) by (cases ps) auto
  have ok': "mm_ok V tid st (q # qs)" using ok ps by simp
  note m = map_absent_result [OF ok' ok(2) p False]
  then obtain st' where st': "mm_map_page V tid st p va = Inr (0, st')" "mm_ok V tid st' qs" "paging_ok st'" "mm_mutex st' = mm_mutex st"
      "\<And>k. k < 1024 \<Longrightarrow> pde st' k = (if k = dir_ix va then q OR 3 else pde st k)"
      "\<And>k l. k < 1024 \<Longrightarrow> present (pde st k) \<Longrightarrow> k \<noteq> 1023 \<Longrightarrow> l < 1024 \<Longrightarrow>
        pte st' k l = (if k = dir_ix V \<and> l = tab_ix V then 0 else pte st k l)"
      "\<And>l. l < 1024 \<Longrightarrow> pte st' (dir_ix va) l = (if l = tab_ix va then p OR 3 else 0)"
    by blast
  have pg: "paging_ok st" "page_aligned V" using ok by (simp_all add: mm_ok_def fp_ok_def)
  have "translate st' va = Inr (frame p + (va AND 0xFFF))"
    using st'(5,7) ix_less by (simp add: translate_eq [OF st'(3)])
  moreover have "translate st' va' = translate st va'"
    if va': "dir_ix va' \<noteq> 1023" "frame va' \<noteq> frame va" "frame va' \<noteq> V" for va'
  proof (cases "dir_ix va' = dir_ix va")
    case True
    then have "tab_ix va' \<noteq> tab_ix va" using same_page_ix va'(2) by blast
    then show ?thesis
      unfolding translate_eq [OF pg(1)] translate_eq [OF st'(3)]
      using st'(7) ix_less True False by (simp add: present_def)
  next
    case other: False
    have "\<not> (dir_ix va' = dir_ix V \<and> tab_ix va' = tab_ix V)"
      using same_page_ix [of va' V] va'(3) pg(2) by (auto simp: page_aligned_def)
    then show ?thesis
      unfolding translate_eq [OF pg(1)] translate_eq [OF st'(3)]
      using st'(5,6) ix_less va'(1) other by (cases "present (pde st (dir_ix va'))") auto
  qed
  moreover have "va_unused st' va'" if "dir_ix va' \<noteq> 1023" "frame va' \<noteq> frame va" "va_unused st va'" for va'
  proof (cases "dir_ix va' = dir_ix va")
    case True
    then have "tab_ix va' \<noteq> tab_ix va" using same_page_ix that(2) by blast
    then show ?thesis unfolding va_unused_def using st'(7) ix_less True by simp
  next
    case other: False
    then show ?thesis unfolding va_unused_def using st'(5,6) ix_less that(1,3)
      by (cases "present (pde st (dir_ix va'))") (auto simp: va_unused_def)
  qed
  moreover have "table_frame st f \<or> f \<in> set ps" if "table_frame st' f" for f
    using that mm_ok_usable [OF ok', of q] usable_frame [of st q] unfolding table_frame_def ps
    by (auto simp: st'(5) split: if_splits)
  ultimately show ?thesis using False st'(1,2,4) ps by auto
qed

lemma alloc_entries:
  assumes mm: "mm_ok V tid st (p # ps)" and alloc: "mm_alloc_physical_page V tid zero st = Inr (q, st')"
  shows "k < 1024 \<Longrightarrow> pde st' k = pde st k" "paging_ok st'"
    "k < 1024 \<Longrightarrow> l < 1024 \<Longrightarrow> present (pde st k) \<Longrightarrow>
      pte st' k l = (if k = dir_ix V \<and> l = tab_ix V then 0 else pte st k l)"
proof -
  obtain s where s: "mm_alloc_physical_page V tid zero st = Inr (p, s)" "cr3 s = cr3 st" "mm_ok V tid s ps"
      "phys s = (\<lambda>a. if zero \<and> frame a = p then 0 else phys st a)(fpte V st := 0)"
    using alloc_page [OF mm, of zero] by blast
  have st': "st' = s" using s(1) alloc by simp
  have ok: "fp_ok V st" "paging_ok st" using mm by (simp_all add: mm_ok_def fp_ok_def)
  show "paging_ok st'" using s(3) st' by (simp add: mm_ok_def fp_ok_def)
  have p: "\<not> table_frame st p" "frame p = p" using mm_ok_usable [OF mm] usable_frame by (auto simp: usable_def)
  have "phys s a = phys st a" if "frame a = cr3 st" for a
    using that fpte_frame(2) [OF ok(1)] p(1) paging_cr3(5) [OF ok(2)] by (auto simp: s(4))
  then have pd: "pde s k = pde st k" if "k < 1024" for k
    using same_directory(1) [OF ok(2) s(2)] that by blast
  then show "k < 1024 \<Longrightarrow> pde st' k = pde st k" by (simp add: st')
  assume kl: "k < 1024" "l < 1024" "present (pde st k)"
  let ?a = "frame (pde st k) + 4 * l"
  have fr: "frame ?a = frame (pde st k)" using kl by (simp add: table_entry_frame)
  moreover have "table_frame st (frame (pde st k))" using kl by (auto simp: table_frame_def)
  ultimately have np: "frame ?a \<noteq> p" using p(1) by auto
  have "?a = fpte V st \<longleftrightarrow> k = dir_ix V \<and> l = tab_ix V"
  proof
    assume eq: "?a = fpte V st"
    then have "frame (pde st k) = frame (pde st (dir_ix V))" using fr fpte_frame(1) [OF ok(1)] by simp
    then have "k = dir_ix V" using ok kl ix_less by (auto simp: fp_ok_def paging_ok_def inj_on_def)
    with eq kl ix_less show "k = dir_ix V \<and> l = tab_ix V" by (simp add: fpte_def index_inj)
  qed (simp add: fpte_def)
  then show "pte st' k l = (if k = dir_ix V \<and> l = tab_ix V then 0 else pte st k l)"
    using np pd [OF kl(1)] by (simp add: pte_def st' s(4))
qed

lemma alloc_unused:
  assumes mm: "mm_ok V tid st (p # ps)" and va: "va_unused st va" "dir_ix va \<noteq> 1023"
    and alloc: "mm_alloc_physical_page V tid zero st = Inr (q, st')"
  shows "va_unused st' va"
  using va(1) alloc_entries [OF mm alloc] ix_less unfolding va_unused_def by simp

lemma alloc_translate:
  assumes mm: "mm_ok V tid st (p # ps)" and va: "frame va \<noteq> V"
    and alloc: "mm_alloc_physical_page V tid zero st = Inr (q, st')"
  shows "translate st' va = translate st va"
proof -
  have pg: "paging_ok st" "page_aligned V" using mm by (simp_all add: mm_ok_def fp_ok_def)
  note e = alloc_entries [OF mm alloc]
  have "\<not> (dir_ix va = dir_ix V \<and> tab_ix va = tab_ix V)"
    using same_page_ix [of va V] va pg(2) by (auto simp: page_aligned_def)
  then show ?thesis
    using e(1,3) ix_less by (cases "present (pde st (dir_ix va))") (auto simp: translate_eq [OF pg(1)] translate_eq [OF e(2)])
qed

section \<open>Unmapping a page\<close>

lemma scan_table_result:
  assumes ok: "paging_ok st" "k < 1024" "present (pde st k)" and "unat i + n = 1024"
  shows "\<exists>r. scan_table st (page_table_of k) n i = Inr r
    \<and> (r = 1024 \<longleftrightarrow> (\<forall>l < 1024. i \<le> l \<longrightarrow> \<not> present (pte st k l)))"
  using assms(4)
proof (induction n arbitrary: i)
  case 0
  then have "i = 1024" by (simp add: word_eq_unat_iff)
  then show ?case by (auto simp: not_le)
next
  case (Suc n)
  then have i: "i < 1024" "unat (i + 1) = unat i + 1" "unat i < 1024"
    using unat_plus_one [of i 1024] by (simp_all add: word_less_nat_alt)
  have rd: "vread st (page_table_of k + 4 * i) = Inr (pte st k i)"
    using translate_table [OF ok(1,2) i(1) ok(3)] by (simp add: vread_def pte_def)
  show ?case
  proof (cases "present (pte st k i)")
    case True
    then show ?thesis using rd i by (auto simp: present_def)
  next
    case False
    obtain r where r: "scan_table st (page_table_of k) n (i + 1) = Inr r"
        "r = 1024 \<longleftrightarrow> (\<forall>l < 1024. i + 1 \<le> l \<longrightarrow> \<not> present (pte st k l))"
      using Suc.IH [of "i + 1"] Suc.prems i by auto
    have "i + 1 \<le> l \<longleftrightarrow> i \<le> l \<and> l \<noteq> i" for l
      using i(2) by (auto simp: word_le_nat_alt word_eq_unat_iff)
    with r False rd show ?thesis by (auto simp: present_def)
  qed
qed

lemma remove_table:
  assumes ok: "paging_ok st" and i: "i < 1024" "i \<noteq> 1023"
  defines "st' \<equiv> st\<lparr>phys := (phys st)(cr3 st + 4 * i := 2)\<rparr>"
  shows "paging_ok st'" "k < 1024 \<Longrightarrow> pde st' k = (if k = i then 2 else pde st k)"
    "table_frame st' f \<longleftrightarrow> (\<exists>k < 1024. k \<noteq> i \<and> present (pde st k) \<and> frame (pde st k) = f)"
proof -
  have pde': "pde st' k = (if k = i then 2 else pde st k)" if "k < 1024" for k
    using that i(1) by (simp add: pde_def st'_def index_inj)
  then show "k < 1024 \<Longrightarrow> pde st' k = (if k = i then 2 else pde st k)" .
  have np: "\<not> present 2" by (simp add: present_def)
  have "(1023 :: u32) < 1024" by (simp add: word_less_nat_alt)
  moreover have "inj_on (\<lambda>k. frame (pde st' k)) {k. k < 1024 \<and> present (pde st' k)}"
    using ok pde' np by (auto simp: paging_ok_def inj_on_def split: if_splits)
  ultimately show "paging_ok st'" using ok pde' i by (auto simp: paging_ok_def st'_def)
  show "table_frame st' f \<longleftrightarrow> (\<exists>k < 1024. k \<noteq> i \<and> present (pde st k) \<and> frame (pde st k) = f)"
    using pde' np unfolding table_frame_def by (auto split: if_splits)
qed

lemma unmap_run:
  assumes ok: "paging_ok st" "mutex_ready tid (mm_mutex st)" "mtx_lock (mm_mutex st) = 0" and va: "dir_ix va \<noteq> 1023"
    and mapped: "present (pde st (dir_ix va))" "present (pte st (dir_ix va) (tab_ix va))"
  defines "s1 \<equiv> st\<lparr>phys := (phys st)(frame (pde st (dir_ix va)) + 4 * tab_ix va := 2)\<rparr>"
  obtains m where "mutex_ready tid m" "mutex_release m = mm_mutex st"
    "mm_unmap_page V tid st va =
      (if \<exists>l < 1024. l \<noteq> tab_ix va \<and> present (pte st (dir_ix va) l) then Inr (1, s1)
       else bindE (mm_free_physical_page V tid (s1\<lparr>mm_mutex := m\<rparr>) (frame (pde st (dir_ix va)))) (\<lambda>s.
            bindE (vwrite s (kernel_page_dir + 4 * dir_ix va) 2) (\<lambda>s. Inr (1, mm_unlock s))))"
proof -
  have "mtx_level (mm_mutex st) \<noteq> 3" using ok(2,3) by (auto simp: mutex_ready_def)
  then obtain m where m: "mm_lock tid st = Inr (st\<lparr>mm_mutex := m\<rparr>)" "mutex_release m = mm_mutex st" "mutex_ready tid m"
    using mm_lock_unlock [OF ok(2)] by blast
  note w = pte_write [OF ok(1) ix_less(1) va mapped(1) ix_less(2) [of va], where v = 2, folded s1_def]
  have vr: "vread (st\<lparr>mm_mutex := m\<rparr>) = vread st" for st m by (simp add: vread_def fun_eq_iff)
  have sc: "scan_table (st\<lparr>mm_mutex := m\<rparr>) pt n i = scan_table st pt n i" for st m pt n i
    by (induction n arbitrary: i) (simp_all add: vr cong: if_cong)
  have v1: "vread st (kernel_page_dir + 4 * dir_ix va) = Inr (pde st (dir_ix va))"
    using translate_dir [OF ok(1) ix_less(1)] by (simp add: vread_def pde_def)
  have v2: "vread st (page_table_of (dir_ix va) + 4 * tab_ix va) = Inr (pte st (dir_ix va) (tab_ix va))"
    using translate_table [OF ok(1) ix_less mapped(1)] by (simp add: vread_def pte_def)
  have v3: "vwrite (st\<lparr>mm_mutex := m\<rparr>) (page_table_of (dir_ix va) + 4 * tab_ix va) 2 = Inr (s1\<lparr>mm_mutex := m\<rparr>)"
    using translate_table [OF ok(1) ix_less mapped(1)] by (simp add: vwrite_def s1_def)
  have c1: "cr3 s1 = cr3 st" by (simp add: s1_def)
  have pd: "pde s1 (dir_ix va) = pde st (dir_ix va)" using w(2) ix_less by simp
  then have v4: "vread s1 (kernel_page_dir + 4 * dir_ix va) = Inr (pde st (dir_ix va))"
    using translate_dir [OF w(1) ix_less(1)] by (simp add: vread_def pde_def c1)
  obtain r where r: "scan_table s1 (page_table_of (dir_ix va)) 1024 0 = Inr r"
      "r = 1024 \<longleftrightarrow> (\<forall>l < 1024. \<not> present (pte s1 (dir_ix va) l))"
    using scan_table_result [OF w(1) ix_less(1), of va 0 1024] pd mapped(1) by auto
  have "\<not> present 2" by (simp add: present_def)
  then have r2: "r = 1024 \<longleftrightarrow> \<not> (\<exists>l < 1024. l \<noteq> tab_ix va \<and> present (pte st (dir_ix va) l))"
    using r(2) w(4) [OF ix_less(1) mapped(1)] by auto
  have b: "pde st (dir_ix va) AND 1 \<noteq> 0" "pte st (dir_ix va) (tab_ix va) AND 1 \<noteq> 0" "pte st (dir_ix va) (tab_ix va) \<noteq> 0"
    using mapped by (auto simp: present_def)
  have un: "mm_unlock (s1\<lparr>mm_mutex := m\<rparr>) = s1" using m(2) by (simp add: mm_unlock_def s1_def)
  have "mm_unmap_page V tid st va =
      (if \<exists>l < 1024. l \<noteq> tab_ix va \<and> present (pte st (dir_ix va) l) then Inr (1, s1)
       else bindE (mm_free_physical_page V tid (s1\<lparr>mm_mutex := m\<rparr>) (frame (pde st (dir_ix va)))) (\<lambda>s.
            bindE (vwrite s (kernel_page_dir + 4 * dir_ix va) 2) (\<lambda>s. Inr (1, mm_unlock s))))"
    using b un unfolding r2 [symmetric, unfolded not_not] mm_unmap_page_def Let_def pageindex(1,2) m(1) bindE_simps vr v1 v2
    by (simp add: v3 sc r(1) vr v4 frame_def r2) blast
  with that m show ?thesis by blast
qed


text \<open>Freeing the page of a table that has become empty and clearing its directory entry.\<close>

lemma drop_table:
  assumes mm: "mm_ok V tid st ps" and i: "i < 1024" "i \<noteq> 1023" "i \<noteq> dir_ix V" "present (pde st i)"
    and t: "frame (pde st i) \<noteq> 0"
  shows "\<exists>s1 s2. mm_free_physical_page V tid st (frame (pde st i)) = Inr s1
    \<and> vwrite s1 (kernel_page_dir + 4 * i) 2 = Inr s2 \<and> mm_ok V tid s2 (frame (pde st i) # ps)
    \<and> mm_mutex s2 = mm_mutex st \<and> \<not> present (pde s2 i)"
proof -
  let ?t = "frame (pde st i)"
  have ok: "fp_ok V st" "paging_ok st" "mutex_ready tid (mm_mutex st)" using mm by (simp_all add: mm_ok_def fp_ok_def)
  have "?t \<noteq> frame (pde st (dir_ix V))"
    using ok i ix_less by (auto simp: fp_ok_def paging_ok_def inj_on_def)
  then have det: "detached V st ?t"
    using table_not_cr3 [OF ok(2) i(1,4,2)] fpte_frame(1) [OF ok(1)] by (simp add: detached_def)
  define s1 where "s1 = st\<lparr>phys := (phys st)(?t := first_free_page st, fpte V st := 0), first_free_page := ?t\<rparr>"
  have f1: "mm_free_physical_page V tid st ?t = Inr s1"
    using free_effect [OF ok(1) det ok(3)] by (simp add: s1_def)
  have c1: "cr3 s1 = cr3 st" "mm_freepage_pte s1 = mm_freepage_pte st" by (simp_all add: s1_def)
  have d1: "phys s1 a = phys st a" if "frame a = cr3 st" for a
    using that det fpte_frame(2) [OF ok(1)] by (auto simp: s1_def detached_def)
  have pg1: "paging_ok s1" and pde1: "k < 1024 \<Longrightarrow> pde s1 k = pde st k" for k
    using same_directory [OF ok(2) c1(1) d1] by blast+
  define s2 where "s2 = s1\<lparr>phys := (phys s1)(cr3 st + 4 * i := 2)\<rparr>"
  note rt = remove_table [OF pg1 i(1,2), unfolded c1, folded s2_def]
  have f2: "vwrite s1 (kernel_page_dir + 4 * i) 2 = Inr s2"
    using translate_dir [OF pg1 i(1)] by (simp add: vwrite_def s2_def c1)
  have fr: "frame (cr3 st + 4 * i) = cr3 st" using paging_cr3(1) [OF ok(2)] i by (simp add: table_entry_frame)
  have tf: "table_frame s2 f \<Longrightarrow> table_frame st f \<and> f \<noteq> ?t" for f
    using rt(3) pde1 ok(2) i unfolding table_frame_def paging_ok_def inj_on_def by (metis (mono_tags, lifting) mem_Collect_eq)
  have ne: "?t \<noteq> fpte V st" using det by (metis detached_def frame_idem)
  have us: "usable st x" if "x \<in> set ps" for x using mm_ok_usable [OF mm that] .
  have tt: "table_frame st ?t" using i by (auto simp: table_frame_def)
  have ps: "phys s2 x = phys st x" if "x \<in> set ps" for x
  proof -
    have "frame x = x" "\<not> table_frame st x" using us [OF that] usable_frame by (auto simp: usable_def)
    then have "x \<noteq> ?t" "x \<noteq> fpte V st" "x \<noteq> cr3 st + 4 * i"
      using tt fpte_frame(3) [OF ok(1)] fr paging_cr3(5) [OF ok(2)] by auto
    then show ?thesis by (simp add: s2_def s1_def)
  qed
  have "phys s2 ?t = first_free_page st"
    using det fr ne by (auto simp: s2_def s1_def detached_def dest: arg_cong [of _ _ frame])
  moreover have "free_chain (phys s2) (first_free_page st) ps"
    using mm free_chain_cong [of "phys st" _ ps "phys s2"] ps by (simp add: mm_ok_def)
  ultimately have chain: "free_chain (phys s2) (first_free_page s2) (?t # ps)"
    using t by (simp add: s2_def s1_def)
  have "fp_ok V s2"
    using ok(1) rt(1,2) pde1 ix_less i c1 by (auto simp: fp_ok_def s2_def)
  moreover have "distinct (?t # ps)" using mm us tt by (auto simp: mm_ok_def usable_def)
  ultimately have "mm_ok V tid s2 (?t # ps)"
    using chain mm tf by (auto simp: mm_ok_def s2_def s1_def)
  moreover have "\<not> present (pde s2 i)" using rt(2) i(1) by (simp add: present_def)
  moreover have "mm_mutex s2 = mm_mutex st" by (simp add: s2_def s1_def)
  ultimately show ?thesis using f1 f2 by blast
qed

lemma mm_ok_mutex: "mutex_ready tid m \<Longrightarrow> mm_ok V tid st ps \<Longrightarrow> mm_ok V tid (st\<lparr>mm_mutex := m\<rparr>) ps"
  by (simp add: mm_ok_def)

section \<open>The free list from the memory map\<close>

lemma mark_effect:
  assumes ok: "fp_ok V st" and p: "detached V st p"
  shows "mark_page V st p v = Inr (st\<lparr>phys := (phys st)(fpte V st := p OR 3, frame p := v), stat_mark := stat_mark st + 1\<rparr>)"
proof -
  let ?s1 = "st\<lparr>phys := (phys st)(fpte V st := p OR 3)\<rparr>"
  have ok1: "fp_ok V ?s1" "fpte V ?s1 = fpte V st" using MAP_effect_ok [OF ok] by simp_all
  have "vwrite ?s1 V v = Inr (?s1\<lparr>phys := (phys ?s1)(frame p := v)\<rparr>)"
    using window_vwrite(1) [OF ok1(1)] by (simp add: ok1(2))
  then show ?thesis by (simp add: mark_page_def MAP_effect [OF ok])
qed

text \<open>The pages of a region, and of a whole memory map.\<close>

definition pages_between :: "nat \<Rightarrow> nat \<Rightarrow> u32 list" where
  "pages_between lo hi = map (\<lambda>k. of_nat (lo + 4096 * k)) [0..<(hi - lo + 4095) div 4096]"

lemma pages_between_Nil: "hi \<le> lo \<Longrightarrow> pages_between lo hi = []"
  by (simp add: pages_between_def)

lemma pages_between_Cons:
  assumes "lo < hi"
  shows "pages_between lo hi = of_nat lo # pages_between (lo + 4096) hi"
proof -
  have "(hi - lo + 4095) div 4096 = Suc ((hi - (lo + 4096) + 4095) div 4096)"
  proof (cases "hi \<le> lo + 4096")
    case True
    then obtain d where "hi - lo + 4095 = 4096 + d" "d < 4096" using assms by (intro that [of "hi - lo - 1"]) auto
    then show ?thesis using True by simp
  next
    case False
    then have "hi - lo + 4095 = (hi - (lo + 4096) + 4095) + 4096" by simp
    then show ?thesis by (simp only: div_add_self2)
  qed
  moreover have "map (\<lambda>k. of_nat (lo + 4096 * k)) [0..<Suc n]
      = of_nat lo # map (\<lambda>k. of_nat (lo + 4096 + 4096 * k)) [0..<n]" for n :: nat
    by (simp add: upt_conv_Cons map_Suc_upt [symmetric] algebra_simps del: upt_Suc map_Suc_upt)
  ultimately show ?thesis by (simp only: pages_between_def)
qed

definition region_pages :: "u64 \<Rightarrow> multiboot_mmap_entry \<Rightarrow> u32 list" where
  "region_pages after_kernel e =
     (if mmap_type e = 1
      then pages_between (max (unat after_kernel) (unat (mmap_addr e)))
             (min (unat (mmap_addr e + mmap_len e)) 0xFFFFFFFF)
      else [])"

fun mmap_entries :: "(u32 \<Rightarrow> multiboot_mmap_entry) \<Rightarrow> u32 \<Rightarrow> u32 \<Rightarrow> multiboot_mmap_entry list \<Rightarrow> bool" where
  "mmap_entries entry mmap_end mm [] \<longleftrightarrow> \<not> mm < mmap_end"
| "mmap_entries entry mmap_end mm (e # es) \<longleftrightarrow>
     mm < mmap_end \<and> entry mm = e \<and> mmap_entries entry mmap_end (mm + mmap_size e + 4) es"

text \<open>
  The state while the list is built: \<open>xs\<close> are the pages seen so far, each one linked to the next,
  the last one not linked yet.
\<close>

definition linked :: "(u32 \<Rightarrow> u32) \<Rightarrow> u32 list \<Rightarrow> bool" where
  "linked h xs \<longleftrightarrow> (\<forall>k. Suc k < length xs \<longrightarrow> h (xs ! k) = xs ! Suc k)"

lemma linked_snoc:
  "linked h (xs @ [x]) \<longleftrightarrow> linked h xs \<and> (xs \<noteq> [] \<longrightarrow> h (last xs) = x)"
proof (cases xs rule: rev_cases)
  case (snoc ys y)
  have "linked h (ys @ [y, x]) \<longleftrightarrow> linked h (ys @ [y]) \<and> h y = x"
    unfolding linked_def
    by (auto simp: nth_append less_Suc_eq dest: spec [of _ "length ys"])
  then show ?thesis by (simp add: snoc)
qed (simp add: linked_def)

lemma linked_cong: "(\<And>x. x \<in> set (butlast xs) \<Longrightarrow> h' x = h x) \<Longrightarrow> linked h xs \<Longrightarrow> linked h' xs"
  unfolding linked_def by (metis (no_types, lifting) Suc_lessE diff_Suc_1 length_butlast less_Suc_eq nat_neq_iff nth_butlast nth_mem not_less_eq)

lemma linked_chain:
  "linked h (x # xs) \<Longrightarrow> h (last (x # xs)) = 0 \<Longrightarrow> (\<And>y. y \<in> set (x # xs) \<Longrightarrow> y \<noteq> 0 \<and> page_aligned y) \<Longrightarrow>
   free_chain h x (x # xs)"
proof (induction xs arbitrary: x)
  case (Cons y ys)
  have "linked h (y # ys)" "h x = y" using Cons.prems(1) by (auto simp: linked_def dest: spec [of _ "Suc _"] spec [of _ 0])
  then show ?case using Cons.IH [of y] Cons.prems by simp
qed simp

definition marking :: "u32 \<Rightarrow> mm_state \<Rightarrow> u32 list \<Rightarrow> u32 \<times> mm_state \<Rightarrow> bool" where
  "marking V st0 xs s \<longleftrightarrow>
     (case s of (previous, st) \<Rightarrow>
        fp_ok V st \<and> table_frame st = table_frame st0 \<and> mm_mutex st = mm_mutex st0
        \<and> distinct xs \<and> (\<forall>x \<in> set xs. usable st0 x) \<and> linked (phys st) xs
        \<and> previous = (if xs = [] then 0 else last xs)
        \<and> first_free_page st = (if xs = [] then 0 else hd xs))"

lemma marking_step:
  assumes m: "marking V st0 xs (previous, st)" and x: "usable st0 x" "x \<notin> set xs"
  shows "\<exists>st'. (if first_free_page st = 0 then Inr (st\<lparr>first_free_page := x\<rparr>) else mark_page V st previous x) = Inr st'
    \<and> marking V st0 (xs @ [x]) (x, st')"
proof (cases "xs = []")
  case True
  then show ?thesis using m x by (auto simp: marking_def linked_def)
next
  case False
  let ?p = "last xs"
  have us: "usable st y" if "y \<in> set xs" for y using m that by (auto simp: marking_def usable_def)
  have ok: "fp_ok V st" "previous = ?p" "first_free_page st \<noteq> 0"
    using m False us [of "hd xs"] by (auto simp: marking_def usable_def)
  have p: "usable st ?p" "frame ?p = ?p" "detached V st ?p"
    using us [of ?p] False usable_frame usable_detached [OF ok(1)] by auto
  define h where "h = (phys st)(fpte V st := ?p OR 3, ?p := x)"
  have mk: "mark_page V st previous x = Inr (st\<lparr>phys := h, stat_mark := stat_mark st + 1\<rparr>)"
    using mark_effect [OF ok(1) p(3)] p(2) ok(2) by (simp add: h_def)
  have "phys (st\<lparr>phys := h\<rparr>) a = phys st a" if "frame a = cr3 st" for a
    using that fpte_frame(2) [OF ok(1)] p by (auto simp: h_def detached_def)
  from fp_ok_same [OF ok(1) _ _ this]
  have "fp_ok V (st\<lparr>phys := h\<rparr>) \<and> table_frame (st\<lparr>phys := h\<rparr>) = table_frame st" by simp
  then have fp: "fp_ok V (st\<lparr>phys := h, stat_mark := k\<rparr>)" "table_frame (st\<lparr>phys := h, stat_mark := k\<rparr>) = table_frame st" for k
    by simp_all
  have "linked h xs"
  proof (rule linked_cong)
    fix y assume y: "y \<in> set (butlast xs)"
    then have "y \<in> set xs" by (rule in_set_butlastD)
    moreover have "y \<noteq> ?p" using m y False unfolding marking_def by (cases xs rule: rev_cases) auto
    ultimately show "h y = phys st y"
      using us [of y] usable_frame [of st y] fpte_frame(3) [OF ok(1)] by (auto simp: h_def usable_def)
  next
    show "linked (phys st) xs" using m by (simp add: marking_def)
  qed
  then have "linked h (xs @ [x])" by (simp add: linked_snoc h_def)
  then show ?thesis using m mk fp False ok x by (auto simp: marking_def)
qed

declare mark_region.simps [simp del]

lemma mark_region_run:
  assumes "marking V st0 xs s" "distinct (xs @ pages_between (unat next) (min (unat bound) 0xFFFFFFFF))"
    "\<And>x. x \<in> set (pages_between (unat next) (min (unat bound) 0xFFFFFFFF)) \<Longrightarrow> usable st0 x"
  shows "\<exists>s'. mark_region V bound next s = Inr s'
    \<and> marking V st0 (xs @ pages_between (unat next) (min (unat bound) 0xFFFFFFFF)) s'"
  using assms
proof (induction "2 ^ 32 - unat next" arbitrary: "next" xs s rule: less_induct)
  case less
  obtain previous st where s: "s = (previous, st)" by (cases s)
  have mn: "unat (min64 bound 0xFFFFFFFF) = min (unat bound) 0xFFFFFFFF"
    by (auto simp: min64_def word_less_nat_alt min_def)
  show ?case
  proof (cases "next < min64 bound 0xFFFFFFFF")
    case False
    then have "min (unat bound) 0xFFFFFFFF \<le> unat next" unfolding word_less_nat_alt mn by (simp only: not_less)
    then show ?thesis using False less.prems(1) by (simp add: s pages_between_Nil mark_region.simps [of V bound "next"])
  next
    case True
    then have lt: "unat next < min (unat bound) 0xFFFFFFFF" using mn by (simp add: word_less_nat_alt)
    then have nx: "unat (next + 4096) = unat next + 4096" by (subst unat_add_small) simp_all
    note pb = pages_between_Cons [OF lt]
    let ?x = "ucast next :: u32"
    have x: "?x = of_nat (unat next)" by (simp add: word_eq_unat_iff unat_ucast_mod unat_of_nat)
    have ux: "usable st0 ?x" "?x \<notin> set xs"
      using less.prems(2,3) unfolding pb x by simp_all
    obtain st' where st': "(if first_free_page st = 0 then Inr (st\<lparr>first_free_page := ?x\<rparr>) else mark_page V st previous ?x) = Inr st'"
        "marking V st0 (xs @ [?x]) (?x, st')"
      using marking_step [OF less.prems(1) [unfolded s] ux(1) ux(2)] by blast
    let ?q = "pages_between (unat next + 4096) (min (unat bound) 0xFFFFFFFF)"
    have dec: "2 ^ 32 - unat (next + 4096) < 2 ^ 32 - unat next" using lt nx by simp linarith
    have dist: "distinct ((xs @ [?x]) @ ?q)" using less.prems(2) unfolding pb x by simp
    have us: "usable st0 y" if "y \<in> set ?q" for y using less.prems(3) that unfolding pb by simp
    obtain s' where "mark_region V bound (next + 4096) (?x, st') = Inr s'" "marking V st0 ((xs @ [?x]) @ ?q) s'"
      using less.hyps [OF dec st'(2)] dist us unfolding nx by blast
    moreover have "mark_region V bound next s = mark_region V bound (next + 4096) (?x, st')"
      unfolding s by (subst mark_region.simps) (simp only: True st'(1) if_True bindE_simps)
    ultimately show ?thesis unfolding pb x by simp
  qed
qed


lemma mark_regions_run:
  assumes "mmap_entries entry mmap_end mm es" "marking V st0 xs s"
    "distinct (xs @ concat (map (region_pages after_kernel) es))"
    "\<And>x. x \<in> set (concat (map (region_pages after_kernel) es)) \<Longrightarrow> usable st0 x"
  shows "\<exists>s'. mark_regions V entry mmap_end after_kernel mm s = Some (Inr s')
    \<and> marking V st0 (xs @ concat (map (region_pages after_kernel) es)) s'"
  using assms
proof (induction es arbitrary: mm xs s)
  case Nil
  then show ?case by (subst mark_regions.simps) simp
next
  case (Cons e es)
  let ?r = "region_pages after_kernel e" and ?rs = "concat (map (region_pages after_kernel) es)"
  have e: "mm < mmap_end" "entry mm = e" "mmap_entries entry mmap_end (mm + mmap_size e + 4) es"
    using Cons.prems(1) by simp_all
  have mx: "unat (max64 after_kernel (mmap_addr e)) = max (unat after_kernel) (unat (mmap_addr e))"
    by (auto simp: max64_def word_less_nat_alt max_def)
  obtain s1 where s1: "(if mmap_type e = 1
        then mark_region V (mmap_addr e + mmap_len e) (max64 after_kernel (mmap_addr e)) s else Inr s) = Inr s1"
      "marking V st0 (xs @ ?r) s1"
  proof (cases "mmap_type e = 1")
    case True
    have "distinct (xs @ pages_between (unat (max64 after_kernel (mmap_addr e))) (min (unat (mmap_addr e + mmap_len e)) 0xFFFFFFFF))"
      "\<And>x. x \<in> set (pages_between (unat (max64 after_kernel (mmap_addr e))) (min (unat (mmap_addr e + mmap_len e)) 0xFFFFFFFF)) \<Longrightarrow> usable st0 x"
      using Cons.prems(3,4) True unfolding mx by (auto simp: region_pages_def)
    from mark_region_run [OF Cons.prems(2) this] that True show ?thesis
      unfolding mx by (auto simp: region_pages_def)
  next
    case False
    then show ?thesis using that Cons.prems(2) by (simp add: region_pages_def)
  qed
  obtain s2 where "mark_regions V entry mmap_end after_kernel (mm + mmap_size e + 4) s1 = Some (Inr s2)"
      "marking V st0 ((xs @ ?r) @ ?rs) s2"
    using Cons.IH [OF e(3) s1(2)] Cons.prems(3,4) by auto
  moreover have "mark_regions V entry mmap_end after_kernel mm s
      = mark_regions V entry mmap_end after_kernel (mm + mmap_size e + 4) s1"
    by (subst mark_regions.simps) (simp only: e(1,2) s1(1) if_True sum.case)
  ultimately show ?case by auto
qed

lemma marking_close:
  assumes m: "marking V st0 xs (previous, st)" and "xs \<noteq> []" "mutex_ready tid (mm_mutex st0)"
  shows "\<exists>st'. mark_page V st previous 0 = Inr st' \<and> mm_ok V tid st' xs"
proof -
  obtain y ys where xs: "xs = y # ys" using assms(2) by (cases xs) auto
  let ?p = "last xs"
  have us: "usable st z" if "z \<in> set xs" for z using m that by (auto simp: marking_def usable_def)
  have ok: "fp_ok V st" "previous = ?p" "first_free_page st = y" "mm_mutex st = mm_mutex st0" "distinct xs"
    using m xs by (auto simp: marking_def)
  have p: "usable st ?p" "frame ?p = ?p" "detached V st ?p"
    using us [of ?p] assms(2) usable_frame usable_detached [OF ok(1)] by auto
  define h where "h = (phys st)(fpte V st := ?p OR 3, ?p := 0)"
  define st' where "st' = st\<lparr>phys := h, stat_mark := stat_mark st + 1\<rparr>"
  have mk: "mark_page V st previous 0 = Inr st'"
    using mark_effect [OF ok(1) p(3)] p(2) ok(2) by (simp add: h_def st'_def)
  have "phys st' a = phys st a" if "frame a = cr3 st" for a
    using that fpte_frame(2) [OF ok(1)] p by (auto simp: st'_def h_def detached_def)
  from fp_ok_same [OF ok(1) _ _ this]
  have fp: "fp_ok V st'" "table_frame st' = table_frame st" by (simp_all add: st'_def)
  have "linked h xs"
  proof (rule linked_cong)
    fix z assume z: "z \<in> set (butlast xs)"
    then have "z \<in> set xs" by (rule in_set_butlastD)
    moreover have "z \<noteq> ?p" using ok(5) z by (cases xs rule: rev_cases) auto
    ultimately show "h z = phys st z"
      using us [of z] usable_frame [of st z] fpte_frame(3) [OF ok(1)] by (auto simp: h_def usable_def)
  next
    show "linked (phys st) xs" using m by (simp add: marking_def)
  qed
  then have "free_chain h y xs"
    using linked_chain [of h y ys] us xs by (auto simp: h_def usable_def)
  then have "mm_ok V tid st' xs"
    using fp ok us assms(3) by (auto simp: mm_ok_def st'_def usable_def)
  with mk show ?thesis by blast
qed

section \<open>New page directories\<close>

lemma new_directory_run:
  assumes mm: "mm_ok V tid st (q # qs)"
  shows "\<exists>st'. mm_new_page_directory V tid st = Inr (q, st') \<and> mm_ok V tid st' qs \<and> cr3 st' = cr3 st
    \<and> table_frame st' = table_frame st
    \<and> (\<forall>k < 1024. phys st' (q + 4 * k) = (if k = 1023 then q OR 3 else if 768 \<le> k then pde st k else 0))
    \<and> (\<forall>a. frame a \<noteq> q \<longrightarrow> a \<noteq> fpte V st \<longrightarrow> phys st' a = phys st a) \<and> phys st' (fpte V st) = 0"
proof -
  have ok: "fp_ok V st" "paging_ok st" "mutex_ready tid (mm_mutex st)" "page_aligned V"
    using mm by (simp_all add: mm_ok_def fp_ok_def)
  have us: "usable st q" "frame q = q" "page_aligned q" using mm_ok_usable [OF mm] usable_frame by (auto simp: usable_def)
  have det: "q \<noteq> cr3 st" "q \<noteq> frame (fpte V st)"
    using usable_detached [OF ok(1) us(1)] us(2) by (simp_all add: detached_def)
  obtain s1 where s1: "mm_alloc_physical_page V tid True st = Inr (q, s1)" "mm_ok V tid s1 qs"
      "table_frame s1 = table_frame st" "cr3 s1 = cr3 st" "mm_mutex s1 = mm_mutex st"
      "phys s1 = (\<lambda>a. if True \<and> frame a = q then 0 else phys st a)(fpte V st := 0)"
    using alloc_page [OF mm, of True] by blast
  have ok1: "fp_ok V s1" using s1(2) by (simp add: mm_ok_def)
  have ph1: "phys s1 a = (if frame a = q \<or> a = fpte V st then 0 else phys st a)" for a by (simp add: s1(6))
  have dir1: "phys s1 a = phys st a" if "frame a = cr3 st" for a
    using that det fpte_frame(2) [OF ok(1)] by (auto simp: ph1)
  have pde1: "pde s1 k = pde st k" if "k < 1024" for k
    using same_directory(1) [OF ok(2) s1(4)] dir1 that by blast
  have fp1: "fpte V s1 = fpte V st" using pde1 ix_less by (simp add: fpte_def)
  obtain m where m: "mm_lock tid s1 = Inr (s1\<lparr>mm_mutex := m\<rparr>)" "mutex_release m = mm_mutex st"
    using mm_lock_unlock [of tid s1] ok(3) s1(5) by metis
  define s2 where "s2 = s1\<lparr>phys := (phys s1)(fpte V st := q OR 3)\<rparr>"
  have ok2: "fp_ok V s2" "fpte V s2 = fpte V st" "phys s2 (fpte V st) = q OR 3" "cr3 s2 = cr3 st"
    using MAP_effect_ok [OF ok1] by (simp_all add: s2_def fp1 s1(4))
  have e1: "MAP_TO_FREEPAGE (s1\<lparr>mm_mutex := m\<rparr>) (q OR 3) = Inr (s2\<lparr>mm_mutex := m\<rparr>)"
    using MAP_effect [of V "s1\<lparr>mm_mutex := m\<rparr>"] ok1 fp1 by (simp add: s2_def)
  let ?c = "\<lambda>b. if in_range (q + 3072) 1020 b then phys s2 (cr3 st + 3072 + (b - (q + 3072))) else phys s2 b"
  define s3 where "s3 = s2\<lparr>phys := ?c\<rparr>"
  have pg2: "paging_ok s2" using ok2 by (simp add: fp_ok_def)
  have t1: "translate s2 (V + 3072) = Inr (q + 3072)"
    using window_translate [OF ok2(1), of q 3072] ok2(2,3) us(2) by (simp add: word_less_nat_alt)
  have t2: "translate s2 (kernel_page_dir + 3072) = Inr (cr3 st + 3072)"
    using translate_dir [OF pg2, of 768] ok2(4) by (simp add: word_less_nat_alt)
  have e2: "vcopy_words (s2\<lparr>mm_mutex := m\<rparr>) (V + 4 * 768) (kernel_page_dir + 4 * 768) 255 = Inr (s3\<lparr>mm_mutex := m\<rparr>)"
    using t1 t2 by (simp add: vcopy_words_def s3_def cong: if_cong)
  have inq: "frame b = q" if "in_range (q + 3072) 1020 b" for b
  proof -
    have "b - (q + 3072) < 1020" using that by (simp add: in_range_def)
    then have "unat (b - (q + 3072)) < 1020" by (simp add: word_less_nat_alt)
    then have "unat (3072 + (b - (q + 3072))) < 4096" by (subst unat_add_small) simp_all
    then have "frame (q + (3072 + (b - (q + 3072)))) = q"
      by (intro frame_add us) (simp add: word_less_nat_alt)
    then show ?thesis by (simp add: algebra_simps)
  qed
  have "detached V s2 q" using det ok2 us(2) by (simp add: detached_def)
  then have ok3: "fp_ok V s3" "fpte V s3 = fpte V st"
    using window_write [OF ok2(1), of q ?c] inq us(2) ok2(2) by (auto simp: s3_def)
  have ne: "frame (fpte V st) \<noteq> q" using det(2) by simp
  have ph3: "phys s3 (fpte V st) = q OR 3" using inq ne ok2(3) by (auto simp: s3_def)
  define s4 where "s4 = s3\<lparr>phys := (phys s3)(q + 4 * 1023 := q OR 3)\<rparr>"
  have e3: "vwrite (s3\<lparr>mm_mutex := m\<rparr>) (V + 4 * 1023) (q OR 3) = Inr (s4\<lparr>mm_mutex := m\<rparr>)"
    using window_translate [OF ok3(1), of q 4092] ok3(2) ph3 us(2) by (simp add: vwrite_def s4_def word_less_nat_alt)
  have f1023: "frame (q + 4 * 1023) = q" using us(3) table_entry_frame [of q 1023] by (simp add: word_less_nat_alt)
  have "detached V s3 q" using det ok3 us(2) by (simp add: detached_def s3_def s2_def s1(4))
  then have ok4: "fp_ok V s4" "fpte V s4 = fpte V st"
    using window_write [OF ok3(1), of q "(phys s3)(q + 4 * 1023 := q OR 3)"] f1023 us(2) ok3(2) by (auto simp: s4_def)
  define s5 where "s5 = s4\<lparr>phys := (phys s4)(fpte V st := 0)\<rparr>"
  have e4: "MAP_TO_FREEPAGE (s4\<lparr>mm_mutex := m\<rparr>) 0 = Inr (s5\<lparr>mm_mutex := m\<rparr>)"
    using MAP_effect [of V "s4\<lparr>mm_mutex := m\<rparr>"] ok4 by (simp add: s5_def)
  have mu: "mm_unlock (s5\<lparr>mm_mutex := m\<rparr>) = s5" using m(2) s1(5) by (simp add: mm_unlock_def s5_def s4_def s3_def s2_def)
  have run: "mm_new_page_directory V tid st = Inr (q, s5)"
    unfolding mm_new_page_directory_def s1(1) bindE_simps prod.case m(1) e1 e2 e3 e4 mu by simp
  have rng: "in_range (q + 3072) 1020 (q + 4 * k) \<longleftrightarrow> 768 \<le> k \<and> k \<noteq> 1023" if "k < 1024" for k
  proof -
    have "unat k < 1024" using that by (simp add: word_less_nat_alt)
    moreover have "q + 4 * k = q + of_nat (4 * unat k)" by simp
    moreover have "k \<noteq> 1023 \<longleftrightarrow> unat k \<noteq> 1023" by (simp add: word_eq_unat_iff)
    ultimately show ?thesis
      using in_range_offsets [of "4 * unat k" 3072 1020 q] by (auto simp: word_le_nat_alt)
  qed
  have new: "phys s5 (q + 4 * k) = (if k = 1023 then q OR 3 else if 768 \<le> k then pde st k else 0)" if k: "k < 1024" for k
  proof -
    have fr: "frame (q + 4 * k) = q" "frame (cr3 st + 4 * k) = cr3 st"
      using k us(3) paging_cr3(1) [OF ok(2)] by (simp_all add: table_entry_frame)
    then have "q + 4 * k \<noteq> fpte V st" "cr3 st + 4 * k \<noteq> fpte V st" using ne fpte_frame(2) [OF ok(1)] by auto
    moreover have "q + 4 * k = q + 4092 \<longleftrightarrow> k = 1023" using index_inj [OF k, of 1023] by (simp add: word_less_nat_alt)
    moreover have "phys s2 (cr3 st + 4 * k) = pde st k"
      using pde1 [OF k] s1(4) calculation(2) by (simp add: s2_def pde_def)
    moreover have "phys s2 (q + 4 * k) = 0" using calculation(1) fr(1) by (simp add: s2_def ph1)
    ultimately show ?thesis using rng [OF k] by (auto simp: s5_def s4_def s3_def add.assoc)
  qed
  have old: "phys s5 a = phys st a" if "frame a \<noteq> q" "a \<noteq> fpte V st" for a
    using that inq f1023 by (auto simp: s5_def s4_def s3_def s2_def ph1)
  have f5: "cr3 s5 = cr3 s1" "mm_freepage_pte s5 = mm_freepage_pte s1" "mm_mutex s5 = mm_mutex s1"
      "first_free_page s5 = first_free_page s1" "phys s5 (fpte V st) = 0"
    by (simp_all add: s5_def s4_def s3_def s2_def)
  have same: "phys s5 a = phys s1 a" if "frame a \<noteq> q" for a
    using that old [OF that] ph1 [of a] f5(5) by (cases "a = fpte V st") auto
  have qs: "frame x \<noteq> q \<and> \<not> table_frame s1 x" if "x \<in> set qs" for x
  proof -
    have "usable s1 x" by (rule mm_ok_usable [OF s1(2) that])
    then show ?thesis using mm that usable_frame by (auto simp: mm_ok_def usable_def)
  qed
  have "free_chain (phys s5) (first_free_page s5) qs"
    unfolding f5(4) by (rule free_chain_cong [of "phys s1"]) (use s1(2) same qs in \<open>auto simp: mm_ok_def\<close>)
  moreover have "distinct qs" using mm by (simp add: mm_ok_def)
  ultimately have "mm_ok V tid s5 qs" "table_frame s5 = table_frame s1"
    using mm_ok_update [OF s1(2) f5(1,2), of qs] same det(1) qs f5(3) s1(4) by metis+
  then show ?thesis using run new old s1(3,4) f5 by auto
qed

section \<open>A concrete state\<close>

text \<open>
  A page directory at \<open>0x1000\<close> with a kernel table at \<open>0x2000\<close>, a table at \<open>0x3000\<close> that maps two
  pages from \<open>0x400000\<close> on, and two free pages.
\<close>

definition example_mm :: mm_state where
  "example_mm =
     \<lparr>phys = (\<lambda>_. 0)(0x1FFC := 0x1003, 0x1C00 := 0x2003, 0x1004 := 0x3003, 0x3000 := 0x8003,
                0x3004 := 0x9003, 0x5000 := 0x6000),
      cr3 = 0x1000, first_free_page = 0x5000, stat_mark = 0,
      mm_mutex = \<lparr>mtx_lock = 0, mtx_level = 0\<rparr>,
      mm_freepage_pte = page_table_of 768 + 4 * 16\<rparr>"

lemma example_pde:
  assumes "i < 1024"
  shows "pde example_mm i = (if i = 1023 then 0x1003 else if i = 768 then 0x2003 else if i = 1 then 0x3003 else 0)"
proof -
  have i: "unat i < 1024" using assms by (simp add: word_less_nat_alt)
  then have a: "unat (0x1000 + 4 * i) = 4096 + 4 * unat i"
    using unat_add_small [of "0x1000" "4 * i"] index_less(2) [OF assms] by simp
  have eq: "0x1000 + 4 * i = n \<longleftrightarrow> 4096 + 4 * unat i = unat n" for n using a by (auto simp: word_eq_unat_iff)
  have "i = n \<longleftrightarrow> unat i = unat n" for n by (simp add: word_eq_unat_iff)
  then show ?thesis using i by (simp add: pde_def example_mm_def eq)
qed

lemma example_table: "table_frame example_mm f \<Longrightarrow> f \<in> {0x1000, 0x2000, 0x3000}"
proof -
  have p: "\<not> present 0" by (simp add: present_def)
  have f: "frame 0x1003 = 0x1000" "frame 0x2003 = 0x2000" "frame 0x3003 = 0x3000" by (simp_all add: frame_def)
  assume "table_frame example_mm f"
  then show ?thesis using p f by (auto simp: table_frame_def example_pde split: if_splits)
qed

lemma example_paging: "paging_ok example_mm"
proof -
  have "inj_on (\<lambda>i. frame (pde example_mm i)) {i. i < 1024 \<and> present (pde example_mm i)}"
    by (auto simp: inj_on_def example_pde present_def frame_def split: if_splits)
  moreover have "pde example_mm 1023 = 0x1003" by (simp add: example_pde word_less_nat_alt)
  ultimately show ?thesis by (simp add: paging_ok_def page_aligned_def frame_def example_mm_def)
qed

lemma example_mm_ok: "mm_ok 0xC0010000 2 example_mm [0x5000, 0x6000]"
proof -
  have "fp_ok 0xC0010000 example_mm"
    using example_paging by (simp add: fp_ok_def page_aligned_def frame_def example_pde word_less_nat_alt present_def)
      (simp add: example_mm_def)
  moreover have "free_chain (phys example_mm) (first_free_page example_mm) [0x5000, 0x6000]"
    by (simp add: example_mm_def page_aligned_def frame_def)
  moreover have "mutex_ready 2 (mm_mutex example_mm)" by (simp add: mutex_ready_def example_mm_def)
  ultimately show ?thesis using example_table by (fastforce simp: mm_ok_def)
qed

section \<open>Properties\<close>

text \<open>
  C14. Allocating and freeing physical pages: with no free page \<open>mm_alloc_physical_page\<close> returns 0
  and changes nothing; otherwise it hands out the first free page, zeroed on request, the
  invariant holds for the others, and \<open>mm_free_physical_page\<close> puts the page back in front.
\<close>

theorem mm_alloc_free_correct:
  assumes "mm_ok V tid st ps"
  shows "case ps of
      [] \<Rightarrow> mm_alloc_physical_page V tid zero st = Inr (0, st)
    | p # qs \<Rightarrow> (\<exists>s1 s2. mm_alloc_physical_page V tid zero st = Inr (p, s1) \<and> mm_ok V tid s1 qs
        \<and> (zero \<longrightarrow> (\<forall>a. frame a = p \<longrightarrow> phys s1 a = 0))
        \<and> mm_free_physical_page V tid s1 p = Inr s2 \<and> mm_ok V tid s2 ps)"
proof (cases ps)
  case Nil
  then show ?thesis using pages.alloc_empty assms by simp
next
  case (Cons p qs)
  with assms have mm: "mm_ok V tid st (p # qs)" by simp
  obtain s1 where s1: "mm_alloc_physical_page V tid zero st = Inr (p, s1)"
      "phys s1 = (\<lambda>a. if zero \<and> frame a = p then 0 else phys st a)(fpte V st := 0)"
    using alloc_page [OF mm] by blast
  then have "zero \<longrightarrow> (\<forall>a. frame a = p \<longrightarrow> phys s1 a = 0)" by simp
  then show ?thesis using pages.alloc_free_roundtrip [OF mm, of zero] s1(1) Cons by auto
qed

theorem mm_alloc_free_correct_witness:
  "\<exists>st. mm_alloc_physical_page 0xC0010000 2 True example_mm = Inr (0x5000, st)
     \<and> mm_ok 0xC0010000 2 st [0x6000]"
  using mm_alloc_free_correct [OF example_mm_ok, of True] by auto

text \<open>
  C15. \<open>mm_init_page_allocator\<close> ends and leaves exactly the pages of the usable regions above the
  kernel in the free list, in the order of the memory map (which must keep whole, distinct
  pages away from the page tables in use).
\<close>

theorem mm_init_page_allocator_correct:
  assumes paging: "paging_ok st" "page_aligned V" "dir_ix V \<noteq> 1023" "present (pde st (dir_ix V))"
    and fresh: "first_free_page st = 0" "mutex_ready tid (mm_mutex st)"
    and mmap: "mmap_entries entry (mmap + mmap_length) mmap es"
    and pages: "pages = concat (map (region_pages (ucast ((drop_bit 12 kernel_physical_end + 1) * 4096 :: u32))) es)"
    and map_ok: "pages \<noteq> []" "distinct pages" "\<And>p. p \<in> set pages \<Longrightarrow> usable st p"
  shows "\<exists>st'. mm_init_page_allocator V kernel_physical_end entry mmap_length mmap st = Some (Inr st')
    \<and> mm_ok V tid st' pages"
proof -
  let ?st = "st\<lparr>mm_freepage_pte := page_table_of (dir_ix V) + 4 * tab_ix V\<rparr>"
  have tf: "table_frame ?st = table_frame st" by (simp add: table_frame_def pde_def fun_eq_iff)
  have "marking V ?st [] (0, ?st)"
    using paging fresh(1) by (simp add: marking_def fp_ok_def linked_def paging_ok_def pde_def)
  moreover have "distinct ([] @ pages)" "\<And>p. p \<in> set pages \<Longrightarrow> usable ?st p"
    using map_ok(2,3) tf by (simp_all add: usable_def)
  ultimately obtain s where s: "mark_regions V entry (mmap + mmap_length)
      (ucast ((drop_bit 12 kernel_physical_end + 1) * 4096 :: u32)) mmap (0, ?st) = Some (Inr s)" "marking V ?st pages s"
    using mark_regions_run [OF mmap, of V ?st "[]" "(0, ?st)"] unfolding pages append_Nil by blast
  obtain previous st1 where s1: "s = (previous, st1)" by (cases s)
  obtain st' where "mark_page V st1 previous 0 = Inr st'" "mm_ok V tid st' pages"
    using marking_close [of V ?st pages previous st1 tid] s(2) s1 map_ok(1) fresh(2) by auto
  then show ?thesis using s(1) s1 by (simp add: mm_init_page_allocator_def Let_def pageindex)
qed

theorem mm_init_page_allocator_correct_witness:
  "\<exists>st. mm_init_page_allocator 0xC0010000 0x4000
      (\<lambda>_. \<lparr>mmap_size = 20, mmap_addr = 0x5000, mmap_len = 0x2000, mmap_type = 1\<rparr>) 24 100
      (example_mm\<lparr>first_free_page := 0\<rparr>) = Some (Inr st)
    \<and> mm_ok 0xC0010000 2 st [0x5000, 0x6000]"
proof -
  let ?e = "\<lparr>mmap_size = 20, mmap_addr = 0x5000, mmap_len = 0x2000, mmap_type = 1\<rparr>"
  let ?st = "example_mm\<lparr>first_free_page := 0\<rparr>"
  have mm: "mm_ok 0xC0010000 2 example_mm [0x5000, 0x6000]" by (rule example_mm_ok)
  have us: "usable ?st p" if "p \<in> set [0x5000, 0x6000]" for p
    using mm_ok_usable [OF mm that] by (simp add: usable_def)
  have fp: "paging_ok ?st" "page_aligned 0xC0010000" "dir_ix 0xC0010000 \<noteq> 1023" "present (pde ?st (dir_ix 0xC0010000))"
    using mm by (simp_all add: mm_ok_def fp_ok_def paging_ok_def pde_def)
  have pages: "[0x5000, 0x6000] = concat (map (region_pages (ucast ((drop_bit 12 0x4000 + 1) * 4096 :: u32))) [?e])"
    by (simp add: region_pages_def pages_between_def upt_conv_Cons)
  have "mutex_ready 2 (mm_mutex ?st)" using mm by (simp add: mm_ok_def)
  moreover have "mmap_entries (\<lambda>_. ?e) (100 + 24) 100 [?e]" by (simp add: word_less_nat_alt)
  ultimately show ?thesis
    by (intro mm_init_page_allocator_correct [OF fp _ _ _ pages _ _ us]) simp_all
qed

text \<open>
  C16. \<open>mm_map_page\<close> maps: for an unused entry it returns 0, the virtual page then translates to
  the physical page, every other page outside the table window translates as before, and the
  free list loses a page exactly when a page table had to be created.
\<close>

theorem mm_map_page_correct:
  assumes ok: "mm_ok V tid st ps" "mtx_lock (mm_mutex st) = 0" and p: "p \<noteq> 0" "va \<noteq> 0"
    and va: "dir_ix va \<noteq> 1023" "frame va \<noteq> V"
    and free: "va_unused st va"
      "\<not> present (pde st (dir_ix va)) \<Longrightarrow> ps \<noteq> []"
  shows "\<exists>st'. mm_map_page V tid st p va = Inr (0, st')
    \<and> mm_ok V tid st' (if present (pde st (dir_ix va)) then ps else tl ps)
    \<and> translate st' va = Inr (frame p + (va AND 0xFFF))
    \<and> (\<forall>va'. dir_ix va' \<noteq> 1023 \<longrightarrow> frame va' \<noteq> frame va \<longrightarrow> frame va' \<noteq> V \<longrightarrow> translate st' va' = translate st va')"
  using map_page_step [OF assms] by blast

theorem mm_map_page_correct_witness:
  "\<exists>st. mm_map_page 0xC0010000 2 example_mm 0x7000 0x402000 = Inr (0, st) \<and> translate st 0x402000 = Inr 0x7000"
proof -
  have l: "(1 :: u32) < 1024" by (simp add: word_less_nat_alt)
  have "dir_ix 0x402000 = 1" "tab_ix 0x402000 = 2" by simp_all
  moreover have "present (pde example_mm 1)" "pte example_mm 1 2 = 0"
    unfolding pte_def example_pde [OF l] by (simp_all add: present_def frame_def example_mm_def)
  moreover have "mtx_lock (mm_mutex example_mm) = 0" by (simp add: example_mm_def)
  moreover have "frame 0x402000 \<noteq> 0xC0010000" "frame 0x7000 = 0x7000" by (simp_all add: frame_def)
  ultimately show ?thesis
    using mm_map_page_correct [OF example_mm_ok, of "0x7000" "0x402000"] by (auto simp: va_unused_def)
qed



text \<open>
  C18. \<open>mm_new_page_directory\<close>: the new directory is a valid one that maps itself, translates the
  kernel part of the address space as the current one does, and maps nothing of the user part.
\<close>

theorem mm_new_page_directory_correct:
  assumes mm: "mm_ok V tid st (q # qs)"
  shows "\<exists>st'. mm_new_page_directory V tid st = Inr (q, st') \<and> mm_ok V tid st' qs
    \<and> paging_ok (st'\<lparr>cr3 := q\<rparr>)
    \<and> (\<forall>va. 768 \<le> dir_ix va \<longrightarrow> dir_ix va \<noteq> 1023 \<longrightarrow> frame va \<noteq> V \<longrightarrow>
          translate (st'\<lparr>cr3 := q\<rparr>) va = translate st va)
    \<and> (\<forall>va. dir_ix va < 768 \<longrightarrow> translate (st'\<lparr>cr3 := q\<rparr>) va = Inl (BadAccess va))"
proof -
  obtain st' where st': "mm_new_page_directory V tid st = Inr (q, st')" "mm_ok V tid st' qs"
      "\<And>k. k < 1024 \<Longrightarrow> phys st' (q + 4 * k) = (if k = 1023 then q OR 3 else if 768 \<le> k then pde st k else 0)"
      "\<And>a. frame a \<noteq> q \<Longrightarrow> a \<noteq> fpte V st \<Longrightarrow> phys st' a = phys st a"
    using new_directory_run [OF mm] by blast
  let ?s = "st'\<lparr>cr3 := q\<rparr>"
  have ok: "fp_ok V st" "paging_ok st" "page_aligned V" using mm by (simp_all add: mm_ok_def fp_ok_def)
  have q: "page_aligned q" "frame q = q" "\<not> table_frame st q"
    using mm_ok_usable [OF mm] usable_frame by (auto simp: usable_def)
  have pde': "pde ?s k = (if k = 1023 then q OR 3 else if 768 \<le> k then pde st k else 0)" if "k < 1024" for k
    using st'(3) [OF that] by (simp add: pde_def)
  have old: "frame (pde st k) \<noteq> q" if "k < 1024" "present (pde st k)" for k
    using that q(3) by (auto simp: table_frame_def)
  have np: "\<not> present 0" by (simp add: present_def)
  have pg: "paging_ok ?s"
  proof -
    have "inj_on (\<lambda>k. frame (pde ?s k)) {k. k < 1024 \<and> present (pde ?s k)}"
    proof (rule inj_onI)
      fix k l assume kl: "k \<in> {k. k < 1024 \<and> present (pde ?s k)}" "l \<in> {k. k < 1024 \<and> present (pde ?s k)}"
        "frame (pde ?s k) = frame (pde ?s l)"
      then show "k = l"
        using old pde' np q(2) ok(2) by (auto simp: paging_ok_def inj_on_def split: if_splits)
    qed
    moreover have "(1023 :: u32) < 1024" by (simp add: word_less_nat_alt)
    ultimately show ?thesis using q(1) pde' by (simp add: paging_ok_def)
  qed
  have kernel: "translate ?s va = translate st va"
    if va: "768 \<le> dir_ix va" "dir_ix va \<noteq> 1023" "frame va \<noteq> V" for va
  proof (cases "present (pde st (dir_ix va))")
    case False
    then show ?thesis using pde' [OF ix_less(1)] va by (simp add: translate_eq [OF pg] translate_eq [OF ok(2)])
  next
    case True
    let ?a = "frame (pde st (dir_ix va)) + 4 * tab_ix va"
    have "frame ?a \<noteq> q" using old [OF ix_less(1) True] ix_less by (simp add: table_entry_frame)
    moreover have "?a \<noteq> fpte V st"
    proof
      assume eq: "?a = fpte V st"
      then have "frame (pde st (dir_ix va)) = frame (pde st (dir_ix V))"
        using fpte_frame(1) [OF ok(1)] table_entry_frame [OF page_aligned_frame ix_less(2)] by metis
      then have d: "dir_ix va = dir_ix V"
        using ok True ix_less by (auto simp: fp_ok_def paging_ok_def inj_on_def)
      with eq have "tab_ix va = tab_ix V" using ix_less by (simp add: fpte_def index_inj)
      with d have "frame va = frame V" by (rule same_page_ix)
      with va(3) ok(3) show False by (simp add: page_aligned_def)
    qed
    ultimately have "pte ?s (dir_ix va) (tab_ix va) = pte st (dir_ix va) (tab_ix va)"
      using st'(4) pde' [OF ix_less(1)] va by (simp add: pte_def)
    then show ?thesis using pde' [OF ix_less(1)] va by (simp add: translate_eq [OF pg] translate_eq [OF ok(2)])
  qed
  have "translate ?s va = Inl (BadAccess va)" if "dir_ix va < 768" for va
  proof -
    have "dir_ix va \<noteq> 1023" "\<not> 768 \<le> dir_ix va" using that by (auto simp: word_less_nat_alt word_le_nat_alt)
    then show ?thesis using pde' [OF ix_less(1)] np by (simp add: translate_eq [OF pg])
  qed
  with st'(1,2) pg kernel show ?thesis by blast
qed

theorem mm_new_page_directory_correct_witness:
  "\<exists>st. mm_new_page_directory 0xC0010000 2 example_mm = Inr (0x5000, st) \<and> paging_ok (st\<lparr>cr3 := 0x5000\<rparr>)"
  using mm_new_page_directory_correct [OF example_mm_ok] by blast

end
