(* ===== verification/Malloc.thy ===== *)
theory Malloc
  imports PageTables KString
begin

text \<open>
  The kernel heap of \<open>libk/src/all/stdlib/malloc.c\<close>: chunks that follow each other from
  \<open>heap_start\<close> to \<open>heap_end\<close>, each between a start marker and an end marker with a canary. The
  bytes of the heap are a flat memory; the pages that back it come from the page allocator, whose
  state is carried along.
\<close>

section \<open>State\<close>

record mm_ring_info =
  heap_semaphore :: u32
  heap_start :: u32
  heap_end :: u32
  stacks_semaphore :: u32
  stacks_start :: u32
  stacks_bitmaps_length :: u32
  stacks_bitmaps :: "u32 list"

record heap_state =
  h_mem :: mem
  h_info :: mm_ring_info
  h_mm :: mm_state

section \<open>Chunks\<close>

text \<open>\<open>A\<close> is \<open>alignof(max_align_t)\<close>, which the compiler chooses.\<close>

definition aligned_size :: "u32 \<Rightarrow> u32 \<Rightarrow> u32" where
  "aligned_size A sz = (let modulo = sz mod A in sz + (if modulo \<noteq> 0 then A - modulo else 0))"

definition CANARY :: u32 where
  "CANARY = 0xCAFEBABE"

text \<open>Both markers take eight bytes: the flag at 0 and the size at 4, the size at 0 and the canary at 4.\<close>

definition start_size :: "u32 \<Rightarrow> u32" where
  "start_size A = aligned_size A 8"

definition end_size :: "u32 \<Rightarrow> u32" where
  "end_size A = aligned_size A 8"

definition start_free :: "mem \<Rightarrow> u32 \<Rightarrow> bool" where
  "start_free m start \<longleftrightarrow> m start \<noteq> 0"

definition marker_size :: "mem \<Rightarrow> u32 \<Rightarrow> u32" where
  "marker_size m start = load32 m (start + 4)"

definition end_marker_size :: "mem \<Rightarrow> u32 \<Rightarrow> u32" where
  "end_marker_size m e = load32 m e"

definition end_canary :: "mem \<Rightarrow> u32 \<Rightarrow> u32" where
  "end_canary m e = load32 m (e + 4)"

definition mark_chunck :: "u32 \<Rightarrow> mem \<Rightarrow> u32 \<Rightarrow> u32 \<Rightarrow> bool \<Rightarrow> mem" where
  "mark_chunck A m insertion_point useable_size isFree =
     (let m = m(insertion_point := if isFree then 1 else 0);
          m = store32 m (insertion_point + 4) useable_size;
          e = insertion_point + useable_size + start_size A;
          m = store32 m e useable_size
      in store32 m (e + 4) CANARY)"

section \<open>Allocation\<close>

text \<open>
  The search for the best free chunk. The loop variables are \<open>ptr\<close>, \<open>last_marker\<close> (0 when there
  is none), \<open>best_ptr\<close> and \<open>best_size\<close>; \<open>None\<close> stands for a loop that never ends, as in a heap whose
  markers form a cycle.
\<close>

partial_function (option) heap_search ::
    "u32 \<Rightarrow> mem \<Rightarrow> u32 \<Rightarrow> u32 \<Rightarrow> u32 \<Rightarrow> u32 \<Rightarrow> u32 \<Rightarrow> u32 \<Rightarrow> (u32 \<times> u32 \<times> u32) option" where
  "heap_search A m hend useable_size ptr last_marker best_ptr best_size =
     (if ptr < hend then
        let last_marker = ptr; sz = marker_size m ptr
        in if start_free m ptr \<and> useable_size \<le> sz \<and> (best_ptr = 0 \<or> sz < best_size) then
             if sz = useable_size then Some (last_marker, ptr, sz)
             else heap_search A m hend useable_size (ptr + (sz + start_size A + end_size A)) last_marker ptr sz
           else heap_search A m hend useable_size (ptr + (sz + start_size A + end_size A)) last_marker best_ptr best_size
      else Some (last_marker, best_ptr, best_size))"

text \<open>One more page at the end of the heap.\<close>

definition heap_grow :: "u32 \<Rightarrow> u32 \<Rightarrow> heap_state \<Rightarrow> heap_state result" where
  "heap_grow V tid st =
     bindE (mm_alloc_physical_page V tid True (h_mm st)) (\<lambda>(new_page, mm).
     if new_page = 0 then Inl (Panic ''failed to increase heap size (alloc)'')
     else bindE (mm_map_page V tid mm new_page (heap_end (h_info st))) (\<lambda>(res, mm).
          if res \<noteq> 0 then Inl (Panic ''failed to increase heap size (map)'')
          else Inr (st\<lparr>h_mm := mm,
                       h_mem := (\<lambda>a. if in_range (heap_end (h_info st)) 4096 a then 0 else h_mem st a),
                       h_info := (h_info st)\<lparr>heap_end := heap_end (h_info st) + 4096\<rparr>\<rparr>)))"

partial_function (option) heap_extend ::
    "(heap_state \<Rightarrow> heap_state result) \<Rightarrow> u32 \<Rightarrow> u32 \<Rightarrow> heap_state \<Rightarrow> (u32 \<times> heap_state) result option" where
  "heap_extend grow needed free_size st =
     (if free_size < needed then
        (case grow st of
           Inl e \<Rightarrow> Some (Inl e)
         | Inr st \<Rightarrow> heap_extend grow needed (free_size + 4096) st)
      else Some (Inr (free_size, st)))"

definition heap_lock :: "u32 \<Rightarrow> heap_state \<Rightarrow> heap_state result" where
  "heap_lock tid st =
     (case semaphore_acquire tid (heap_semaphore (h_info st)) of
        None \<Rightarrow> Inl Blocked
      | Some l \<Rightarrow> Inr (st\<lparr>h_info := (h_info st)\<lparr>heap_semaphore := l\<rparr>\<rparr>))"

definition heap_unlock :: "heap_state \<Rightarrow> heap_state" where
  "heap_unlock st = st\<lparr>h_info := (h_info st)
     \<lparr>heap_semaphore := semaphore_release (heap_semaphore (h_info st))\<rparr>\<rparr>"

text \<open>The two ways to place the new chunk: in a free chunk, or at the end of the heap.\<close>

definition malloc_fit :: "u32 \<Rightarrow> u32 \<Rightarrow> u32 \<Rightarrow> u32 \<Rightarrow> heap_state \<Rightarrow> u32 \<times> heap_state" where
  "malloc_fit A useable_size best_ptr best_size st =
     (let s = start_size A; e = end_size A;
          (m, useable_size) =
            (if best_size > useable_size + s + e
             then (mark_chunck A (h_mem st) (best_ptr + useable_size + s + e)
                     (best_size - useable_size - s - e) True, useable_size)
             else (h_mem st, best_size))
      in (best_ptr + s, heap_unlock (st\<lparr>h_mem := mark_chunck A m best_ptr useable_size False\<rparr>)))"

definition malloc_extend ::
    "u32 \<Rightarrow> (heap_state \<Rightarrow> heap_state result) \<Rightarrow> u32 \<Rightarrow> u32 \<Rightarrow> heap_state \<Rightarrow> (u32 \<times> heap_state) result option" where
  "malloc_extend A grow useable_size last_marker st =
     (let s = start_size A; e = end_size A;
          (insertion_point, free_size) =
            (if last_marker = 0 \<or> \<not> start_free (h_mem st) last_marker then (heap_end (h_info st), 0)
             else (last_marker, marker_size (h_mem st) last_marker + s + e))
      in map_option
           (\<lambda>r. bindE r (\<lambda>(free_size, st).
              let (m, useable_size) =
                    (if free_size > useable_size + 2 * s + 2 * e
                     then (mark_chunck A (h_mem st) (insertion_point + useable_size + s + e)
                             (free_size - useable_size - 2 * s - 2 * e) True, useable_size)
                     else (h_mem st, free_size - s - e))
              in Inr (insertion_point + s,
                      heap_unlock (st\<lparr>h_mem := mark_chunck A m insertion_point useable_size False\<rparr>))))
           (heap_extend grow (useable_size + s + e) free_size st))"

definition malloc :: "u32 \<Rightarrow> u32 \<Rightarrow> u32 \<Rightarrow> u32 \<Rightarrow> heap_state \<Rightarrow> (u32 \<times> heap_state) result option" where
  "malloc A V tid sz st =
     (if sz = 0 then Some (Inr (0, st))
      else
        let useable_size = aligned_size A sz
        in case heap_lock tid st of
             Inl f \<Rightarrow> Some (Inl f)
           | Inr st \<Rightarrow>
               (case heap_search A (h_mem st) (heap_end (h_info st)) useable_size (heap_start (h_info st)) 0 0 0 of
                  None \<Rightarrow> None
                | Some (last_marker, best_ptr, best_size) \<Rightarrow>
                    if best_ptr \<noteq> 0 then Some (Inr (malloc_fit A useable_size best_ptr best_size st))
                    else malloc_extend A (heap_grow V tid) useable_size last_marker st))"

section \<open>Release\<close>

definition free_merge_after :: "u32 \<Rightarrow> mem \<Rightarrow> u32 \<Rightarrow> u32 \<Rightarrow> mem" where
  "free_merge_after A m hend ptr =
     (let start = ptr - start_size A;
          start_after = ptr + marker_size m start + end_size A
      in if start_after < hend \<and> start_free m start_after
         then mark_chunck A m start
                (marker_size m start + marker_size m start_after + start_size A + end_size A) True
         else m)"

definition free_merge_before :: "u32 \<Rightarrow> mem \<Rightarrow> u32 \<Rightarrow> u32 \<Rightarrow> mem result" where
  "free_merge_before A m hstart ptr =
     (let start = ptr - start_size A;
          end_before = ptr - start_size A - end_size A
      in if end_before > hstart then
           if end_canary m end_before \<noteq> CANARY then Inl (Panic ''Dead heap canary'')
           else
             let start_before = ptr - start_size A - end_size A - end_marker_size m end_before - start_size A
             in Inr (if start_free m start_before
                     then mark_chunck A m start_before
                            (marker_size m start + marker_size m start_before + start_size A + end_size A) True
                     else m)
         else Inr m)"

definition free :: "u32 \<Rightarrow> u32 \<Rightarrow> u32 \<Rightarrow> heap_state \<Rightarrow> heap_state result" where
  "free A tid ptr st =
     (if ptr = 0 then Inr st
      else
        let start = ptr - start_size A;
            e = ptr + marker_size (h_mem st) start
        in if end_canary (h_mem st) e \<noteq> CANARY then Inl (Panic ''Dead heap canary'')
           else bindE (heap_lock tid st) (\<lambda>st.
                let m = (h_mem st)(start := 1);
                    m = free_merge_after A m (heap_end (h_info st)) ptr
                in bindE (free_merge_before A m (heap_start (h_info st)) ptr) (\<lambda>m.
                   Inr (heap_unlock (st\<lparr>h_mem := m\<rparr>)))))"

definition realloc :: "u32 \<Rightarrow> u32 \<Rightarrow> u32 \<Rightarrow> u32 \<Rightarrow> u32 \<Rightarrow> heap_state \<Rightarrow> (u32 \<times> heap_state) result option" where
  "realloc A V tid ptr sz st =
     map_option
       (\<lambda>r. bindE r (\<lambda>(destptr, st).
          if destptr \<noteq> 0 \<and> ptr \<noteq> 0 then
            let init_size = marker_size (h_mem st) (ptr - start_size A);
                length_to_copy = (if sz < init_size then sz else init_size);
                st = st\<lparr>h_mem := snd (memcpy (h_mem st) destptr ptr length_to_copy)\<rparr>
            in bindE (free A tid ptr st) (\<lambda>st. Inr (destptr, st))
          else Inr (destptr, st)))
       (if sz \<noteq> 0 then malloc A V tid sz st else Some (Inr (0, st)))"

end
