(* ===== verification/HeapChunks.thy ===== *)
theory HeapChunks
  imports Malloc
begin

text \<open>
  The chunks of the kernel heap: memory read at natural addresses, the chain of chunks from the start
  of the heap to its end, what the search of \<open>malloc\<close> finds in it and what placing a chunk in a gap
  does to it.
\<close>

section \<open>Memory at natural addresses\<close>

lemma unat_of_nat_u32: "a < 4294967296 \<Longrightarrow> unat (of_nat a :: u32) = a"
  by (rule unat_of_nat_small) simp

lemma of_nat_u32_eq: "a < 4294967296 \<Longrightarrow> b < 4294967296 \<Longrightarrow> (of_nat a :: u32) = of_nat b \<longleftrightarrow> a = b"
  by (metis unat_of_nat_u32)

lemma store32_other:
  assumes "a < 4294967296" "x + 4 \<le> 4294967296" "a < x \<or> x + 4 \<le> a"
  shows "store32 m (of_nat x) v (of_nat a) = m (of_nat a)"
proof -
  have "(of_nat x :: u32) + 1 = of_nat (x + 1)" "(of_nat x :: u32) + 2 = of_nat (x + 2)" "(of_nat x :: u32) + 3 = of_nat (x + 3)"
    by simp_all
  moreover have "(of_nat a :: u32) \<noteq> of_nat (x + k)" if "k < 4" for k
    using assms that by (subst of_nat_u32_eq) auto
  from this [of 0] this [of 1] this [of 2] this [of 3]
  have "(of_nat a :: u32) \<noteq> of_nat x" "(of_nat a :: u32) \<noteq> of_nat (x + 1)" "(of_nat a :: u32) \<noteq> of_nat (x + 2)"
    "(of_nat a :: u32) \<noteq> of_nat (x + 3)" by simp_all
  ultimately show ?thesis unfolding store32_def by (simp only: fun_upd_apply if_False)
qed

lemma load32_cong:
  assumes "\<And>k. k < 4 \<Longrightarrow> m' (of_nat (x + k)) = m (of_nat (x + k))"
  shows "load32 m' (of_nat x) = load32 m (of_nat x)"
proof -
  have "m' (of_nat x + of_nat k) = m (of_nat x + of_nat k)" if "k < 4" for k using assms [OF that] by simp
  from this [of 0] this [of 1] this [of 2] this [of 3] show ?thesis by (simp add: load32_def)
qed

lemma load32_store32_other:
  assumes "x + 4 \<le> 4294967296" "y + 4 \<le> 4294967296" "y + 4 \<le> x \<or> x + 4 \<le> y"
  shows "load32 (store32 m (of_nat x) v) (of_nat y) = load32 m (of_nat y)"
  using assms by (intro load32_cong store32_other) auto

section \<open>Alignment\<close>

definition align_ok :: "u32 \<Rightarrow> bool" where
  "align_ok A \<longleftrightarrow> A \<in> {4, 8, 16}"

definition msize :: "u32 \<Rightarrow> nat" where
  "msize A = unat (start_size A)"

lemma marker_sizes:
  assumes "align_ok A"
  shows "start_size A = of_nat (msize A)" "end_size A = of_nat (msize A)" "msize A \<in> {8, 16}"
    "unat A dvd msize A"
  using assms by (auto simp: align_ok_def msize_def start_size_def end_size_def aligned_size_def)

lemma aligned_size_exact:
  assumes "align_ok A" "unat sz + unat A \<le> 4294967296"
  shows "unat (aligned_size A sz) = (unat sz + unat A - 1) div unat A * unat A"
    and "unat sz \<le> unat (aligned_size A sz)" and "unat (aligned_size A sz) < unat sz + unat A" 
    and "unat A dvd unat (aligned_size A sz)"
proof -
  let ?n = "unat sz" and ?A = "unat A"
  have A: "0 < ?A" "A \<noteq> 0" using assms(1) by (auto simp: align_ok_def)
  have m: "unat (sz mod A) = ?n mod ?A" by (simp add: unat_mod_distrib)
  have lt: "?n mod ?A < ?A" using A by simp
  have u: "unat (aligned_size A sz) = (if ?n mod ?A = 0 then ?n else ?n + (?A - ?n mod ?A))"
  proof (cases "?n mod ?A = 0")
    case True
    then have "sz mod A = 0" using m by (simp add: word_eq_unat_iff)
    then show ?thesis using True by (simp add: aligned_size_def)
  next
    case False
    then have nz: "sz mod A \<noteq> 0" using m by (auto simp: word_eq_unat_iff)
    have d: "unat (A - sz mod A) = ?A - ?n mod ?A" using unat_sub_small [of "sz mod A" A] m lt by simp
    have "unat (sz + (A - sz mod A)) = ?n + (?A - ?n mod ?A)"
      using unat_add_small [of sz "A - sz mod A"] d assms(2) False lt by simp
    then show ?thesis using nz False by (simp add: aligned_size_def Let_def)
  qed
  have e: "?n = ?n div ?A * ?A + ?n mod ?A" by simp
  show dvd: "?A dvd unat (aligned_size A sz)"
  proof (cases "?n mod ?A = 0")
    case False
    have "?n + (?A - ?n mod ?A) = ?n div ?A * ?A + ?A" using lt e by linarith
    then show ?thesis using u False by simp
  qed (simp add: u dvd_eq_mod_eq_0)
  show "?n \<le> unat (aligned_size A sz)" using u by simp
  show less: "unat (aligned_size A sz) < ?n + ?A" using u A by auto
  show "unat (aligned_size A sz) = (?n + ?A - 1) div ?A * ?A"
  proof -
    obtain k where k: "unat (aligned_size A sz) = ?A * k" using dvd by blast
    have "(?n + ?A - 1) div ?A = k"
      using k less \<open>?n \<le> unat (aligned_size A sz)\<close> A(1)
      by (intro div_nat_eqI) (simp_all add: algebra_simps)
    then show ?thesis using k by simp
  qed
qed

lemma aligned_size_wraps:
  assumes "align_ok A" "4294967296 < unat sz + unat A"
  shows "aligned_size A sz = 0"
proof -
  let ?n = "unat sz" and ?A = "unat A"
  have A: "0 < ?A" "A \<noteq> 0" "?A dvd 4294967296" using assms(1) by (auto simp: align_ok_def)
  obtain k where k: "4294967296 = ?A * k" using A(3) by blast
  have n: "?n < 4294967296" by simp
  have k1: "?A * (k - 1) = 4294967296 - ?A" using k by (simp add: diff_mult_distrib2)
  have "0 < k" using k by (cases k) auto
  then have k2: "?A * Suc (k - 1) = 4294967296" using k by simp
  have "?n div ?A = k - 1"
    using assms(2) n k1 k2 by (intro div_nat_eqI) linarith+
  then have "?n mod ?A = ?n - (4294967296 - ?A)" 
    using k1 by (metis minus_mult_div_eq_mod)
  moreover have "?A < 4294967296" by simp
  ultimately have md: "unat (sz mod A) = ?n + ?A - 4294967296"
    using assms(2) unfolding unat_mod_distrib by linarith
  have nz: "sz mod A \<noteq> 0"
  proof
    assume "sz mod A = 0"
    then have "unat (sz mod A) = 0" by (simp only: unsigned_0)
    with md assms(2) show False by linarith
  qed
  have "unat (sz mod A) \<le> ?A" using md n by linarith
  then have "unat (A - sz mod A) = ?A - unat (sz mod A)" by (rule unat_sub_small)
  then have "unat (A - sz mod A) = 4294967296 - ?n" using md n assms(2) by linarith
  moreover have "A - sz mod A = of_nat (unat (A - sz mod A))" by simp
  ultimately have "sz + (A - sz mod A) = sz + of_nat (4294967296 - ?n)" by (simp only:)
  also have "\<dots> = of_nat (?n + (4294967296 - ?n))" by (simp del: of_nat_diff)
  also have "?n + (4294967296 - ?n) = 4294967296" using n by linarith
  also have "(of_nat 4294967296 :: u32) = 0" by simp
  finally show ?thesis using nz by (simp add: aligned_size_def Let_def)
qed

section \<open>The chunks of a heap\<close>

text \<open>The chunk whose start marker is at the address \<open>p\<close> has \<open>sz\<close> usable bytes.\<close>

definition chunk_at :: "u32 \<Rightarrow> mem \<Rightarrow> nat \<Rightarrow> nat \<Rightarrow> bool \<Rightarrow> bool" where
  "chunk_at A m p sz fr \<longleftrightarrow>
     start_free m (of_nat p) = fr \<and> marker_size m (of_nat p) = of_nat sz
     \<and> end_marker_size m (of_nat (p + msize A + sz)) = of_nat sz
     \<and> end_canary m (of_nat (p + msize A + sz)) = CANARY \<and> unat A dvd sz"

text \<open>The chunks from one address up to another.\<close>

fun chunks :: "u32 \<Rightarrow> mem \<Rightarrow> nat \<Rightarrow> nat \<Rightarrow> (nat \<times> bool) list \<Rightarrow> bool" where
  "chunks A m p q [] \<longleftrightarrow> p = q"
| "chunks A m p q ((sz, fr) # cs) \<longleftrightarrow>
     chunk_at A m p sz fr \<and> chunks A m (p + sz + 2 * msize A) q cs"

fun span :: "u32 \<Rightarrow> (nat \<times> bool) list \<Rightarrow> nat" where
  "span A [] = 0"
| "span A ((sz, fr) # cs) = sz + 2 * msize A + span A cs"

lemma span_append [simp]: "span A (cs @ ds) = span A cs + span A ds"
  by (induction cs) auto

lemma chunks_span: "chunks A m p q cs \<Longrightarrow> q = p + span A cs"
proof (induction cs arbitrary: p)
  case (Cons c cs)
  obtain sz fr where c: "c = (sz, fr)" by (cases c)
  then have "chunks A m (p + sz + 2 * msize A) q cs" using Cons.prems by simp
  from Cons.IH [OF this] show ?case by (simp add: c)
qed simp

lemma chunks_append:
  "chunks A m p q (cs @ ds) \<longleftrightarrow> chunks A m p (p + span A cs) cs \<and> chunks A m (p + span A cs) q ds"
proof (induction cs arbitrary: p)
  case (Cons c cs)
  then show ?case by (cases c) (auto simp: algebra_simps)
qed simp

lemma chunk_at_cong:
  assumes "chunk_at A m p sz fr" "8 \<le> msize A" "\<And>a. p \<le> a \<Longrightarrow> a < p + sz + 2 * msize A \<Longrightarrow> m' (of_nat a) = m (of_nat a)"
  shows "chunk_at A m' p sz fr"
proof -
  have "load32 m' (of_nat x) = load32 m (of_nat x)" if "p \<le> x" "x + 4 \<le> p + sz + 2 * msize A" for x
    by (intro load32_cong assms(3)) (use that in linarith)+
  from this [of "p + 4"] this [of "p + msize A + sz"] this [of "p + msize A + sz + 4"]
  have "load32 m' (of_nat p + 4) = load32 m (of_nat p + 4)"
    "load32 m' (of_nat (p + msize A + sz)) = load32 m (of_nat (p + msize A + sz))"
    "load32 m' (of_nat (p + msize A + sz) + 4) = load32 m (of_nat (p + msize A + sz) + 4)"
    using assms(2) by simp_all
  moreover have "m' (of_nat p) = m (of_nat p)" using assms(2,3) by simp
  ultimately show ?thesis
    using assms(1) unfolding chunk_at_def start_free_def marker_size_def end_marker_size_def end_canary_def by metis
qed

lemma chunks_cong:
  assumes "chunks A m p q cs" "8 \<le> msize A" "\<And>a. p \<le> a \<Longrightarrow> a < q \<Longrightarrow> m' (of_nat a) = m (of_nat a)"
  shows "chunks A m' p q cs"
  using assms
proof (induction cs arbitrary: p)
  case (Cons c cs)
  obtain sz fr where c: "c = (sz, fr)" by (cases c)
  have "q = p + span A (c # cs)" using chunks_span [OF Cons.prems(1)] .
  then have le: "p + sz + 2 * msize A \<le> q" by (simp add: c)
  have ch: "chunk_at A m p sz fr" "chunks A m (p + sz + 2 * msize A) q cs" using Cons.prems(1) c by simp_all
  have "chunk_at A m' p sz fr"
    by (rule chunk_at_cong [OF ch(1) Cons.prems(2)], rule Cons.prems(3)) (use le in linarith)+
  moreover have "chunks A m' (p + sz + 2 * msize A) q cs"
    by (rule Cons.IH [OF ch(2) Cons.prems(2)], rule Cons.prems(3)) linarith+
  ultimately show ?case by (simp add: c)
qed simp

text \<open>The effect of \<open>mark_chunck\<close>.\<close>

lemma mark_chunck_effect:
  fixes m :: mem and fr :: bool
  assumes A: "align_ok A" and b: "p + us + 2 * msize A \<le> 4294967296" "unat A dvd us"
  defines "m' \<equiv> mark_chunck A m (of_nat p) (of_nat us) fr"
  shows "chunk_at A m' p us fr"
    and "\<And>a. a < 4294967296 \<Longrightarrow> \<not> (p \<le> a \<and> a < p + msize A) \<Longrightarrow>
           \<not> (p + msize A + us \<le> a \<and> a < p + us + 2 * msize A) \<Longrightarrow> m' (of_nat a) = m (of_nat a)"
proof -
  note K = marker_sizes [OF A]
  have K8: "8 \<le> msize A" using K(3) by auto
  let ?e = "p + us + msize A"
  define m1 where "m1 = m(of_nat p := if fr then 1 else 0)"
  define m2 where "m2 = store32 m1 (of_nat (p + 4)) (of_nat us)"
  define m3 where "m3 = store32 m2 (of_nat ?e) (of_nat us)"
  have m': "m' = store32 m3 (of_nat (?e + 4)) CANARY"
    unfolding m'_def mark_chunck_def Let_def K(1) m3_def m2_def m1_def by (simp add: add.assoc)
  have o: "m' (of_nat a) = m2 (of_nat a)" if "a < 4294967296" "a < ?e \<or> ?e + 8 \<le> a" for a
  proof -
    have "m' (of_nat a) = m3 (of_nat a)"
      unfolding m' by (rule store32_other) (use that b K8 in linarith)+
    also have "\<dots> = m2 (of_nat a)" unfolding m3_def by (rule store32_other) (use that b K8 in linarith)+
    finally show ?thesis .
  qed
  have o2: "m2 (of_nat a) = m1 (of_nat a)" if "a < 4294967296" "a < p + 4 \<or> p + 8 \<le> a" for a
    unfolding m2_def by (rule store32_other) (use that b K8 in linarith)+
  have o1: "m1 (of_nat a) = m (of_nat a)" if "a < 4294967296" "a \<noteq> p" for a
    unfolding m1_def using that b K8 by (simp add: of_nat_u32_eq)
  have "m' (of_nat p) = m1 (of_nat p)" using o [of p] o2 [of p] b K8 by simp
  then have f: "start_free m' (of_nat p) = fr" by (simp add: start_free_def m1_def)
  have "load32 m' (of_nat (p + 4)) = load32 m2 (of_nat (p + 4))"
    using b K8 by (intro load32_cong o) auto
  also have "\<dots> = of_nat us" unfolding m2_def by (rule load32_store32)
  finally have sz: "marker_size m' (of_nat p) = of_nat us" by (simp add: marker_size_def)
  have "load32 m' (of_nat ?e) = load32 m3 (of_nat ?e)"
    unfolding m' using b K8 by (intro load32_store32_other) auto
  also have "\<dots> = of_nat us" unfolding m3_def by (rule load32_store32)
  finally have es: "load32 m' (of_nat ?e) = of_nat us" .
  have ec: "load32 m' (of_nat (?e + 4)) = CANARY" unfolding m' by (rule load32_store32)
  have pe: "p + msize A + us = ?e" by simp
  show "chunk_at A m' p us fr"
    using f sz es ec b(2) unfolding chunk_at_def end_marker_size_def end_canary_def pe by simp
  show "m' (of_nat a) = m (of_nat a)" if "a < 4294967296" "\<not> (p \<le> a \<and> a < p + msize A)"
      "\<not> (p + msize A + us \<le> a \<and> a < p + us + 2 * msize A)" for a
    using that o [of a] o2 [of a] o1 [of a] K8 by auto
qed

section \<open>The search\<close>

lemma heap_search_result:
  assumes A: "align_ok A" and "chunks A m p q cs" "0 < p" "q < 4294967296"
  shows "\<exists>lm' bp' bs'. heap_search A m (of_nat q) us (of_nat p) lm bp bs = Some (lm', bp', bs')
    \<and> (bp' = bp \<and> bs' = bs
       \<or> (\<exists>pre sz post. cs = pre @ (sz, True) # post \<and> bp' = of_nat (p + span A pre) \<and> bs' = of_nat sz \<and> unat us \<le> sz))
    \<and> (bp' = 0 \<longrightarrow> bp = 0 \<and> (\<forall>sz. (sz, True) \<in> set cs \<longrightarrow> sz < unat us)
         \<and> lm' = (if cs = [] then lm else of_nat (p + span A (butlast cs))))
    \<and> (bp' \<noteq> 0 \<longrightarrow> (\<forall>sz. (sz, True) \<in> set cs \<longrightarrow> unat us \<le> sz \<longrightarrow> unat bs' \<le> sz))
    \<and> (bp \<noteq> 0 \<longrightarrow> bs' \<le> bs)"
  using assms(2,3)
proof (induction cs arbitrary: p lm bp bs)
  case Nil
  then show ?case by (subst heap_search.simps) simp
next
  case (Cons c cs)
  obtain sz fr where c: "c = (sz, fr)" by (cases c)
  let ?p' = "p + sz + 2 * msize A"
  note K = marker_sizes [OF A]
  have ch: "chunk_at A m p sz fr" "chunks A m ?p' q cs" using Cons.prems(1) c by simp_all
  have "q = p + span A (c # cs)" by (rule chunks_span [OF Cons.prems(1)])
  then have q: "q = ?p' + span A cs" by (simp add: c)
  have K8: "8 \<le> msize A" using K(3) by auto
  have bnd: "p < q" "sz < 4294967296" "p < 4294967296" using q K8 assms(4) by linarith+
  have lt: "(of_nat p :: u32) < of_nat q"
    using bnd assms(4) by (simp add: word_less_nat_alt unat_of_nat_u32)
  have nz: "(of_nat p :: u32) \<noteq> 0" using of_nat_u32_eq [of p 0] bnd Cons.prems(2) by simp
  have msz: "marker_size m (of_nat p) = of_nat sz" "start_free m (of_nat p) = fr"
    using ch(1) by (simp_all add: chunk_at_def)
  have usz: "unat (of_nat sz :: u32) = sz" using bnd by (simp add: unat_of_nat_u32)
  have nx: "of_nat p + (of_nat sz + start_size A + end_size A) = (of_nat ?p' :: u32)"
    unfolding K(1,2) by (simp add: algebra_simps)
  have step: "heap_search A m (of_nat q) us (of_nat p) lm bp bs =
      (if fr \<and> us \<le> of_nat sz \<and> (bp = 0 \<or> of_nat sz < bs)
       then if of_nat sz = us then Some (of_nat p, of_nat p, of_nat sz)
            else heap_search A m (of_nat q) us (of_nat ?p') (of_nat p) (of_nat p) (of_nat sz)
       else heap_search A m (of_nat q) us (of_nat ?p') (of_nat p) bp bs)"
    by (subst heap_search.simps) (simp only: lt if_True Let_def msz nx)
  have ih: "\<exists>lm' bp' bs'. heap_search A m (of_nat q) us (of_nat ?p') l b s = Some (lm', bp', bs')
    \<and> (bp' = b \<and> bs' = s
       \<or> (\<exists>pre sz post. cs = pre @ (sz, True) # post \<and> bp' = of_nat (?p' + span A pre) \<and> bs' = of_nat sz \<and> unat us \<le> sz))
    \<and> (bp' = 0 \<longrightarrow> b = 0 \<and> (\<forall>sz. (sz, True) \<in> set cs \<longrightarrow> sz < unat us)
         \<and> lm' = (if cs = [] then l else of_nat (?p' + span A (butlast cs))))
    \<and> (bp' \<noteq> 0 \<longrightarrow> (\<forall>sz. (sz, True) \<in> set cs \<longrightarrow> unat us \<le> sz \<longrightarrow> unat bs' \<le> sz))
    \<and> (b \<noteq> 0 \<longrightarrow> bs' \<le> s)" for l b s
    by (rule Cons.IH [OF ch(2)]) (use K8 in simp)
  have sp: "?p' + span A pre = p + span A (c # pre)" for pre by (simp add: c)
  show ?case
  proof (cases "fr \<and> us \<le> of_nat sz \<and> (bp = 0 \<or> of_nat sz < bs)")
    case take: True
    then have us: "unat us \<le> sz" using usz by (simp add: word_le_nat_alt)
    show ?thesis
    proof (cases "of_nat sz = us")
      case True
      have ex: "\<exists>pre sz' post. c # cs = pre @ (sz', True) # post \<and> (of_nat p :: u32) = of_nat (p + span A pre)
          \<and> (of_nat sz :: u32) = of_nat sz' \<and> unat us \<le> sz'"
        by (rule exI [of _ "[]"]) (use take us c in auto)
      have "bp \<noteq> 0 \<longrightarrow> (of_nat sz :: u32) \<le> bs" using take by (auto simp: less_imp_le)
      moreover have "\<forall>sz'. (sz', True) \<in> set (c # cs) \<longrightarrow> unat us \<le> sz' \<longrightarrow> unat (of_nat sz :: u32) \<le> sz'"
        using True by simp
      ultimately show ?thesis
        unfolding step if_P [OF take] if_P [OF True] using ex nz
        by (intro exI [of _ "of_nat p"] exI [of _ "of_nat sz"]) blast
    next
      case False
      obtain l' b' s' where r: "heap_search A m (of_nat q) us (of_nat ?p') (of_nat p) (of_nat p) (of_nat sz) = Some (l', b', s')"
        "b' = of_nat p \<and> s' = of_nat sz
          \<or> (\<exists>pre sz post. cs = pre @ (sz, True) # post \<and> b' = of_nat (?p' + span A pre) \<and> s' = of_nat sz \<and> unat us \<le> sz)"
        "b' = 0 \<longrightarrow> (of_nat p :: u32) = 0"
        "b' \<noteq> 0 \<longrightarrow> (\<forall>sz. (sz, True) \<in> set cs \<longrightarrow> unat us \<le> sz \<longrightarrow> unat s' \<le> sz)"
        "s' \<le> of_nat sz"
        using ih [of "of_nat p" "of_nat p" "of_nat sz"] nz by blast
      have "\<exists>pre sz' post. c # cs = pre @ (sz', True) # post \<and> b' = of_nat (p + span A pre) \<and> s' = of_nat sz' \<and> unat us \<le> sz'"
        using r(2)
      proof (elim disjE exE conjE)
        assume "b' = of_nat p" "s' = of_nat sz"
        then show ?thesis by (intro exI [of _ "[]"]) (use take us c in auto)
      next
        fix pre sz' post
        assume "cs = pre @ (sz', True) # post" "b' = of_nat (?p' + span A pre)" "s' = of_nat sz'" "unat us \<le> sz'"
        then show ?thesis unfolding sp by (intro exI [of _ "c # pre"]) auto
      qed
      moreover have "unat s' \<le> sz" using r(5) usz by (simp add: word_le_nat_alt)
      moreover have "bp \<noteq> 0 \<longrightarrow> s' \<le> bs" using r(5) take by auto
      moreover have "b' \<noteq> 0" using r(3) nz by blast
      ultimately show ?thesis
        using step take False r(1,4) c by (auto simp del: of_nat_add)
    qed
  next
    case skip: False
    obtain l' b' s' where r: "heap_search A m (of_nat q) us (of_nat ?p') (of_nat p) bp bs = Some (l', b', s')"
      "b' = bp \<and> s' = bs
        \<or> (\<exists>pre sz post. cs = pre @ (sz, True) # post \<and> b' = of_nat (?p' + span A pre) \<and> s' = of_nat sz \<and> unat us \<le> sz)"
      "b' = 0 \<longrightarrow> bp = 0 \<and> (\<forall>sz. (sz, True) \<in> set cs \<longrightarrow> sz < unat us)
         \<and> l' = (if cs = [] then of_nat p else of_nat (?p' + span A (butlast cs)))"
      "b' \<noteq> 0 \<longrightarrow> (\<forall>sz. (sz, True) \<in> set cs \<longrightarrow> unat us \<le> sz \<longrightarrow> unat s' \<le> sz)"
      "bp \<noteq> 0 \<longrightarrow> s' \<le> bs"
      using ih [of "of_nat p" bp bs] by blast
    have "b' = bp \<and> s' = bs \<or> (\<exists>pre sz' post. c # cs = pre @ (sz', True) # post \<and> b' = of_nat (p + span A pre)
        \<and> s' = of_nat sz' \<and> unat us \<le> sz')"
      using r(2)
    proof (elim disjE exE)
      fix pre sz' post
      assume "cs = pre @ (sz', True) # post \<and> b' = of_nat (?p' + span A pre) \<and> s' = of_nat sz' \<and> unat us \<le> sz'"
      then show ?thesis unfolding sp by (intro disjI2 exI [of _ "c # pre"]) auto
    qed simp
    moreover have "b' = 0 \<longrightarrow> (\<forall>sz'. (sz', True) \<in> set (c # cs) \<longrightarrow> sz' < unat us)"
      using skip r(3) c usz by (auto simp: word_le_nat_alt)
    moreover have "b' = 0 \<longrightarrow> l' = of_nat (p + span A (butlast (c # cs)))"
      using r(3) sp by (cases "cs = []") auto
    moreover have "unat s' \<le> sz" if "b' \<noteq> 0" "fr" "unat us \<le> sz"
    proof -
      have "bp \<noteq> 0" "\<not> (of_nat sz :: u32) < bs" using skip that usz by (auto simp: word_le_nat_alt)
      then have "s' \<le> bs" "bs \<le> of_nat sz" using r(5) by auto
      then show ?thesis using usz by (simp add: word_le_nat_alt)
    qed
    ultimately show ?thesis
      using step skip r(1,3,4,5) c by (auto simp del: of_nat_add)
  qed
qed

section \<open>Placing a chunk in a gap\<close>

text \<open>The used chunks, as pairs of the address and the number of usable bytes.\<close>

fun allocs :: "u32 \<Rightarrow> nat \<Rightarrow> (nat \<times> bool) list \<Rightarrow> (nat \<times> nat) set" where
  "allocs A p [] = {}"
| "allocs A p ((sz, fr) # cs) =
     (if fr then {} else {(p + msize A, sz)}) \<union> allocs A (p + sz + 2 * msize A) cs"

lemma allocs_append: "allocs A p (cs @ ds) = allocs A p cs \<union> allocs A (p + span A cs) ds"
proof (induction cs arbitrary: p)
  case (Cons c cs)
  obtain sz fr where c: "c = (sz, fr)" by (cases c)
  have "p + sz + 2 * msize A + span A cs = p + span A (c # cs)" by (simp add: c)
  then have "allocs A (p + sz + 2 * msize A) (cs @ ds)
      = allocs A (p + sz + 2 * msize A) cs \<union> allocs A (p + span A (c # cs)) ds"
    using Cons.IH [of "p + sz + 2 * msize A"] by (simp only:)
  then show ?case by (simp only: c append_Cons allocs.simps Un_assoc)
qed simp

lemma allocs_range:
  "(a, n) \<in> allocs A p cs \<Longrightarrow> p + msize A \<le> a \<and> a + n + msize A \<le> p + span A cs"
proof (induction cs arbitrary: p)
  case (Cons c cs)
  obtain sz fr where c: "c = (sz, fr)" by (cases c)
  show ?case
  proof (cases "(a, n) \<in> allocs A (p + sz + 2 * msize A) cs")
    case True
    from Cons.IH [OF this] show ?thesis by (simp add: c)
  next
    case False
    then show ?thesis using Cons.prems by (auto simp: c split: if_splits)
  qed
qed simp

definition fill_gap :: "u32 \<Rightarrow> mem \<Rightarrow> nat \<Rightarrow> nat \<Rightarrow> nat \<Rightarrow> mem" where
  "fill_gap A m a len us =
     (if len > us + 4 * msize A
      then mark_chunck A (mark_chunck A m (of_nat (a + us + 2 * msize A)) (of_nat (len - us - 4 * msize A)) True)
             (of_nat a) (of_nat us) False
      else mark_chunck A m (of_nat a) (of_nat (len - 2 * msize A)) False)"

lemma fill_gap_chunks:
  assumes A: "align_ok A" and pre: "chunks A m p a pre" and post: "chunks A m (a + len) q post"
    and q: "q < 4294967296" and us: "us + 2 * msize A \<le> len" "unat A dvd us" "unat A dvd len"
  defines "cs \<equiv> (if len > us + 4 * msize A then [(us, False), (len - us - 4 * msize A, True)] else [(len - 2 * msize A, False)])"
  shows "chunks A (fill_gap A m a len us) p q (pre @ cs @ post)"
    and "\<And>x. x < 4294967296 \<Longrightarrow> \<not> (a \<le> x \<and> x < a + len) \<Longrightarrow> fill_gap A m a len us (of_nat x) = m (of_nat x)"
proof -
  note K = marker_sizes [OF A]
  let ?K = "msize A"
  have K8: "8 \<le> ?K" using K(3) by auto
  have ap: "a = p + span A pre" by (rule chunks_span [OF pre])
  have qp: "q = a + len + span A post" by (rule chunks_span [OF post])
  have rest: "chunks A (fill_gap A m a len us) p q (pre @ cs @ post)
      \<and> (\<forall>x < 4294967296. \<not> (a \<le> x \<and> x < a + len) \<longrightarrow> fill_gap A m a len us (of_nat x) = m (of_nat x))"
    if gap: "chunks A (fill_gap A m a len us) a (a + len) cs"
      and out: "\<And>x. x < 4294967296 \<Longrightarrow> \<not> (a \<le> x \<and> x < a + len) \<Longrightarrow> fill_gap A m a len us (of_nat x) = m (of_nat x)"
  proof -
    have "chunks A (fill_gap A m a len us) p a pre"
      by (rule chunks_cong [OF pre K8], rule out) (use q qp in linarith)+
    moreover have "chunks A (fill_gap A m a len us) (a + len) q post"
      by (rule chunks_cong [OF post K8], rule out) (use q qp in linarith)+
    moreover have "a + span A cs = a + len" using chunks_span [OF gap] by simp
    ultimately show ?thesis using gap ap out by (simp add: chunks_append)
  qed
  have "chunks A (fill_gap A m a len us) a (a + len) cs
      \<and> (\<forall>x < 4294967296. \<not> (a \<le> x \<and> x < a + len) \<longrightarrow> fill_gap A m a len us (of_nat x) = m (of_nat x))"
  proof (cases "len > us + 4 * ?K")
    case True
    let ?r = "len - us - 4 * ?K" and ?b = "a + us + 2 * ?K"
    have "unat A dvd 4 * ?K" using K(4) by simp
    then have dr: "unat A dvd ?r" using us by (intro dvd_diff_nat) auto
    define m1 where "m1 = mark_chunck A m (of_nat ?b) (of_nat ?r) True"
    define m2 where "m2 = mark_chunck A m1 (of_nat a) (of_nat us) False"
    have f: "fill_gap A m a len us = m2" using True by (simp add: fill_gap_def m2_def m1_def)
    have b1: "?b + ?r + 2 * ?K \<le> 4294967296" using True q qp by linarith
    have b2: "a + us + 2 * ?K \<le> 4294967296" using True q qp by linarith
    note e1 = mark_chunck_effect [OF A b1 dr, where m = m and fr = True, folded m1_def]
    note e2 = mark_chunck_effect [OF A b2 us(2), where m = m1 and fr = False, folded m2_def]
    have "chunk_at A m2 ?b ?r True"
      by (rule chunk_at_cong [OF e1(1) K8], rule e2(2)) (use b1 in linarith)+
    moreover have "?b + ?r + 2 * ?K = a + len" using True by simp
    ultimately have "chunks A m2 a (a + len) cs" using e2(1) True by (simp add: cs_def)
    moreover have "m2 (of_nat x) = m (of_nat x)" if "x < 4294967296" "\<not> (a \<le> x \<and> x < a + len)" for x
    proof -
      have "m2 (of_nat x) = m1 (of_nat x)" by (rule e2(2)) (use that True in linarith)+
      also have "\<dots> = m (of_nat x)" by (rule e1(2)) (use that True in linarith)+
      finally show ?thesis .
    qed
    ultimately show ?thesis unfolding f by blast
  next
    case False
    let ?r = "len - 2 * ?K"
    define m2 where "m2 = mark_chunck A m (of_nat a) (of_nat ?r) False"
    have f: "fill_gap A m a len us = m2" using False by (simp add: fill_gap_def m2_def)
    have "unat A dvd 2 * ?K" using K(4) by simp
    then have dr: "unat A dvd ?r" using us by (intro dvd_diff_nat) auto
    have b: "a + ?r + 2 * ?K \<le> 4294967296" using us q qp by linarith
    note e2 = mark_chunck_effect [OF A b dr, where m = m and fr = False, folded m2_def]
    have "a + ?r + 2 * ?K = a + len" using us by simp
    then have "chunks A m2 a (a + len) cs" using e2(1) False by (simp add: cs_def)
    moreover have "m2 (of_nat x) = m (of_nat x)" if "x < 4294967296" "\<not> (a \<le> x \<and> x < a + len)" for x
      by (rule e2(2)) (use that us in linarith)+
    ultimately show ?thesis unfolding f by blast
  qed
  then have "chunks A (fill_gap A m a len us) p q (pre @ cs @ post)
      \<and> (\<forall>x < 4294967296. \<not> (a \<le> x \<and> x < a + len) \<longrightarrow> fill_gap A m a len us (of_nat x) = m (of_nat x))"
    using rest by blast
  then show "chunks A (fill_gap A m a len us) p q (pre @ cs @ post)"
    and "\<And>x. x < 4294967296 \<Longrightarrow> \<not> (a \<le> x \<and> x < a + len) \<Longrightarrow> fill_gap A m a len us (of_nat x) = m (of_nat x)"
    by blast+
qed

text \<open>What an allocation promises, whichever way the chunk is placed.\<close>

definition heap_ok :: "u32 \<Rightarrow> heap_state \<Rightarrow> (nat \<times> bool) list \<Rightarrow> bool" where
  "heap_ok A st cs \<longleftrightarrow>
     align_ok A \<and> chunks A (h_mem st) (unat (heap_start (h_info st))) (unat (heap_end (h_info st))) cs
     \<and> msize A \<le> unat (heap_start (h_info st)) \<and> unat A dvd unat (heap_start (h_info st))"

definition heap_allocs :: "u32 \<Rightarrow> heap_state \<Rightarrow> (nat \<times> bool) list \<Rightarrow> (nat \<times> nat) set" where
  "heap_allocs A st cs = allocs A (unat (heap_start (h_info st))) cs"

definition contents_kept :: "(nat \<times> nat) set \<Rightarrow> mem \<Rightarrow> mem \<Rightarrow> bool" where
  "contents_kept B m m' \<longleftrightarrow> (\<forall>(a, n) \<in> B. \<forall>i < n. m' (of_nat (a + i)) = m (of_nat (a + i)))"

text \<open>The bytes below \<open>p\<close> and from \<open>q\<close> on.\<close>

definition outside_kept :: "nat \<Rightarrow> nat \<Rightarrow> mem \<Rightarrow> mem \<Rightarrow> bool" where
  "outside_kept p q m m' \<longleftrightarrow> (\<forall>x < 4294967296. x < p \<or> q \<le> x \<longrightarrow> m' (of_nat x) = m (of_nat x))"

lemma outside_kept_mono: "outside_kept p q m m' \<Longrightarrow> p' \<le> p \<Longrightarrow> q \<le> q' \<Longrightarrow> outside_kept p' q' m m'"
  by (auto simp: outside_kept_def)

lemma outside_kept_trans: "outside_kept p q m m1 \<Longrightarrow> outside_kept p q m1 m2 \<Longrightarrow> outside_kept p q m m2"
  by (simp add: outside_kept_def)

lemma span_dvd: "align_ok A \<Longrightarrow> chunks A m p q cs \<Longrightarrow> unat A dvd span A cs"
proof (induction cs arbitrary: p)
  case (Cons c cs)
  obtain sz fr where c: "c = (sz, fr)" by (cases c)
  then have "unat A dvd sz" "unat A dvd span A cs" using Cons by (auto simp: chunk_at_def)
  moreover have "unat A dvd 2 * msize A" using marker_sizes(4) [OF Cons.prems(1)] by simp
  ultimately show ?case by (simp add: c)
qed simp

lemma fill_gap_alloc:
  assumes A: "align_ok A" and pre: "chunks A m p a pre" and post: "chunks A m (a + len) q post"
    and q: "q < 4294967296" and us: "us + 2 * msize A \<le> len" "unat A dvd us" "unat A dvd len"
    and old: "B = allocs A p pre \<union> allocs A (a + len) post"
  shows "\<exists>cs sz. chunks A (fill_gap A m a len us) p q cs \<and> us \<le> sz
    \<and> allocs A p cs = insert (a + msize A, sz) B \<and> (\<forall>n. (a + msize A, n) \<notin> B)
    \<and> contents_kept B m (fill_gap A m a len us) \<and> outside_kept a (a + len) m (fill_gap A m a len us)"
proof -
  let ?K = "msize A"
  have K8: "8 \<le> ?K" using marker_sizes(3) [OF A] by auto
  have ap: "a = p + span A pre" by (rule chunks_span [OF pre])
  have qp: "q = a + len + span A post" by (rule chunks_span [OF post])
  let ?cs = "if len > us + 4 * ?K then [(us, False), (len - us - 4 * ?K, True)] else [(len - 2 * ?K, False)]"
  note f = fill_gap_chunks [OF A pre post q us]
  have sp: "a + span A ?cs = a + len" using us by auto
  have inB: "x + n + ?K \<le> a \<or> a + len + ?K \<le> x" if "(x, n) \<in> B" for x n
    using that allocs_range [of x n A p pre] allocs_range [of x n A "a + len" post] ap by (auto simp: old)
  have al: "allocs A p (pre @ ?cs @ post)
      = insert (a + ?K, if len > us + 4 * ?K then us else len - 2 * ?K) B"
    using sp by (auto simp: allocs_append old ap [symmetric])
  have nb: "(a + ?K, n) \<notin> B" for n using inB [of "a + ?K" n] us K8 by auto
  have "contents_kept B m (fill_gap A m a len us)"
    unfolding contents_kept_def
  proof (clarify)
    fix x n i assume xn: "(x, n) \<in> B" "i < n"
    have "x + n < 4294967296"
      using xn(1) allocs_range [of x n A p pre] allocs_range [of x n A "a + len" post] ap q qp K8 by (auto simp: old)
    then show "fill_gap A m a len us (of_nat (x + i)) = m (of_nat (x + i))"
      using inB [OF xn(1)] xn(2) by (intro f(2)) auto
  qed
  moreover have "us \<le> (if len > us + 4 * ?K then us else len - 2 * ?K)" using us by auto
  moreover have "outside_kept a (a + len) m (fill_gap A m a len us)"
    using f(2) by (simp add: outside_kept_def not_less)
  ultimately show ?thesis using f(1) al nb by blast
qed

end
