(* ===== verification/HeapSpec.thy ===== *)
theory HeapSpec
  imports HeapChunks
begin

text \<open>
  What \<open>malloc\<close>, \<open>free\<close> and \<open>realloc\<close> do to the chunks of the heap. Growth is an interface,
  \<open>heap_supply\<close>, that the page allocator implements.
\<close>

section \<open>Allocation in a free chunk\<close>

lemma of_nat_less_u32: "a < 4294967296 \<Longrightarrow> b < 4294967296 \<Longrightarrow> (of_nat a :: u32) < of_nat b \<longleftrightarrow> a < b"
  by (simp add: word_less_nat_alt unat_of_nat_u32)

lemma malloc_fit_eq:
  assumes A: "align_ok A" and b: "a + bs + 2 * msize A < 4294967296" "n \<le> bs"
  shows "malloc_fit A (of_nat n) (of_nat a) (of_nat bs) st
    = (of_nat (a + msize A), heap_unlock (st\<lparr>h_mem := fill_gap A (h_mem st) a (bs + 2 * msize A) n\<rparr>))"
proof -
  note K = marker_sizes [OF A]
  let ?K = "msize A"
  have w: "of_nat n + of_nat ?K + of_nat ?K = (of_nat (n + 2 * ?K) :: u32)"
    "of_nat a + of_nat n + of_nat ?K + of_nat ?K = (of_nat (a + n + 2 * ?K) :: u32)" by simp_all
  have c: "(of_nat (n + 2 * ?K) :: u32) < of_nat bs \<longleftrightarrow> bs + 2 * ?K > n + 4 * ?K"
    using b by (subst of_nat_less_u32) linarith+
  have r: "of_nat bs - of_nat n - of_nat ?K - of_nat ?K = (of_nat (bs + 2 * ?K - n - 4 * ?K) :: u32)"
    if "bs + 2 * ?K > n + 4 * ?K"
  proof -
    have "bs = (bs + 2 * ?K - n - 4 * ?K) + n + 2 * ?K" using that by simp
    then have "(of_nat bs :: u32) = of_nat ((bs + 2 * ?K - n - 4 * ?K) + n + 2 * ?K)" by (rule arg_cong)
    then show ?thesis by (simp del: of_nat_diff)
  qed
  have d: "bs + 2 * ?K - 2 * ?K = bs" by simp
  have pk: "of_nat a + of_nat ?K = (of_nat (a + ?K) :: u32)" by simp
  show ?thesis
    unfolding malloc_fit_def Let_def K(1,2) w c fill_gap_def
    using r by (cases "bs + 2 * ?K > n + 4 * ?K") (simp_all add: d pk del: of_nat_add of_nat_diff)
qed

lemma extend_place_eq:
  assumes A: "align_ok A" and b: "a + len < 4294967296" "n + 2 * msize A \<le> len" "n + 4 * msize A < 4294967296"
  shows "(let (m', useable_size) =
      (if of_nat len > of_nat n + 2 * start_size A + 2 * end_size A
       then (mark_chunck A m (of_nat a + of_nat n + start_size A + end_size A)
               (of_nat len - of_nat n - 2 * start_size A - 2 * end_size A) True, of_nat n)
       else (m, of_nat len - start_size A - end_size A))
     in mark_chunck A m' (of_nat a) useable_size False) = fill_gap A m a len n"
proof -
  note K = marker_sizes [OF A]
  let ?K = "msize A"
  have w: "of_nat n + 2 * of_nat ?K + 2 * of_nat ?K = (of_nat (n + 4 * ?K) :: u32)"
    "of_nat a + of_nat n + of_nat ?K + of_nat ?K = (of_nat (a + n + 2 * ?K) :: u32)" by simp_all
  have c: "(of_nat (n + 4 * ?K) :: u32) < of_nat len \<longleftrightarrow> len > n + 4 * ?K"
    using b by (subst of_nat_less_u32) linarith+
  have r: "of_nat len - of_nat n - 2 * of_nat ?K - 2 * of_nat ?K = (of_nat (len - n - 4 * ?K) :: u32)"
    if "len > n + 4 * ?K"
  proof -
    have "len = (len - n - 4 * ?K) + n + 4 * ?K" using that by simp
    then have "(of_nat len :: u32) = of_nat ((len - n - 4 * ?K) + n + 4 * ?K)" by (rule arg_cong)
    then show ?thesis by (simp del: of_nat_diff)
  qed
  have d: "of_nat len - of_nat ?K - of_nat ?K = (of_nat (len - 2 * ?K) :: u32)"
  proof -
    have "len = (len - 2 * ?K) + 2 * ?K" using b by simp
    then have "(of_nat len :: u32) = of_nat ((len - 2 * ?K) + 2 * ?K)" by (rule arg_cong)
    then show ?thesis by (simp del: of_nat_diff)
  qed
  show ?thesis
    unfolding Let_def K(1,2) w c d fill_gap_def
    using r by (cases "len > n + 4 * ?K") (simp_all del: of_nat_add of_nat_diff)
qed

section \<open>Growing the heap\<close>

text \<open>
  What \<open>malloc\<close> relies on to extend the heap: as long as there is \<open>room\<close> for pages, one call of
  \<open>grow\<close> moves the end of the heap up by a page and touches no other byte.
\<close>

locale heap_supply =
  fixes room :: "heap_state \<Rightarrow> nat \<Rightarrow> bool"
    and grow :: "heap_state \<Rightarrow> heap_state result"
  assumes room_bound: "room st n \<Longrightarrow> unat (heap_end (h_info st)) + 4096 * n < 4294967296"
    and room_aligned: "room st n \<Longrightarrow> page_aligned (heap_end (h_info st))"
    and room_unlock: "room (heap_unlock st) n = room st n"
    and room_mem: "room (st\<lparr>h_mem := m\<rparr>) n = room st n"
    and grow_page: "room st (Suc n) \<Longrightarrow> \<exists>st'. grow st = Inr st' \<and> room st' n
      \<and> h_info st' = (h_info st)\<lparr>heap_end := heap_end (h_info st) + 4096\<rparr>
      \<and> (\<forall>a. \<not> in_range (heap_end (h_info st)) 4096 a \<longrightarrow> h_mem st' a = h_mem st a)"
begin

lemma grow_end:
  assumes "room st (Suc n)"
  shows "unat (heap_end (h_info st) + 4096) = unat (heap_end (h_info st)) + 4096"
  using room_bound [OF assms] by (subst unat_add_small) simp_all

lemma grow_frame:
  assumes "room st (Suc n)" "grow st = Inr st'"
  shows "outside_kept (unat (heap_end (h_info st))) (unat (heap_end (h_info st)) + 4096) (h_mem st) (h_mem st')"
  unfolding outside_kept_def
proof (intro allI impI)
  let ?e = "unat (heap_end (h_info st))"
  fix a :: nat assume a: "a < 4294967296" "a < ?e \<or> ?e + 4096 \<le> a"
  have "in_range (0 + of_nat ?e) (of_nat 4096) (0 + of_nat a) \<longleftrightarrow> ?e \<le> a \<and> a < ?e + 4096"
    using room_bound [OF assms(1)] a by (intro in_range_offsets) simp_all
  then have "\<not> in_range (heap_end (h_info st)) 4096 (of_nat a)" using a by auto
  then show "h_mem st' (of_nat a) = h_mem st (of_nat a)" using grow_page [OF assms(1)] assms(2) by auto
qed

lemma heap_extend_runs:
  assumes "room st n" "need \<le> fs + 4096 * n" "fs + 4096 * n < 4294967296"
  shows "\<exists>k st'. k \<le> n \<and> heap_extend grow (of_nat need) (of_nat fs) st = Some (Inr (of_nat (fs + 4096 * k), st'))
    \<and> need \<le> fs + 4096 * k \<and> (k = 0 \<or> fs + 4096 * k < need + 4096) \<and> room st' (n - k)
    \<and> h_info st' = (h_info st)\<lparr>heap_end := heap_end (h_info st) + of_nat (4096 * k)\<rparr>
    \<and> outside_kept (unat (heap_end (h_info st))) (unat (heap_end (h_info st)) + 4096 * k) (h_mem st) (h_mem st')"
  using assms
proof (induction n arbitrary: fs st)
  case 0
  then have "\<not> (of_nat fs :: u32) < of_nat need" by (subst of_nat_less_u32) simp_all
  then have "heap_extend grow (of_nat need) (of_nat fs) st = Some (Inr (of_nat fs, st))"
    by (subst heap_extend.simps) simp
  then show ?case using 0 by (intro exI [of _ 0]) (simp add: outside_kept_def)
next
  case (Suc n)
  have c: "(of_nat fs :: u32) < of_nat need \<longleftrightarrow> fs < need"
    using Suc.prems by (subst of_nat_less_u32) linarith+
  show ?case
  proof (cases "fs < need")
    case False
    then have "heap_extend grow (of_nat need) (of_nat fs) st = Some (Inr (of_nat fs, st))"
      using c by (subst heap_extend.simps) simp
    then show ?thesis using Suc.prems False by (intro exI [of _ 0]) (simp add: outside_kept_def)
  next
    case True
    obtain s1 where s1: "grow st = Inr s1" "room s1 n"
        "h_info s1 = (h_info st)\<lparr>heap_end := heap_end (h_info st) + 4096\<rparr>"
      using grow_page [OF Suc.prems(1)] by blast
    have e1: "unat (heap_end (h_info s1)) = unat (heap_end (h_info st)) + 4096"
      using grow_end [OF Suc.prems(1)] s1(3) by simp
    have "heap_extend grow (of_nat need) (of_nat fs) st = heap_extend grow (of_nat need) (of_nat (fs + 4096)) s1"
      using c True s1(1) by (subst heap_extend.simps) simp
    moreover obtain k st' where k: "k \<le> n"
        "heap_extend grow (of_nat need) (of_nat (fs + 4096)) s1 = Some (Inr (of_nat (fs + 4096 + 4096 * k), st'))"
        "need \<le> fs + 4096 + 4096 * k" "k = 0 \<or> fs + 4096 + 4096 * k < need + 4096" "room st' (n - k)"
        "h_info st' = (h_info s1)\<lparr>heap_end := heap_end (h_info s1) + of_nat (4096 * k)\<rparr>"
        "outside_kept (unat (heap_end (h_info s1))) (unat (heap_end (h_info s1)) + 4096 * k) (h_mem s1) (h_mem st')"
      using Suc.IH [OF s1(2), of "fs + 4096"] Suc.prems(2,3) by auto
    moreover have "outside_kept (unat (heap_end (h_info st))) (unat (heap_end (h_info st)) + 4096 * Suc k) (h_mem st) (h_mem st')"
      using k(7) e1 by (intro outside_kept_trans [OF outside_kept_mono [OF grow_frame [OF Suc.prems(1) s1(1)]] outside_kept_mono [OF k(7)]]) simp_all
    moreover have "fs + 4096 * Suc k < need + 4096" using k(4) True by auto
    moreover have "fs + 4096 + 4096 * k = fs + 4096 * Suc k" by simp
    ultimately show ?thesis using s1(3)
      by (intro exI [of _ "Suc k"] exI [of _ st']) (auto simp: add.assoc)
  qed
qed

text \<open>The end of the heap as a gap: the last chunk if it is free, and what grows behind it.\<close>

lemma end_gap:
  assumes A: "align_ok A" and ch: "chunks A m p q cs" and p: "0 < p" "q < 4294967296"
    and last: "lm = (if cs = [] then 0 else of_nat (p + span A (butlast cs)))"
  obtains a pre where "chunks A m p a pre" "a \<le> q" "allocs A p pre = allocs A p cs" "unat A dvd q - a"
    "(if lm = 0 \<or> \<not> start_free m lm then (of_nat q, 0) else (lm, marker_size m lm + start_size A + end_size A))
      = (of_nat a, of_nat (q - a) :: u32)"
proof (cases cs rule: rev_cases)
  case Nil
  then show ?thesis using that [of q "[]"] ch last by simp
next
  case (snoc ds d)
  obtain sz fr where d: "d = (sz, fr)" by (cases d)
  let ?a = "p + span A ds"
  have c: "chunks A m p ?a ds" "chunk_at A m ?a sz fr" and q: "q = ?a + sz + 2 * msize A"
    using ch by (simp_all add: snoc d chunks_append)
  have lm: "lm = of_nat ?a" using last by (simp add: snoc)
  have nz: "(of_nat ?a :: u32) \<noteq> 0" using of_nat_u32_eq [of ?a 0] p q by simp
  have m: "start_free m (of_nat ?a) = fr" "marker_size m (of_nat ?a) = of_nat sz" using c(2) by (simp_all add: chunk_at_def)
  show ?thesis
  proof (cases fr)
    case True
    have "allocs A p cs = allocs A p ds" by (simp add: snoc d True allocs_append)
    moreover have "unat A dvd sz + 2 * msize A"
      using c(2) marker_sizes(4) [OF A] by (auto simp: chunk_at_def intro: dvd_add)
    ultimately show ?thesis
      using that [of ?a ds] c(1) q lm nz m True by (simp add: marker_sizes(1,2) [OF A] algebra_simps)
  next
    case False
    then show ?thesis using that [of q cs] ch lm nz m by simp
  qed
qed

lemma malloc_extend_alloc:
  assumes A: "align_ok A" and ch: "chunks A (h_mem st) p (unat (heap_end (h_info st))) cs" and p: "0 < p"
    and lm: "lm = (if cs = [] then 0 else of_nat (p + span A (butlast cs)))"
    and us: "unat A dvd n" and room: "room st N" "n + 2 * msize A \<le> 4096 * N"
  obtains a k m' cs' sz st' where
    "malloc_extend A grow (of_nat n) lm st = Some (Inr (of_nat a, heap_unlock (st'\<lparr>h_mem := m'\<rparr>)))"
    "k \<le> N" "room st' (N - k)"
    "h_info st' = (h_info st)\<lparr>heap_end := heap_end (h_info st) + of_nat (4096 * k)\<rparr>"
    "chunks A m' p (unat (heap_end (h_info st'))) cs'" "n \<le> sz"
    "allocs A p cs' = insert (a, sz) (allocs A p cs)" "\<forall>l. (a, l) \<notin> allocs A p cs"
    "contents_kept (allocs A p cs) (h_mem st) m'" "outside_kept p (unat (heap_end (h_info st'))) (h_mem st) m'"
    "unat (heap_end (h_info st')) = unat (heap_end (h_info st)) + 4096 * k" "4096 * k < n + 2 * msize A + 4096"
proof -
  let ?q = "unat (heap_end (h_info st))" and ?K = "msize A"
  note K = marker_sizes [OF A]
  have K8: "8 \<le> ?K" "?K \<le> 16" using K(3) by auto
  have qN: "?q + 4096 * N < 4294967296" by (rule room_bound [OF room(1)])
  have q: "?q < 4294967296" by simp
  have pq: "p \<le> ?q" using chunks_span [OF ch] by simp
  have "?q mod 4096 = 0" using room_aligned [OF room(1)] by (simp add: page_aligned_iff)
  then have q4: "4096 \<le> ?q" using pq p by (cases "?q < 4096") auto
  obtain a pre where g: "chunks A (h_mem st) p a pre" "a \<le> ?q" "allocs A p pre = allocs A p cs" "unat A dvd ?q - a"
    "(if lm = 0 \<or> \<not> start_free (h_mem st) lm then (of_nat ?q, 0)
      else (lm, marker_size (h_mem st) lm + start_size A + end_size A)) = (of_nat a, of_nat (?q - a) :: u32)"
    by (rule end_gap [OF A ch p q lm])
  have he: "of_nat ?q = heap_end (h_info st)" by simp
  have g5: "(if lm = 0 \<or> \<not> start_free (h_mem st) lm then (heap_end (h_info st), 0)
      else (lm, marker_size (h_mem st) lm + start_size A + end_size A)) = (of_nat a, of_nat (?q - a) :: u32)"
    using g(5) unfolding he .
  have need: "of_nat n + start_size A + end_size A = (of_nat (n + 2 * ?K) :: u32)" unfolding K(1,2) by simp
  have le: "n + 2 * ?K \<le> (?q - a) + 4096 * N" "(?q - a) + 4096 * N < 4294967296" using room(2) qN by linarith+
  obtain k s1 where k: "k \<le> N"
      "heap_extend grow (of_nat (n + 2 * ?K)) (of_nat (?q - a)) st = Some (Inr (of_nat (?q - a + 4096 * k), s1))"
      "n + 2 * ?K \<le> ?q - a + 4096 * k" "k = 0 \<or> ?q - a + 4096 * k < n + 2 * ?K + 4096" "room s1 (N - k)"
      "h_info s1 = (h_info st)\<lparr>heap_end := heap_end (h_info st) + of_nat (4096 * k)\<rparr>"
      "outside_kept ?q (?q + 4096 * k) (h_mem st) (h_mem s1)"
    using heap_extend_runs [OF room(1) le] by blast
  have k6: "\<forall>x < ?q. h_mem s1 (of_nat x) = h_mem st (of_nat x)"
  proof (intro allI impI)
    fix x assume x: "x < ?q"
    then have "x < 4294967296" using q by linarith
    then show "h_mem s1 (of_nat x) = h_mem st (of_nat x)" using k(7) x unfolding outside_kept_def by blast
  qed
  let ?len = "?q - a + 4096 * k"
  have few: "4096 * k < n + 2 * ?K + 4096" using k(4) by auto
  have kN: "?q + 4096 * k < 4294967296" using qN k(1) by (meson add_left_mono le_less_trans mult_le_mono2)
  have q': "unat (heap_end (h_info s1)) = ?q + 4096 * k"
    using k(6) unat_add_of_nat [of "heap_end (h_info st)" "4096 * k"] kN by simp
  have al: "a + ?len = ?q + 4096 * k" using g(2) by simp
  have pre1: "chunks A (h_mem s1) p a pre"
    by (rule chunks_cong [OF g(1) K8(1)]) (use k6 g(2) in auto)
  have post1: "chunks A (h_mem s1) (a + ?len) (?q + 4096 * k) []" using al by simp
  have dl: "unat A dvd ?len" using g(4) A by (intro dvd_add) (auto simp: align_ok_def)
  obtain cs' sz where f: "chunks A (fill_gap A (h_mem s1) a ?len n) p (?q + 4096 * k) cs'" "n \<le> sz"
      "allocs A p cs' = insert (a + ?K, sz) (allocs A p cs)" "\<forall>l. (a + ?K, l) \<notin> allocs A p cs"
      "contents_kept (allocs A p cs) (h_mem s1) (fill_gap A (h_mem s1) a ?len n)"
      "outside_kept a (a + ?len) (h_mem s1) (fill_gap A (h_mem s1) a ?len n)"
    using fill_gap_alloc [OF A pre1 post1 kN k(3) us dl, of "allocs A p cs"] g(3) by auto
  have pa: "p \<le> a" "p \<le> ?q" using chunks_span [OF g(1)] pq by simp_all
  have out: "outside_kept p (unat (heap_end (h_info s1))) (h_mem st) (fill_gap A (h_mem s1) a ?len n)"
    unfolding q' by (rule outside_kept_trans [OF outside_kept_mono [OF k(7)] outside_kept_mono [OF f(6)]]) (use pa al in simp_all)
  have "contents_kept (allocs A p cs) (h_mem st) (fill_gap A (h_mem s1) a ?len n)"
    unfolding contents_kept_def
  proof (clarify)
    fix x l i assume x: "(x, l) \<in> allocs A p cs" "i < l"
    have "x + l \<le> ?q" using allocs_range [OF x(1)] chunks_span [OF ch] by simp
    then show "fill_gap A (h_mem s1) a ?len n (of_nat (x + i)) = h_mem st (of_nat (x + i))"
    proof -
      have "x + i < ?q" using \<open>x + l \<le> ?q\<close> x(2) by linarith
      then have "h_mem s1 (of_nat (x + i)) = h_mem st (of_nat (x + i))" using k6 by blast
      moreover have "fill_gap A (h_mem s1) a ?len n (of_nat (x + i)) = h_mem s1 (of_nat (x + i))"
        using bspec [OF f(5) [unfolded contents_kept_def] x(1)] x(2) by blast
      ultimately show ?thesis by (simp only:)
    qed
  qed
  moreover have "malloc_extend A grow (of_nat n) lm st
      = Some (Inr (of_nat (a + ?K), heap_unlock (s1\<lparr>h_mem := fill_gap A (h_mem s1) a ?len n\<rparr>)))"
  proof -
    have "n + 4 * ?K < 4294967296" using room(2) qN q4 K8 by linarith
    note pl = extend_place_eq [OF A _ k(3) this, of a "h_mem s1"]
    have "a + ?len < 4294967296" using al kN by simp
    note pl = pl [OF this]
    have ak: "of_nat a + start_size A = (of_nat (a + ?K) :: u32)" unfolding K(1) by simp
    show ?thesis
      unfolding malloc_extend_def Let_def g5 prod.case need k(2) option.map bindE_simps ak pl [symmetric]
      by (simp split: prod.splits)
  qed
  ultimately show ?thesis using that k(1,5,6) f(1) [folded q'] f(2-4) out q' few by blast
qed

end

section \<open>The page allocator as the supply of the heap\<close>

definition heap_room :: "u32 \<Rightarrow> u32 \<Rightarrow> heap_state \<Rightarrow> nat \<Rightarrow> bool" where
  "heap_room V tid st n \<longleftrightarrow>
     (\<exists>ps. mm_ok V tid (h_mm st) ps \<and> 2 * n \<le> length ps) \<and> mtx_lock (mm_mutex (h_mm st)) = 0
     \<and> page_aligned (heap_end (h_info st)) \<and> heap_end (h_info st) \<noteq> 0
     \<and> unat (heap_end (h_info st)) + 4096 * n < 4294967296
     \<and> (\<forall>k<n. va_unused (h_mm st) (heap_end (h_info st) + of_nat (4096 * k))
          \<and> dir_ix (heap_end (h_info st) + of_nat (4096 * k)) \<noteq> 1023
          \<and> frame (heap_end (h_info st) + of_nat (4096 * k)) \<noteq> V)"

lemma page_aligned_step:
  assumes "page_aligned p" "unat p + 4096 * k < 4294967296"
  shows "page_aligned (p + of_nat (4096 * k))"
proof -
  have "unat (p + of_nat (4096 * k)) = unat p + 4096 * k" using assms(2) by (intro unat_add_of_nat) simp
  then show ?thesis using assms(1) by (simp add: page_aligned_iff mod_mult_self2 del: of_nat_mult)
qed

lemma heap_grow_page:
  assumes "heap_room V tid st (Suc n)"
  shows "\<exists>st'. heap_grow V tid st = Inr st' \<and> heap_room V tid st' n
      \<and> h_info st' = (h_info st)\<lparr>heap_end := heap_end (h_info st) + 4096\<rparr>
      \<and> (\<forall>a. \<not> in_range (heap_end (h_info st)) 4096 a \<longrightarrow> h_mem st' a = h_mem st a)"
proof -
  let ?he = "heap_end (h_info st)" and ?va = "\<lambda>k. heap_end (h_info st) + of_nat (4096 * k)"
  obtain qs where qs: "mm_ok V tid (h_mm st) qs" "2 * Suc n \<le> length qs"
    using assms by (auto simp: heap_room_def)
  obtain p ps where ps: "qs = p # ps" using qs(2) by (cases qs) auto
  note mm = qs(1) [unfolded ps]
  have len: "2 * n + 1 \<le> length ps" using qs(2) ps by simp
  have r: "mtx_lock (mm_mutex (h_mm st)) = 0" "page_aligned ?he" "?he \<noteq> 0" "unat ?he + 4096 * Suc n < 4294967296"
    using assms by (simp_all add: heap_room_def)
  have va: "va_unused (h_mm st) (?va k)" "dir_ix (?va k) \<noteq> 1023" "frame (?va k) \<noteq> V" if "k < Suc n" for k
    using assms that unfolding heap_room_def by blast+
  have va0: "va_unused (h_mm st) ?he" "dir_ix ?he \<noteq> 1023" "frame ?he \<noteq> V" using va [of 0] by simp_all
  obtain m1 where m1: "mm_alloc_physical_page V tid True (h_mm st) = Inr (p, m1)" "mm_ok V tid m1 ps"
      "mm_mutex m1 = mm_mutex (h_mm st)"
    using alloc_page [OF mm, of True] by blast
  have p0: "p \<noteq> 0" using mm_ok_usable [OF mm, of p] by (simp add: usable_def)
  have u1: "va_unused m1 (?va k)" if "k < Suc n" for k
    using alloc_unused [OF mm va(1,2) m1(1)] that by blast
  have "mtx_lock (mm_mutex m1) = 0" using m1(3) r(1) by simp
  moreover have "va_unused m1 ?he" using u1 [of 0] by simp
  moreover have "ps \<noteq> []" using len by auto
  ultimately obtain m2 where m2: "mm_map_page V tid m1 p ?he = Inr (0, m2)"
      "mm_ok V tid m2 (if present (pde m1 (dir_ix ?he)) then ps else tl ps)"
      "mm_mutex m2 = mm_mutex m1"
      "\<forall>va'. dir_ix va' \<noteq> 1023 \<longrightarrow> frame va' \<noteq> frame ?he \<longrightarrow> va_unused m1 va' \<longrightarrow> va_unused m2 va'"
    using map_page_step [OF m1(2) _ p0 r(3) va0(2,3)] by blast
  define st' where "st' = st\<lparr>h_mm := m2, h_mem := (\<lambda>a. if in_range ?he 4096 a then 0 else h_mem st a),
      h_info := (h_info st)\<lparr>heap_end := ?he + 4096\<rparr>\<rparr>"
  have st': "h_mm st' = m2" "h_info st' = (h_info st)\<lparr>heap_end := ?he + 4096\<rparr>" "heap_end (h_info st') = ?va 1"
    by (simp_all add: st'_def)
  have run: "heap_grow V tid st = Inr st'"
    unfolding heap_grow_def m1(1) bindE_simps prod.case using p0 m2(1) by (simp add: st'_def)
  have un: "unat (?va k) = unat ?he + 4096 * k" if "k \<le> Suc n" for k
    using r(4) that by (intro unat_add_of_nat) simp
  have pa: "page_aligned (?va k)" if "k \<le> Suc n" for k
    using r(2,4) that by (intro page_aligned_step) simp_all
  have "va_unused m2 (?va (Suc k))" if "k < n" for k
  proof -
    have "frame (?va (Suc k)) = ?va (Suc k)" "frame ?he = ?he" using pa [of "Suc k"] that r(2) by (simp_all add: page_aligned_def)
    moreover have "unat (?va (Suc k)) \<noteq> unat ?he" using un [of "Suc k"] that by simp
    ultimately have "frame (?va (Suc k)) \<noteq> frame ?he" by metis
    then show ?thesis using m2(4) u1 va(2) that by blast
  qed
  moreover have nx: "?va 1 + of_nat (4096 * k) = ?va (Suc k)" for k by (simp add: algebra_simps)
  moreover have "2 * n \<le> length (if present (pde m1 (dir_ix ?he)) then ps else tl ps)" using len by (cases ps) auto
  moreover have "?va 1 \<noteq> 0"
  proof
    assume "?va 1 = 0"
    then have "unat (?va 1) = 0" by (simp only: unsigned_0)
    then show False using un [of 1] by simp
  qed
  moreover have "mtx_lock (mm_mutex m2) = 0" using m2(3) m1(3) r(1) by simp
  moreover have "unat (?va 1) + 4096 * n < 4294967296" using un [of 1] r(4) by simp
  moreover have "page_aligned (?va 1)" using pa [of 1] by simp
  moreover have "dir_ix (?va (Suc k)) \<noteq> 1023" "frame (?va (Suc k)) \<noteq> V" if "k < n" for k
    using va(2,3) [of "Suc k"] that by simp_all
  ultimately have "heap_room V tid st' n"
    unfolding heap_room_def st'(1,3) nx using m2(2) by blast
  moreover have "\<forall>a. \<not> in_range ?he 4096 a \<longrightarrow> h_mem st' a = h_mem st a" by (simp add: st'_def)
  ultimately show ?thesis using run st'(2) by blast
qed

interpretation heap: heap_supply "heap_room V tid" "heap_grow V tid" for V tid
proof
  fix st :: heap_state and n m
  show "heap_room V tid st n \<Longrightarrow> unat (heap_end (h_info st)) + 4096 * n < 4294967296"
    and "heap_room V tid st n \<Longrightarrow> page_aligned (heap_end (h_info st))"
    by (simp_all add: heap_room_def)
  show "heap_room V tid (heap_unlock st) n = heap_room V tid st n"
    and "heap_room V tid (st\<lparr>h_mem := m\<rparr>) n = heap_room V tid st n"
    by (simp_all add: heap_room_def heap_unlock_def)
qed (rule heap_grow_page)

section \<open>Allocation\<close>

lemma allocs_disjoint:
  "(a, n) \<in> allocs A p cs \<Longrightarrow> (b, l) \<in> allocs A p cs \<Longrightarrow> (a, n) \<noteq> (b, l) \<Longrightarrow> a + n \<le> b \<or> b + l \<le> a"
proof (induction cs arbitrary: p)
  case (Cons c cs)
  obtain sz fr where c: "c = (sz, fr)" by (cases c)
  let ?p = "p + sz + 2 * msize A"
  show ?case
  proof (cases "(a, n) \<in> allocs A ?p cs \<and> (b, l) \<in> allocs A ?p cs")
    case True
    then show ?thesis using Cons.IH Cons.prems(3) by blast
  next
    case False
    then consider "(a, n) = (p + msize A, sz)" "(b, l) \<in> allocs A ?p cs"
      | "(b, l) = (p + msize A, sz)" "(a, n) \<in> allocs A ?p cs"
      using Cons.prems by (auto simp: c split: if_splits)
    then show ?thesis using allocs_range [of _ _ A ?p cs] by cases fastforce+
  qed
qed simp

lemma allocs_aligned:
  assumes A: "align_ok A" and "chunks A m p q cs" "unat A dvd p" "(a, n) \<in> allocs A p cs"
  shows "unat A dvd a"
  using assms(2-4)
proof (induction cs arbitrary: p)
  case (Cons c cs)
  obtain sz fr where c: "c = (sz, fr)" by (cases c)
  have ch: "chunks A m (p + sz + 2 * msize A) q cs" "unat A dvd sz" using Cons.prems(1) by (auto simp: c chunk_at_def)
  have K: "unat A dvd msize A" by (rule marker_sizes(4) [OF A])
  then have "unat A dvd p + sz + 2 * msize A" "unat A dvd p + msize A" using Cons.prems(2) ch(2) by simp_all
  then show ?case using Cons.IH [OF ch(1)] Cons.prems(3) by (auto simp: c split: if_splits)
qed simp

lemma heap_allocs_bound:
  assumes "heap_ok A st cs" "(a, n) \<in> heap_allocs A st cs"
  shows "a + n + msize A \<le> unat (heap_end (h_info st))" "unat (heap_start (h_info st)) + msize A \<le> a" "unat A dvd a"
    "a + n < 4294967296"
proof -
  have h: "align_ok A" "chunks A (h_mem st) (unat (heap_start (h_info st))) (unat (heap_end (h_info st))) cs"
    "unat A dvd unat (heap_start (h_info st))"
    using assms(1) by (simp_all add: heap_ok_def)
  show 1: "a + n + msize A \<le> unat (heap_end (h_info st))" "unat (heap_start (h_info st)) + msize A \<le> a"
    using allocs_range [OF assms(2) [unfolded heap_allocs_def]] chunks_span [OF h(2)] by simp_all
  show "unat A dvd a" using allocs_aligned [OF h(1,2,3)] assms(2) by (simp add: heap_allocs_def)
  have "unat (heap_end (h_info st)) < 4294967296" by simp
  then show "a + n < 4294967296" using 1 by linarith
qed

lemma heap_lock_free:
  assumes "heap_semaphore (h_info st) = 0"
  obtains l where "heap_lock tid st = Inr (st\<lparr>h_info := (h_info st)\<lparr>heap_semaphore := l\<rparr>\<rparr>)"
  using assms by (auto simp: heap_lock_def semaphore_acquire_def)

lemma heap_unlock_simps [simp]:
  "h_mem (heap_unlock st) = h_mem st" "h_mm (heap_unlock st) = h_mm st"
  "heap_start (h_info (heap_unlock st)) = heap_start (h_info st)"
  "heap_end (h_info (heap_unlock st)) = heap_end (h_info st)"
  "heap_semaphore (h_info (heap_unlock st)) = 0"
  by (simp_all add: heap_unlock_def semaphore_release_def)

lemma malloc_run:
  assumes ok: "heap_ok A st cs" and room: "heap_room V tid st N" "n + 2 * msize A \<le> 4096 * N"
    and n: "unat A dvd n" "aligned_size A sz = of_nat n" and sz: "sz \<noteq> 0" and sem: "heap_semaphore (h_info st) = 0"
  obtains a m' cs' len st' k where
    "malloc A V tid sz st = Some (Inr (of_nat a, heap_unlock (st'\<lparr>h_mem := m'\<rparr>)))"
    "k \<le> N" "heap_room V tid st' (N - k)" "heap_start (h_info st') = heap_start (h_info st)"
    "chunks A m' (unat (heap_start (h_info st))) (unat (heap_end (h_info st'))) cs'" "n \<le> len"
    "allocs A (unat (heap_start (h_info st))) cs' = insert (a, len) (heap_allocs A st cs)"
    "\<forall>l. (a, l) \<notin> heap_allocs A st cs" "contents_kept (heap_allocs A st cs) (h_mem st) m'"
    "outside_kept (unat (heap_start (h_info st))) (unat (heap_end (h_info st'))) (h_mem st) m'"
    "unat (heap_end (h_info st')) = unat (heap_end (h_info st)) + 4096 * k" "4096 * k < n + 2 * msize A + 4096"
proof -
  let ?p = "unat (heap_start (h_info st))" and ?q = "unat (heap_end (h_info st))"
  have h1: "align_ok A" "chunks A (h_mem st) ?p ?q cs" "msize A \<le> ?p"
    using ok by (simp_all add: heap_ok_def)
  have "8 \<le> msize A" using marker_sizes(3) [OF h1(1)] by auto
  then have "0 < ?p" using h1(3) by linarith
  note h = h1(1,2) this
  have "?q + 4096 * N < 4294967296" using heap.room_bound [OF room(1)] .
  then have n32: "n < 4294967296" using room(2) by linarith
  obtain l where l: "heap_lock tid st = Inr (st\<lparr>h_info := (h_info st)\<lparr>heap_semaphore := l\<rparr>\<rparr>)"
    by (rule heap_lock_free [OF sem])
  define s0 where "s0 = st\<lparr>h_info := (h_info st)\<lparr>heap_semaphore := l\<rparr>\<rparr>"
  have s0: "h_mem s0 = h_mem st" "heap_start (h_info s0) = heap_start (h_info st)"
      "heap_end (h_info s0) = heap_end (h_info st)" "heap_room V tid s0 N"
    using room(1) by (simp_all add: s0_def heap_room_def)
  obtain lm bp bs where r: "heap_search A (h_mem st) (of_nat ?q) (of_nat n) (of_nat ?p) 0 0 0 = Some (lm, bp, bs)"
    "bp = 0 \<and> bs = 0 \<or> (\<exists>pre sz post. cs = pre @ (sz, True) # post \<and> bp = of_nat (?p + span A pre) \<and> bs = of_nat sz
        \<and> unat (of_nat n :: u32) \<le> sz)"
    "bp = 0 \<longrightarrow> lm = (if cs = [] then 0 else of_nat (?p + span A (butlast cs)))"
    using heap_search_result [OF h(1,2,3) unat_u32_bound, of "of_nat n" 0 0 0] by blast
  have run: "malloc A V tid sz st = (if bp \<noteq> 0 then Some (Inr (malloc_fit A (of_nat n) bp bs s0))
      else malloc_extend A (heap_grow V tid) (of_nat n) lm s0)"
    using r(1) sz l by (simp add: malloc_def n(2) s0_def)
  show ?thesis
  proof (cases "bp = 0")
    case True
    have ch: "chunks A (h_mem s0) ?p (unat (heap_end (h_info s0))) cs" using h(2) s0 by simp
    have lm: "lm = (if cs = [] then 0 else of_nat (?p + span A (butlast cs)))" using r(3) True by blast
    show ?thesis
    proof (rule heap.malloc_extend_alloc [OF h(1) ch h(3) lm n(1) s0(4) room(2)])
      fix a k m' cs' len st'
      assume "malloc_extend A (heap_grow V tid) (of_nat n) lm s0 = Some (Inr (of_nat a, heap_unlock (st'\<lparr>h_mem := m'\<rparr>)))"
        "k \<le> N" "heap_room V tid st' (N - k)"
        "h_info st' = (h_info s0)\<lparr>heap_end := heap_end (h_info s0) + of_nat (4096 * k)\<rparr>"
        "chunks A m' ?p (unat (heap_end (h_info st'))) cs'" "n \<le> len"
        "allocs A ?p cs' = insert (a, len) (allocs A ?p cs)" "\<forall>l. (a, l) \<notin> allocs A ?p cs"
        "contents_kept (allocs A ?p cs) (h_mem s0) m'" "outside_kept ?p (unat (heap_end (h_info st'))) (h_mem s0) m'"
        "unat (heap_end (h_info st')) = unat (heap_end (h_info s0)) + 4096 * k" "4096 * k < n + 2 * msize A + 4096"
      then show ?thesis
        using that [of a m' st' k cs' len] run True s0 by (simp add: heap_allocs_def)
    qed
  next
    case False
    then obtain pre bz post where f: "cs = pre @ (bz, True) # post" "bp = of_nat (?p + span A pre)" "bs = of_nat bz" "n \<le> bz"
      using r(2) n32 by (auto simp: unat_of_nat_u32)
    let ?a = "?p + span A pre" and ?len = "bz + 2 * msize A"
    have c: "chunks A (h_mem st) ?p ?a pre" "chunk_at A (h_mem st) ?a bz True" "chunks A (h_mem st) (?a + ?len) ?q post"
      using h(2) by (simp_all add: f(1) chunks_append add.assoc)
    have q: "?q = ?a + ?len + span A post" using chunks_span [OF c(3)] .
    have q32: "?q < 4294967296" by simp
    have d: "unat A dvd ?len" using c(2) marker_sizes(4) [OF h(1)] by (auto simp: chunk_at_def)
    have B: "heap_allocs A st cs = allocs A ?p pre \<union> allocs A (?a + ?len) post"
      by (simp add: heap_allocs_def f(1) allocs_append add.assoc)
    obtain cs' len where g: "chunks A (fill_gap A (h_mem st) ?a ?len n) ?p ?q cs'" "n \<le> len"
        "allocs A ?p cs' = insert (?a + msize A, len) (heap_allocs A st cs)" "\<forall>l. (?a + msize A, l) \<notin> heap_allocs A st cs"
        "contents_kept (heap_allocs A st cs) (h_mem st) (fill_gap A (h_mem st) ?a ?len n)"
        "outside_kept ?a (?a + ?len) (h_mem st) (fill_gap A (h_mem st) ?a ?len n)"
      using fill_gap_alloc [OF h(1) c(1,3) q32 _ n(1) d B] f(4) by auto
    have out: "outside_kept ?p ?q (h_mem st) (fill_gap A (h_mem st) ?a ?len n)"
      by (rule outside_kept_mono [OF g(6)]) (use q in simp_all)
    have "malloc_fit A (of_nat n) bp bs s0
        = (of_nat (?a + msize A), heap_unlock (s0\<lparr>h_mem := fill_gap A (h_mem s0) ?a ?len n\<rparr>))"
      unfolding f(2,3) by (rule malloc_fit_eq [OF h(1) _ f(4)]) (use q q32 in linarith)
    then have "malloc A V tid sz st
        = Some (Inr (of_nat (?a + msize A), heap_unlock (s0\<lparr>h_mem := fill_gap A (h_mem st) ?a ?len n\<rparr>)))"
      using run False s0(1) by simp
    then show ?thesis
      using that [of "?a + msize A" "fill_gap A (h_mem st) ?a ?len n" s0 0 cs' len] g(1-5) out s0 by simp
  qed
qed

section \<open>Release\<close>

text \<open>What \<open>free\<close> makes of the chunks: the released one is merged with a free chunk after and before it.\<close>

fun merge_after :: "nat \<Rightarrow> nat \<Rightarrow> (nat \<times> bool) list \<Rightarrow> nat \<times> (nat \<times> bool) list" where
  "merge_after K n ((s, True) # post) = (n + s + 2 * K, post)"
| "merge_after K n post = (n, post)"

definition release :: "nat \<Rightarrow> (nat \<times> bool) list \<Rightarrow> nat \<Rightarrow> (nat \<times> bool) list \<Rightarrow> (nat \<times> bool) list" where
  "release K pre n post =
     (let (n, post) = merge_after K n post
      in if pre \<noteq> [] \<and> snd (last pre)
         then butlast pre @ (n + fst (last pre) + 2 * K, True) # post
         else pre @ (n, True) # post)"

fun coalesced :: "(nat \<times> bool) list \<Rightarrow> bool" where
  "coalesced (c # d # cs) \<longleftrightarrow> \<not> (snd c \<and> snd d) \<and> coalesced (d # cs)"
| "coalesced cs \<longleftrightarrow> True"

lemma coalesced_Cons: "coalesced (c # cs) \<longleftrightarrow> (cs = [] \<or> \<not> (snd c \<and> snd (hd cs))) \<and> coalesced cs"
  by (cases cs) auto

lemma coalesced_append:
  "coalesced (cs @ ds) \<longleftrightarrow> coalesced cs \<and> coalesced ds \<and> (cs = [] \<or> ds = [] \<or> \<not> (snd (last cs) \<and> snd (hd ds)))"
proof (induction cs)
  case (Cons c cs)
  then show ?case by (cases cs) (auto simp: coalesced_Cons)
qed simp

lemma release_coalesced:
  assumes "coalesced (pre @ (n, False) # post)"
  shows "coalesced (release K pre n post)"
proof -
  have c: "coalesced pre" "coalesced post" using assms by (auto simp: coalesced_append coalesced_Cons)
  obtain n' post' where m: "merge_after K n post = (n', post')" by (cases "merge_after K n post")
  have p: "coalesced post'" "post' = [] \<or> \<not> snd (hd post')"
    using c(2) m by (cases "(K, n, post)" rule: merge_after.cases; auto simp: coalesced_Cons)+
  show ?thesis
  proof (cases pre rule: rev_cases)
    case Nil
    then show ?thesis using p m by (simp add: release_def coalesced_Cons)
  next
    case (snoc ds d)
    then have "coalesced ds" "ds = [] \<or> \<not> (snd (last ds) \<and> snd d)" using c(1) by (auto simp: coalesced_append)
    then show ?thesis using p m by (auto simp: snoc release_def coalesced_Cons coalesced_append)
  qed
qed

lemma chunks_replace:
  assumes ch: "chunks A m p q (pre @ mid @ post)" and A: "align_ok A" and q: "q < 4294967296"
    and mid: "chunks A m' (p + span A pre) (p + span A pre + span A mid) mid'"
    and out: "\<And>x. x < 4294967296 \<Longrightarrow> \<not> (p + span A pre \<le> x \<and> x < p + span A pre + span A mid) \<Longrightarrow>
      m' (of_nat x) = m (of_nat x)"
  shows "chunks A m' p q (pre @ mid' @ post)"
proof -
  have K8: "8 \<le> msize A" using marker_sizes(3) [OF A] by auto
  have c: "chunks A m p (p + span A pre) pre" "chunks A m (p + span A pre + span A mid) q post"
    using ch by (simp_all add: chunks_append)
  have qe: "q = p + span A pre + span A mid + span A post" using chunks_span [OF c(2)] .
  have "chunks A m' p (p + span A pre) pre"
    by (rule chunks_cong [OF c(1) K8], rule out) (use q qe in linarith)+
  moreover have "chunks A m' (p + span A pre + span A mid) q post"
    by (rule chunks_cong [OF c(2) K8], rule out) (use q qe in linarith)+
  moreover have "span A mid' = span A mid" using chunks_span [OF mid] by simp
  ultimately show ?thesis using mid by (simp add: chunks_append)
qed

text \<open>A change inside a free chunk keeps what the others hold.\<close>

lemma contents_frame:
  assumes B: "B = allocs A p (pre @ (n, True) # post)" and q: "p + span A (pre @ (n, True) # post) < 4294967296"
    and out: "\<And>x. x < 4294967296 \<Longrightarrow> \<not> (p + span A pre \<le> x \<and> x < p + span A pre + n + 2 * msize A) \<Longrightarrow>
      m' (of_nat x) = m (of_nat x)"
  shows "contents_kept B m m'"
  unfolding contents_kept_def
proof (clarify)
  fix x l i assume x: "(x, l) \<in> B" "i < l"
  let ?a = "p + span A pre" and ?b = "p + span A pre + n + 2 * msize A"
  have "(x, l) \<in> allocs A p pre \<or> (x, l) \<in> allocs A ?b post"
    using x(1) by (simp add: B allocs_append)
  then have "x + l \<le> ?a \<or> ?b \<le> x" "x + l < 4294967296"
    using allocs_range [of x l A p pre] allocs_range [of x l A ?b post] q by auto
  then show "m' (of_nat (x + i)) = m (of_nat (x + i))" using x(2) by (intro out) auto
qed

lemma contents_kept_trans: "contents_kept B m m' \<Longrightarrow> contents_kept B m' m'' \<Longrightarrow> contents_kept B m m''"
  by (fastforce simp: contents_kept_def)

text \<open>Two neighbours become one free chunk.\<close>

lemma merge_two:
  assumes A: "align_ok A" and ch: "chunks A m p q (pre @ (x, True) # (y, True) # post)" and q: "q < 4294967296"
  defines "m' \<equiv> mark_chunck A m (of_nat (p + span A pre)) (of_nat (x + y + 2 * msize A)) True"
  shows "chunks A m' p q (pre @ (x + y + 2 * msize A, True) # post)"
    and "contents_kept (allocs A p (pre @ (x, True) # (y, True) # post)) m m'"
proof -
  let ?a = "p + span A pre" and ?n = "x + y + 2 * msize A"
  have c: "chunk_at A m ?a x True" "chunk_at A m (?a + x + 2 * msize A) y True"
    using ch by (simp_all add: chunks_append)
  have qs: "q = p + span A (pre @ (x, True) # (y, True) # post)" by (rule chunks_span [OF ch])
  then have b: "?a + ?n + 2 * msize A \<le> 4294967296" using q by simp
  have d: "unat A dvd ?n" using c marker_sizes(4) [OF A] by (simp add: chunk_at_def)
  note e = mark_chunck_effect [OF A b d, where m = m and fr = True, folded m'_def]
  have out: "m' (of_nat a) = m (of_nat a)" if "a < 4294967296" "\<not> (?a \<le> a \<and> a < ?a + ?n + 2 * msize A)" for a
    by (rule e(2)) (use that in linarith)+
  have mid: "chunks A m' ?a (?a + span A [(x, True), (y, True)]) [(?n, True)]" using e(1) by simp
  have ch': "chunks A m p q (pre @ [(x, True), (y, True)] @ post)" using ch by simp
  have "chunks A m' p q (pre @ [(?n, True)] @ post)"
    by (rule chunks_replace [OF ch' A q mid]) (rule out, auto)
  then show "chunks A m' p q (pre @ (?n, True) # post)" by simp
  show "contents_kept (allocs A p (pre @ (x, True) # (y, True) # post)) m m'"
  proof (rule contents_frame)
    show "allocs A p (pre @ (x, True) # (y, True) # post) = allocs A p (pre @ (?n, True) # post)"
      by (simp add: allocs_append algebra_simps)
    show "p + span A (pre @ (?n, True) # post) < 4294967296" using qs q by simp
  qed (rule out)
qed

text \<open>Setting the flag of the released chunk.\<close>

lemma mark_free:
  assumes A: "align_ok A" and ch: "chunks A m p q (pre @ (n, False) # post)" and q: "q < 4294967296"
  defines "m' \<equiv> m(of_nat (p + span A pre) := 1)"
  shows "chunks A m' p q (pre @ (n, True) # post)"
    and "contents_kept (allocs A p (pre @ (n, True) # post)) m m'"
proof -
  let ?a = "p + span A pre"
  note K = marker_sizes [OF A]
  have K8: "8 \<le> msize A" using K(3) by auto
  have c: "chunk_at A m ?a n False" using ch by (simp add: chunks_append)
  have qs: "q = p + span A (pre @ (n, False) # post)" by (rule chunks_span [OF ch])
  then have b: "?a + n + 2 * msize A \<le> q" by simp
  have o: "m' (of_nat x) = m (of_nat x)" if "x < 4294967296" "x \<noteq> ?a" for x
    using that b q by (simp add: m'_def of_nat_u32_eq del: of_nat_add)
  have l: "load32 m' (of_nat x) = load32 m (of_nat x)" if "?a < x" "x + 4 \<le> q" for x
    using that q by (intro load32_cong o) simp_all
  have "chunk_at A m' ?a n True"
    using c l [of "?a + 4"] l [of "?a + msize A + n"] l [of "?a + msize A + n + 4"] b K8
    by (simp add: chunk_at_def start_free_def marker_size_def end_marker_size_def end_canary_def m'_def)
  then have mid: "chunks A m' ?a (?a + span A [(n, False)]) [(n, True)]" by simp
  have ch': "chunks A m p q (pre @ [(n, False)] @ post)" using ch by simp
  have "chunks A m' p q (pre @ [(n, True)] @ post)"
    by (rule chunks_replace [OF ch' A q mid]) (rule o, use K8 in auto)
  then show "chunks A m' p q (pre @ (n, True) # post)" by simp
  show "contents_kept (allocs A p (pre @ (n, True) # post)) m m'"
  proof (rule contents_frame)
    show "allocs A p (pre @ (n, True) # post) = allocs A p (pre @ (n, True) # post)" ..
    show "p + span A (pre @ (n, True) # post) < 4294967296" using qs q by simp
  qed (rule o, use K8 in auto)
qed

lemma free_after:
  assumes A: "align_ok A" and ch: "chunks A m p q (pre @ (n, True) # post)" and q: "q < 4294967296"
    and r: "merge_after (msize A) n post = (n', post')"
  defines "m' \<equiv> free_merge_after A m (of_nat q) (of_nat (p + span A pre + msize A))"
  shows "chunks A m' p q (pre @ (n', True) # post')"
    and "contents_kept (allocs A p (pre @ (n, True) # post)) m m'"
    and "allocs A p (pre @ (n', True) # post') = allocs A p (pre @ (n, True) # post)"
proof -
  let ?a = "p + span A pre" and ?K = "msize A"
  note K = marker_sizes [OF A]
  have K8: "8 \<le> ?K" using K(3) by auto
  have c: "chunk_at A m ?a n True" "chunks A m (?a + n + 2 * ?K) q post" using ch by (simp_all add: chunks_append)
  have qe: "q = ?a + n + 2 * ?K + span A post" by (rule chunks_span [OF c(2)])
  have st: "of_nat (?a + ?K) - of_nat ?K = (of_nat ?a :: u32)" by simp
  have ms: "marker_size m (of_nat ?a) = of_nat n" using c(1) by (simp add: chunk_at_def)
  have af: "of_nat (?a + ?K) + of_nat n + of_nat ?K = (of_nat (?a + n + 2 * ?K) :: u32)" by simp
  have lt: "(of_nat (?a + n + 2 * ?K) :: u32) < of_nat q \<longleftrightarrow> post \<noteq> []"
  proof -
    have "0 < span A post" if "post \<noteq> []" using that K8 by (cases post) auto
    then show ?thesis using q qe by (cases "post = []") (subst of_nat_less_u32; auto)+
  qed
  have run: "m' = (if post \<noteq> [] \<and> start_free m (of_nat (?a + n + 2 * ?K))
      then mark_chunck A m (of_nat ?a) (of_nat n + marker_size m (of_nat (?a + n + 2 * ?K)) + of_nat ?K + of_nat ?K) True
      else m)"
    unfolding m'_def free_merge_after_def Let_def K(1,2) st ms af lt ..
  have "chunks A m' p q (pre @ (n', True) # post') \<and> contents_kept (allocs A p (pre @ (n, True) # post)) m m'
      \<and> allocs A p (pre @ (n', True) # post') = allocs A p (pre @ (n, True) # post)"
  proof -
    consider (free) s rest where "post = (s, True) # rest" | (empty) "post = []" | (used) s rest where "post = (s, False) # rest"
      by (metis (full_types) list.exhaust surj_pair)
    then show ?thesis
    proof cases
      case po: (free s rest)
      have "chunk_at A m (?a + n + 2 * ?K) s True" using c(2) po by simp
      then have af: "start_free m (of_nat (?a + n + 2 * ?K))" "marker_size m (of_nat (?a + n + 2 * ?K)) = of_nat s"
        by (simp_all add: chunk_at_def)
      have w: "of_nat n + of_nat s + of_nat ?K + of_nat ?K = (of_nat (n + s + 2 * ?K) :: u32)" by simp
      have m': "m' = mark_chunck A m (of_nat ?a) (of_nat (n + s + 2 * ?K)) True"
        unfolding run af(2) w using af(1) po by simp
      have n': "n' = n + s + 2 * ?K" "post' = rest" using r by (simp_all add: po)
      show ?thesis
        using merge_two [OF A ch [unfolded po] q] unfolding m' n' po
        by (simp add: allocs_append algebra_simps)
    next
      case empty
      then have "m' = m" "n' = n" "post' = post" using run r by simp_all
      then show ?thesis using ch by (simp add: contents_kept_def)
    next
      case po: (used s rest)
      have "\<not> start_free m (of_nat (?a + n + 2 * ?K))" using c(2) po by (simp add: chunk_at_def)
      then have "m' = m" "n' = n" "post' = post" using run r by (simp_all add: po)
      then show ?thesis using ch by (simp add: contents_kept_def)
    qed
  qed
  then show "chunks A m' p q (pre @ (n', True) # post')"
    and "contents_kept (allocs A p (pre @ (n, True) # post)) m m'"
    and "allocs A p (pre @ (n', True) # post') = allocs A p (pre @ (n, True) # post)" by blast+
qed

lemma free_before:
  assumes A: "align_ok A" and ch: "chunks A m p q (pre @ (n, True) # post)" and q: "q < 4294967296" and p: "msize A \<le> p"
  defines "cs' \<equiv> (if pre \<noteq> [] \<and> snd (last pre) then butlast pre @ (n + fst (last pre) + 2 * msize A, True) # post
      else pre @ (n, True) # post)"
  obtains m' where "free_merge_before A m (of_nat p) (of_nat (p + span A pre + msize A)) = Inr m'"
    "chunks A m' p q cs'" "contents_kept (allocs A p (pre @ (n, True) # post)) m m'"
    "allocs A p cs' = allocs A p (pre @ (n, True) # post)"
proof -
  let ?a = "p + span A pre" and ?K = "msize A"
  note K = marker_sizes [OF A]
  have K8: "8 \<le> ?K" using K(3) by auto
  have c: "chunk_at A m ?a n True" "chunks A m p ?a pre" "chunks A m (?a + n + 2 * ?K) q post"
    using ch by (simp_all add: chunks_append)
  have qe: "q = ?a + n + 2 * ?K + span A post" by (rule chunks_span [OF c(3)])
  have ms: "marker_size m (of_nat ?a) = of_nat n" using c(1) by (simp add: chunk_at_def)
  have st: "of_nat (?a + ?K) - of_nat ?K = (of_nat ?a :: u32)" by simp
  have eb: "of_nat ?a - of_nat ?K = (of_nat (?a - ?K) :: u32)" using p by (simp add: of_nat_diff)
  have lt: "(of_nat p :: u32) < of_nat (?a - ?K) \<longleftrightarrow> p < ?a - ?K" using q qe by (intro of_nat_less_u32) auto
  show ?thesis
  proof (cases pre rule: rev_cases)
    case Nil
    then have "\<not> p < ?a - ?K" by simp
    then have "free_merge_before A m (of_nat p) (of_nat (?a + ?K)) = Inr m"
      unfolding free_merge_before_def Let_def K(1,2) st eb lt by simp
    then show ?thesis using that ch by (simp add: cs'_def Nil contents_kept_def)
  next
    case (snoc ds d)
    obtain s fr where d: "d = (s, fr)" by (cases d)
    let ?b = "p + span A ds"
    have a: "?a = ?b + s + 2 * ?K" by (simp add: snoc d)
    have cb: "chunk_at A m ?b s fr" using c(2) by (simp add: snoc d chunks_append)
    have e: "?a - ?K = ?b + ?K + s" using a by simp
    have can: "end_canary m (of_nat (?a - ?K)) = CANARY" "end_marker_size m (of_nat (?a - ?K)) = of_nat s"
      using cb unfolding e by (simp_all add: chunk_at_def)
    have gt: "p < ?a - ?K" using a K8 by simp
    have sb: "of_nat (?a - ?K) - of_nat s - of_nat ?K = (of_nat ?b :: u32)" unfolding e by simp
    have mb: "start_free m (of_nat ?b) = fr" "marker_size m (of_nat ?b) = of_nat s" using cb by (simp_all add: chunk_at_def)
    have w: "of_nat n + of_nat s + of_nat ?K + of_nat ?K = (of_nat (s + n + 2 * ?K) :: u32)" by simp
    have run: "free_merge_before A m (of_nat p) (of_nat (?a + ?K))
        = Inr (if fr then mark_chunck A m (of_nat ?b) (of_nat (s + n + 2 * ?K)) True else m)"
      unfolding free_merge_before_def Let_def K(1,2) st eb lt can sb mb ms w using gt by simp
    show ?thesis
    proof (cases fr)
      case False
      then show ?thesis using that [OF run] ch by (simp add: cs'_def snoc d contents_kept_def)
    next
      case True
      have ch2: "chunks A m p q (ds @ (s, True) # (n, True) # post)" using ch by (simp add: snoc d True)
      note mt = merge_two [OF A ch2 q]
      have cs': "cs' = ds @ (s + n + 2 * ?K, True) # post" by (simp add: cs'_def snoc d True)
      have "allocs A p cs' = allocs A p (pre @ (n, True) # post)"
        unfolding cs' by (simp add: snoc d True allocs_append algebra_simps)
      then show ?thesis using that [OF run] mt True unfolding cs' by (simp add: snoc d)
    qed
  qed
qed

lemma allocs_split:
  assumes "(a, n) \<in> allocs A p cs"
  obtains pre post where "cs = pre @ (n, False) # post" "a = p + span A pre + msize A"
  using assms
proof (induction cs arbitrary: p thesis)
  case (Cons c cs)
  obtain sz fr where c: "c = (sz, fr)" by (cases c)
  show ?case
  proof (cases "(a, n) \<in> allocs A (p + sz + 2 * msize A) cs")
    case True
    then obtain pre post where "cs = pre @ (n, False) # post" "a = p + sz + 2 * msize A + span A pre + msize A"
      using Cons.IH by blast
    then show ?thesis using Cons.prems(1) [of "c # pre" post] by (simp add: c)
  next
    case False
    then show ?thesis using Cons.prems(1) [of "[]" cs] Cons.prems(2) by (auto simp: c split: if_splits)
  qed
qed simp

lemma free_run:
  assumes ok: "heap_ok A st (pre @ (n, False) # post)" and sem: "heap_semaphore (h_info st) = 0"
  defines "a \<equiv> unat (heap_start (h_info st)) + span A pre + msize A"
  obtains st' where "free A tid (of_nat a) st = Inr st'" "heap_ok A st' (release (msize A) pre n post)"
    "heap_allocs A st' (release (msize A) pre n post) = heap_allocs A st (pre @ (n, True) # post)"
    "contents_kept (heap_allocs A st (pre @ (n, True) # post)) (h_mem st) (h_mem st')"
    "h_info st' = h_info st" "h_mm st' = h_mm st"
proof -
  let ?p = "unat (heap_start (h_info st))" and ?q = "unat (heap_end (h_info st))" and ?K = "msize A"
  let ?a = "?p + span A pre" and ?B = "allocs A ?p (pre @ (n, True) # post)"
  have h: "align_ok A" "chunks A (h_mem st) ?p ?q (pre @ (n, False) # post)" "?K \<le> ?p" "unat A dvd ?p"
    using ok by (simp_all add: heap_ok_def)
  note K = marker_sizes [OF h(1)]
  have K8: "8 \<le> ?K" using K(3) by auto
  have q: "?q < 4294967296" by simp
  have qe: "?q = ?p + span A (pre @ (n, False) # post)" by (rule chunks_span [OF h(2)])
  have c: "chunk_at A (h_mem st) ?a n False" using h(2) by (simp add: chunks_append)
  have nz: "(of_nat (?a + ?K) :: u32) \<noteq> 0"
    using of_nat_u32_eq [of "?a + ?K" 0] q qe K8 by (simp del: of_nat_add)
  have s: "of_nat (?a + ?K) - of_nat ?K = (of_nat ?a :: u32)" by simp
  have ms: "marker_size (h_mem st) (of_nat ?a) = of_nat n" using c by (simp add: chunk_at_def)
  have e: "of_nat (?a + ?K) + of_nat n = (of_nat (?a + ?K + n) :: u32)" by simp
  have can: "end_canary (h_mem st) (of_nat (?a + ?K + n)) = CANARY" using c by (simp add: chunk_at_def)
  obtain l where l: "heap_lock tid st = Inr (st\<lparr>h_info := (h_info st)\<lparr>heap_semaphore := l\<rparr>\<rparr>)"
    by (rule heap_lock_free [OF sem])
  define m1 where "m1 = (h_mem st)(of_nat ?a := 1)"
  note f1 = mark_free [OF h(1,2) q, folded m1_def]
  obtain n' post' where r: "merge_after ?K n post = (n', post')" by (cases "merge_after ?K n post")
  define m2 where "m2 = free_merge_after A m1 (of_nat ?q) (of_nat (?a + ?K))"
  note f2 = free_after [OF h(1) f1(1) q r, folded m2_def]
  obtain m3 where m3: "free_merge_before A m2 (of_nat ?p) (of_nat (?a + ?K)) = Inr m3"
      "chunks A m3 ?p ?q (release ?K pre n post)" "contents_kept (allocs A ?p (pre @ (n', True) # post')) m2 m3"
      "allocs A ?p (release ?K pre n post) = allocs A ?p (pre @ (n', True) # post')"
    by (rule free_before [OF h(1) f2(1) q h(3)]) (use r in \<open>simp add: release_def\<close>)
  have w: "of_nat ?q = heap_end (h_info st)" "of_nat ?p = heap_start (h_info st)" by simp_all
  have "free A tid (of_nat (?a + ?K)) st = Inr (heap_unlock (st\<lparr>h_info := (h_info st)\<lparr>heap_semaphore := l\<rparr>, h_mem := m3\<rparr>))"
    unfolding free_def Let_def K(1) s ms e can if_not_P [OF nz] l bindE_simps
    using m3(1) by (simp add: m2_def m1_def del: of_nat_add)
  moreover have "heap_unlock (st\<lparr>h_info := (h_info st)\<lparr>heap_semaphore := l\<rparr>, h_mem := m3\<rparr>) = st\<lparr>h_mem := m3\<rparr>"
    using sem by (cases st; cases "h_info st") (simp add: heap_unlock_def semaphore_release_def)
  moreover have "contents_kept ?B (h_mem st) m3"
    using contents_kept_trans [OF f1(2) contents_kept_trans [OF f2(2)]] m3(3) f2(3) by simp
  moreover have "heap_ok A (st\<lparr>h_mem := m3\<rparr>) (release ?K pre n post)"
    using h m3(2) by (simp add: heap_ok_def)
  moreover have "allocs A ?p (release ?K pre n post) = ?B" using m3(4) f2(3) by simp
  ultimately show ?thesis
    using that [of "st\<lparr>h_mem := m3\<rparr>"] by (simp add: heap_allocs_def a_def)
qed

section \<open>Use of a block\<close>

lemma allocs_one_freed:
  assumes "8 \<le> msize A"
  shows "allocs A p (pre @ (n, True) # post) = allocs A p (pre @ (n, False) # post) - {(p + span A pre + msize A, n)}"
proof -
  let ?a = "p + span A pre" and ?b = "p + span A pre + n + 2 * msize A"
  have "(?a + msize A, n) \<notin> allocs A p pre \<union> allocs A ?b post"
    using assms allocs_range [of "?a + msize A" n A p pre] allocs_range [of "?a + msize A" n A ?b post] by auto
  then show ?thesis by (auto simp: allocs_append)
qed

text \<open>Writing inside a used block does not harm the heap or another block.\<close>

lemma block_write:
  assumes A: "align_ok A" and ch: "chunks A m p q cs" and q: "q < 4294967296" and a: "(a, n) \<in> allocs A p cs"
    and out: "\<And>x. x < 4294967296 \<Longrightarrow> \<not> (a \<le> x \<and> x < a + n) \<Longrightarrow> m' (of_nat x) = m (of_nat x)"
  shows "chunks A m' p q cs" and "contents_kept (allocs A p cs - {(a, n)}) m m'"
proof -
  obtain pre post where cs: "cs = pre @ (n, False) # post" "a = p + span A pre + msize A"
    by (rule allocs_split [OF a])
  let ?a = "p + span A pre" and ?K = "msize A"
  have K8: "8 \<le> ?K" using marker_sizes(3) [OF A] by auto
  have c: "chunk_at A m ?a n False" using ch by (simp add: cs(1) chunks_append)
  have qs: "q = p + span A (pre @ (n, False) # post)" using chunks_span [OF ch] by (simp add: cs(1))
  then have b: "?a + n + 2 * ?K \<le> q" by simp
  have l: "load32 m' (of_nat x) = load32 m (of_nat x)" if "x + 4 \<le> ?a + ?K \<or> ?a + ?K + n \<le> x" "x + 4 \<le> q" for x
    by (intro load32_cong out) (use that q in \<open>auto simp: cs(2)\<close>)
  have f: "m' (of_nat ?a) = m (of_nat ?a)" by (rule out) (use b q K8 in \<open>auto simp: cs(2)\<close>)
  have "chunk_at A m' ?a n False"
    using c f l [of "?a + 4"] l [of "?a + ?K + n"] l [of "?a + ?K + n + 4"] b K8
    by (simp add: chunk_at_def start_free_def marker_size_def end_marker_size_def end_canary_def)
  then have mid: "chunks A m' ?a (?a + span A [(n, False)]) [(n, False)]" by simp
  have ch': "chunks A m p q (pre @ [(n, False)] @ post)" using ch by (simp add: cs(1))
  have "chunks A m' p q (pre @ [(n, False)] @ post)"
    by (rule chunks_replace [OF ch' A q mid]) (rule out, auto simp: cs(2))
  then show "chunks A m' p q cs" by (simp add: cs(1))
  have "allocs A p cs - {(a, n)} = allocs A p (pre @ (n, True) # post)"
    unfolding cs using allocs_one_freed [OF K8] by simp
  then show "contents_kept (allocs A p cs - {(a, n)}) m m'"
    by (rule contents_frame) (use qs q in simp, rule out, auto simp: cs(2))
qed

lemma heap_allocs_disjoint:
  assumes "heap_ok A st cs" "(a, n) \<in> heap_allocs A st cs" "(b, l) \<in> heap_allocs A st cs" "(a, n) \<noteq> (b, l)"
  shows "a + n \<le> b \<or> b + l \<le> a"
  using assms by (auto simp: heap_allocs_def dest: allocs_disjoint)

lemma memcpy_disjoint:
  assumes "s + k \<le> 4294967296" "d + k \<le> 4294967296" "k < 4294967296" "s + k \<le> d \<or> d + k \<le> s" "x < 4294967296"
    "d < 4294967296"
  shows "snd (memcpy m (of_nat d) (of_nat s) (of_nat k)) (of_nat x)
    = (if d \<le> x \<and> x < d + k then m (of_nat (s + (x - d))) else m (of_nat x))"
proof -
  have "\<not> in_range (0 + of_nat s) (of_nat k) (0 + of_nat d)"
    using assms by (subst in_range_offsets) auto
  then have sep: "(of_nat k :: u32) \<le> of_nat d - of_nat s" by (simp add: in_range_def)
  have "in_range (0 + of_nat d) (of_nat k) (0 + of_nat x) \<longleftrightarrow> d \<le> x \<and> x < d + k"
    using assms by (intro in_range_offsets) auto
  then have c: "(of_nat x :: u32) - of_nat d < of_nat k \<longleftrightarrow> d \<le> x \<and> x < d + k" by (simp add: in_range_def)
  have "(of_nat s :: u32) + (of_nat x - of_nat d) = of_nat (s + (x - d))" if "d \<le> x"
    using that by (simp add: of_nat_diff)
  then show ?thesis
    by (auto simp: memcpy_def memcpy_loop_eq [OF disjI2 [OF sep]] c simp del: of_nat_add of_nat_diff)
qed

lemma malloc_block:
  assumes ok: "heap_ok A st cs" and room: "heap_room V tid st N" "n + 2 * msize A \<le> 4096 * N"
    and n: "unat A dvd n" "aligned_size A sz = of_nat n" and sz: "sz \<noteq> 0" and sem: "heap_semaphore (h_info st) = 0"
  obtains a st' cs' len where
    "malloc A V tid sz st = Some (Inr (of_nat a, st'))" "heap_ok A st' cs'" "n \<le> len"
    "heap_allocs A st' cs' = insert (a, len) (heap_allocs A st cs)"
    "\<And>b l. (b, l) \<in> heap_allocs A st cs \<Longrightarrow> b + l \<le> a \<or> a + len \<le> b"
    "contents_kept (heap_allocs A st cs) (h_mem st) (h_mem st')" "heap_semaphore (h_info st') = 0"
    "\<exists>k \<le> N. heap_room V tid st' (N - k) \<and> unat (heap_end (h_info st')) = unat (heap_end (h_info st)) + 4096 * k
      \<and> 4096 * k < n + 2 * msize A + 4096"
    "unat A dvd a" "0 < a" "a + len + msize A < 4294967296"
    "heap_start (h_info st') = heap_start (h_info st)"
    "outside_kept (unat (heap_start (h_info st))) (unat (heap_end (h_info st'))) (h_mem st) (h_mem st')"
proof (rule malloc_run [OF assms])
  fix a m' cs' len st1 k
  define st' where "st' = heap_unlock (st1\<lparr>h_mem := m'\<rparr>)"
  assume r: "malloc A V tid sz st = Some (Inr (of_nat a, heap_unlock (st1\<lparr>h_mem := m'\<rparr>)))"
    "k \<le> N" "heap_room V tid st1 (N - k)" "heap_start (h_info st1) = heap_start (h_info st)"
    "chunks A m' (unat (heap_start (h_info st))) (unat (heap_end (h_info st1))) cs'" "n \<le> len"
    "allocs A (unat (heap_start (h_info st))) cs' = insert (a, len) (heap_allocs A st cs)"
    "\<forall>l. (a, l) \<notin> heap_allocs A st cs" "contents_kept (heap_allocs A st cs) (h_mem st) m'"
    "outside_kept (unat (heap_start (h_info st))) (unat (heap_end (h_info st1))) (h_mem st) m'"
    "unat (heap_end (h_info st1)) = unat (heap_end (h_info st)) + 4096 * k" "4096 * k < n + 2 * msize A + 4096"
  have s: "h_mem st' = m'" "heap_start (h_info st') = heap_start (h_info st)"
      "heap_end (h_info st') = heap_end (h_info st1)" "heap_semaphore (h_info st') = 0"
    using r(4) by (simp_all add: st'_def)
  have rm: "\<exists>k \<le> N. heap_room V tid st' (N - k) \<and> unat (heap_end (h_info st')) = unat (heap_end (h_info st)) + 4096 * k
      \<and> 4096 * k < n + 2 * msize A + 4096"
    unfolding s(3) unfolding st'_def heap.room_unlock heap.room_mem using r(2,3,11,12) by blast
  have ok': "heap_ok A st' cs'" using ok r(5) s by (simp add: heap_ok_def)
  have al: "heap_allocs A st' cs' = insert (a, len) (heap_allocs A st cs)" using r(7) s(2) by (simp add: heap_allocs_def)
  then have new: "(a, len) \<in> heap_allocs A st' cs'" by simp
  have dj: "b + l \<le> a \<or> a + len \<le> b" if "(b, l) \<in> heap_allocs A st cs" for b l
    using heap_allocs_disjoint [OF ok' new, of b l] al r(8) that by auto
  have K: "8 \<le> msize A" using ok marker_sizes(3) [of A] by (auto simp: heap_ok_def)
  have "unat (heap_end (h_info st')) < 4294967296" by simp
  then have "a + len + msize A < 4294967296" "0 < a"
    using heap_allocs_bound(1,2) [OF ok' new] K by linarith+
  then show ?thesis
    using that [OF r(1) [folded st'_def] ok' r(6) al dj _ s(4) rm heap_allocs_bound(3) [OF ok' new]] r(9,10) s by simp
qed

lemma malloc_spec:
  assumes ok: "heap_ok A st cs" "heap_semaphore (h_info st) = 0"
    and sz: "sz \<noteq> 0" "unat sz + unat A \<le> 4294967296"
    and room: "heap_room V tid st N" "unat (aligned_size A sz) + 2 * msize A \<le> 4096 * N"
  shows "\<exists>p st' cs' len. malloc A V tid sz st = Some (Inr (p, st')) \<and> heap_ok A st' cs'
    \<and> heap_allocs A st' cs' = insert (unat p, len) (heap_allocs A st cs)
    \<and> unat sz \<le> len \<and> unat A dvd unat p \<and> p \<noteq> 0
    \<and> (\<forall>(b, l) \<in> heap_allocs A st cs. b + l \<le> unat p \<or> unat p + len \<le> b)
    \<and> contents_kept (heap_allocs A st cs) (h_mem st) (h_mem st')
    \<and> outside_kept (unat (heap_start (h_info st))) (unat (heap_end (h_info st'))) (h_mem st) (h_mem st')
    \<and> heap_semaphore (h_info st') = 0 \<and> (\<exists>k \<le> N. heap_room V tid st' (N - k)
        \<and> unat (heap_end (h_info st')) = unat (heap_end (h_info st)) + 4096 * k
        \<and> 4096 * k < unat (aligned_size A sz) + 2 * msize A + 4096)
    \<and> heap_start (h_info st') = heap_start (h_info st)"
proof -
  have A: "align_ok A" using ok(1) by (simp add: heap_ok_def)
  note a = aligned_size_exact [OF A sz(2)]
  show ?thesis
  proof (rule malloc_block [OF ok(1) room a(4) _ sz(1) ok(2)])
    fix p st' cs' len
    assume r: "malloc A V tid sz st = Some (Inr (of_nat p, st'))" "heap_ok A st' cs'" "unat (aligned_size A sz) \<le> len"
      "heap_allocs A st' cs' = insert (p, len) (heap_allocs A st cs)"
      "\<And>b l. (b, l) \<in> heap_allocs A st cs \<Longrightarrow> b + l \<le> p \<or> p + len \<le> b"
      "contents_kept (heap_allocs A st cs) (h_mem st) (h_mem st')" "heap_semaphore (h_info st') = 0"
      "\<exists>k \<le> N. heap_room V tid st' (N - k) \<and> unat (heap_end (h_info st')) = unat (heap_end (h_info st)) + 4096 * k
      \<and> 4096 * k < unat (aligned_size A sz) + 2 * msize A + 4096" "unat A dvd p" "0 < p" "p + len + msize A < 4294967296"
      "heap_start (h_info st') = heap_start (h_info st)"
      "outside_kept (unat (heap_start (h_info st))) (unat (heap_end (h_info st'))) (h_mem st) (h_mem st')"
    have u: "unat (of_nat p :: u32) = p" using r(11) by (simp add: unat_of_nat_u32)
    have "(of_nat p :: u32) \<noteq> 0" using of_nat_u32_eq [of p 0] r(10,11) by simp
    moreover have "unat sz \<le> len" using a(2) r(3) by simp
    moreover have "\<forall>(b, l) \<in> heap_allocs A st cs. b + l \<le> p \<or> p + len \<le> b" using r(5) by blast
    ultimately show ?thesis
      using r(1,2,4,6-9,12,13) by (intro exI [of _ "of_nat p"] exI [of _ st'] exI [of _ cs'] exI [of _ len]) (simp only: u simp_thms)
  qed simp
qed

lemma contents_kept_mono: "contents_kept B m m' \<Longrightarrow> C \<subseteq> B \<Longrightarrow> contents_kept C m m'"
  by (auto simp: contents_kept_def)

lemma realloc_move:
  assumes run: "malloc A V tid sz st = Some (Inr (of_nat p, st1))" and ok: "heap_ok A st1 cs1" "heap_semaphore (h_info st1) = 0"
    and new: "(p, len) \<in> heap_allocs A st1 cs1" "unat sz \<le> len" and old: "(a, n) \<in> heap_allocs A st1 cs1"
    and p: "0 < p" "p + len + msize A < 4294967296" and sep: "a + n \<le> p \<or> p + len \<le> a" and sz: "sz \<noteq> 0"
  obtains st' cs' where "realloc A V tid (of_nat a) sz st = Some (Inr (of_nat p, st'))" "heap_ok A st' cs'"
    "heap_allocs A st' cs' = heap_allocs A st1 cs1 - {(a, n)}"
    "\<forall>i < min (unat sz) n. h_mem st' (of_nat (p + i)) = h_mem st1 (of_nat (a + i))"
    "contents_kept (heap_allocs A st1 cs1 - {(p, len), (a, n)}) (h_mem st1) (h_mem st')"
proof -
  let ?hs = "unat (heap_start (h_info st1))" and ?q = "unat (heap_end (h_info st1))" and ?k = "min (unat sz) n"
  have h: "align_ok A" "chunks A (h_mem st1) ?hs ?q cs1" using ok(1) by (simp_all add: heap_ok_def)
  note K = marker_sizes [OF h(1)]
  have K8: "8 \<le> msize A" using K(3) by auto
  obtain pre post where cs1: "cs1 = pre @ (n, False) # post" "a = ?hs + span A pre + msize A"
    using allocs_split [OF old [unfolded heap_allocs_def]] by blast
  have ab: "a + n < 4294967296" using heap_allocs_bound(4) [OF ok(1) old] .
  have c: "chunk_at A (h_mem st1) (a - msize A) n False" using h(2) by (simp add: cs1 chunks_append)
  have am: "of_nat a - start_size A = (of_nat (a - msize A) :: u32)" unfolding K(1) by (simp add: cs1(2))
  have ms: "marker_size (h_mem st1) (of_nat (a - msize A)) = of_nat n" using c by (simp add: chunk_at_def)
  have k: "(if sz < of_nat n then sz else of_nat n) = (of_nat ?k :: u32)"
    using ab by (auto simp: word_less_nat_alt unat_of_nat_u32 min_def)
  have nz: "(of_nat p :: u32) \<noteq> 0" "(of_nat a :: u32) \<noteq> 0"
    using of_nat_u32_eq [of p 0] of_nat_u32_eq [of a 0] p ab K8 by (simp_all add: cs1(2) del: of_nat_add)
  define m2 where "m2 = snd (memcpy (h_mem st1) (of_nat p) (of_nat a) (of_nat ?k))"
  define st2 where "st2 = st1\<lparr>h_mem := m2\<rparr>"
  have cp: "m2 (of_nat x) = (if p \<le> x \<and> x < p + ?k then h_mem st1 (of_nat (a + (x - p))) else h_mem st1 (of_nat x))"
    if "x < 4294967296" for x
    unfolding m2_def by (rule memcpy_disjoint) (use ab p sep new(2) that in auto)
  have q: "?q < 4294967296" by simp
  have "m2 (of_nat x) = h_mem st1 (of_nat x)" if "x < 4294967296" "\<not> (p \<le> x \<and> x < p + len)" for x
    using cp [OF that(1)] that new(2) by auto
  note bw = block_write [OF h q new(1) [unfolded heap_allocs_def] this]
  have ok2: "heap_ok A st2 (pre @ (n, False) # post)" "heap_semaphore (h_info st2) = 0"
    using ok bw(1) by (simp_all add: heap_ok_def st2_def cs1(1))
  have B: "heap_allocs A st2 (pre @ (n, True) # post) = heap_allocs A st1 cs1 - {(a, n)}"
    using allocs_one_freed [OF K8] by (simp add: heap_allocs_def st2_def cs1)
  have a2: "of_nat (unat (heap_start (h_info st2)) + span A pre + msize A) = (of_nat a :: u32)" by (simp add: st2_def cs1(2))
  obtain st' where f: "free A tid (of_nat a) st2 = Inr st'" "heap_ok A st' (release (msize A) pre n post)"
      "heap_allocs A st' (release (msize A) pre n post) = heap_allocs A st1 cs1 - {(a, n)}"
      "contents_kept (heap_allocs A st1 cs1 - {(a, n)}) m2 (h_mem st')"
    by (rule free_run [OF ok2, where tid = tid, unfolded a2 B]) (simp add: st2_def)
  have "realloc A V tid (of_nat a) sz st = Some (Inr (of_nat p, st'))"
    unfolding realloc_def if_P [OF sz] run option.map bindE_simps prod.case am ms k Let_def
    using nz f(1) by (simp add: st2_def m2_def)
  moreover have "(p, len) \<in> heap_allocs A st1 cs1 - {(a, n)}"
  proof -
    have "0 < unat sz" using sz by (simp add: unat_gt_0)
    then show ?thesis using new sep by auto
  qed
  then have fp: "\<forall>i < len. h_mem st' (of_nat (p + i)) = m2 (of_nat (p + i))"
    using f(4) by (auto simp: contents_kept_def simp del: of_nat_add)
  have "h_mem st' (of_nat (p + i)) = h_mem st1 (of_nat (a + i))" if "i < ?k" for i
  proof -
    have "i < len" "p + i < 4294967296" using that new(2) p(2) by simp_all
    then show ?thesis using fp cp [of "p + i"] that by (simp del: of_nat_add)
  qed
  then have "\<forall>i < ?k. h_mem st' (of_nat (p + i)) = h_mem st1 (of_nat (a + i))" by blast
  moreover have "contents_kept (heap_allocs A st1 cs1 - {(p, len), (a, n)}) (h_mem st1) (h_mem st')"
  proof (rule contents_kept_trans)
    show "contents_kept (heap_allocs A st1 cs1 - {(p, len), (a, n)}) (h_mem st1) m2"
      using bw(2) by (rule contents_kept_mono) (auto simp: heap_allocs_def)
    show "contents_kept (heap_allocs A st1 cs1 - {(p, len), (a, n)}) m2 (h_mem st')"
      using f(4) by (rule contents_kept_mono) auto
  qed
  ultimately show ?thesis using that f(2,3) by blast
qed

section \<open>Properties\<close>

definition example_heap :: heap_state where
  "example_heap =
     \<lparr>h_mem = (\<lambda>_. 0),
      h_info = \<lparr>heap_semaphore = 0, heap_start = 0x402000, heap_end = 0x402000, stacks_semaphore = 0,
        stacks_start = 0, stacks_bitmaps_length = 0, stacks_bitmaps = []\<rparr>,
      h_mm = example_mm\<rparr>"

lemma example_heap_ok: "heap_ok 4 example_heap []"
proof -
  have K: "align_ok 4" "msize 4 = 8" by (simp_all add: align_ok_def msize_def start_size_def aligned_size_def)
  have "(4 :: nat) dvd 4202496" by simp
  then show ?thesis using K by (simp add: heap_ok_def example_heap_def)
qed

lemma example_heap_room: "heap_room 0xC0010000 2 example_heap 1"
proof -
  have l: "(1 :: u32) < 1024" by (simp add: word_less_nat_alt)
  have ix: "dir_ix 0x402000 = 1" "tab_ix 0x402000 = 2" "frame 0x402000 = 0x402000" by (simp_all add: frame_def)
  have "present (pde example_mm 1)" "pte example_mm 1 2 = 0"
    unfolding pte_def example_pde [OF l] by (simp_all add: present_def frame_def example_mm_def)
  then have "va_unused example_mm 0x402000" by (simp add: va_unused_def ix)
  moreover have "mm_ok 0xC0010000 2 example_mm [0x5000, 0x6000]" "mtx_lock (mm_mutex example_mm) = 0"
    using example_mm_ok by (simp_all add: example_mm_def)
  moreover have "2 * 1 \<le> length [0x5000, 0x6000 :: u32]" by simp
  ultimately show ?thesis
    unfolding heap_room_def example_heap_def using ix
    by (auto simp: page_aligned_def simp del: length_Cons intro!: exI [of _ "[0x5000, 0x6000]"])
qed

definition example_used :: heap_state where
  "example_used = example_heap\<lparr>h_mem := fill_gap 4 (\<lambda>_. 0) 0x402000 4096 12,
     h_info := (h_info example_heap)\<lparr>heap_end := 0x403000\<rparr>\<rparr>"

lemma example_used_ok: "heap_ok 4 example_used [(12, False), (4052, True)]"
proof -
  have K: "align_ok 4" "msize 4 = 8" by (simp_all add: align_ok_def msize_def start_size_def aligned_size_def)
  have "chunks 4 (\<lambda>_. 0) 0x402000 0x402000 []" "chunks 4 (\<lambda>_. 0) (0x402000 + 4096) 0x403000 []" by simp_all
  note f = fill_gap_chunks(1) [OF K(1) this, of 12]
  have "(4 :: nat) dvd 4202496" by simp
  then show ?thesis using K f by (simp add: heap_ok_def example_used_def example_heap_def)
qed

lemma example_used_room: "heap_room 0xC0010000 2 example_used 1"
proof -
  have l: "(1 :: u32) < 1024" by (simp add: word_less_nat_alt)
  have ix: "dir_ix 0x403000 = 1" "tab_ix 0x403000 = 3" "frame 0x403000 = 0x403000" by (simp_all add: frame_def)
  have "present (pde example_mm 1)" "pte example_mm 1 3 = 0"
    unfolding pte_def example_pde [OF l] by (simp_all add: present_def frame_def example_mm_def)
  then have "va_unused example_mm 0x403000" by (simp add: va_unused_def ix)
  then show ?thesis
    using example_heap_room ix by (simp add: heap_room_def example_used_def example_heap_def page_aligned_def)
qed

text \<open>
  C19. \<open>malloc\<close> returns a block: given enough pages to map behind the heap, a request that rounds up
  to the alignment without overflow ends with an aligned address of a new block at least as big as
  asked for. It overlaps no block in use, the contents of every block in use and the bytes outside the
  heap are kept, the heap is still a chain of well-marked chunks, has grown by no more pages than the request needs,
  and the semaphore is free again.
\<close>

theorem malloc_correct:
  assumes ok: "heap_ok A st cs" "heap_semaphore (h_info st) = 0"
    and sz: "sz \<noteq> 0" "unat sz + unat A \<le> 4294967296"
    and room: "heap_room V tid st N" "unat (aligned_size A sz) + 2 * msize A \<le> 4096 * N"
  shows "\<exists>p st' cs' len. malloc A V tid sz st = Some (Inr (p, st')) \<and> heap_ok A st' cs'
    \<and> heap_allocs A st' cs' = insert (unat p, len) (heap_allocs A st cs)
    \<and> unat sz \<le> len \<and> unat A dvd unat p \<and> p \<noteq> 0
    \<and> (\<forall>(b, l) \<in> heap_allocs A st cs. b + l \<le> unat p \<or> unat p + len \<le> b)
    \<and> contents_kept (heap_allocs A st cs) (h_mem st) (h_mem st')
    \<and> outside_kept (unat (heap_start (h_info st))) (unat (heap_end (h_info st'))) (h_mem st) (h_mem st')
    \<and> heap_semaphore (h_info st') = 0 \<and> (\<exists>k \<le> N. heap_room V tid st' (N - k)
        \<and> unat (heap_end (h_info st')) = unat (heap_end (h_info st)) + 4096 * k
        \<and> 4096 * k < unat (aligned_size A sz) + 2 * msize A + 4096)
    \<and> heap_start (h_info st') = heap_start (h_info st)"
  by (rule malloc_spec [OF assms])

theorem malloc_correct_witness:
  "\<exists>p st cs len. malloc 4 0xC0010000 2 10 example_heap = Some (Inr (p, st)) \<and> heap_ok 4 st cs
     \<and> heap_allocs 4 st cs = {(unat p, len)} \<and> 10 \<le> len"
proof -
  have "heap_semaphore (h_info example_heap) = 0" "unat (aligned_size 4 10) + 2 * msize 4 \<le> 4096 * 1"
    by (simp_all add: example_heap_def aligned_size_def msize_def start_size_def)
  moreover have "heap_allocs 4 example_heap [] = {}" by (simp add: heap_allocs_def)
  ultimately show ?thesis
    using malloc_correct [OF example_heap_ok _ _ _ example_heap_room, of 10] by auto
qed

text \<open>
  C22. A request within the alignment of \<open>SIZE_MAX\<close> overflows when it is rounded up: \<open>malloc\<close> then
  returns a non-null address of a block that is smaller than asked for, instead of failing.
\<close>

theorem malloc_overflow:
  assumes ok: "heap_ok A st cs" "heap_semaphore (h_info st) = 0"
    and sz: "4294967296 < unat sz + unat A" and room: "heap_room V tid st 1"
  shows "\<exists>p st' cs' len. malloc A V tid sz st = Some (Inr (p, st')) \<and> p \<noteq> 0 \<and> heap_ok A st' cs'
    \<and> heap_allocs A st' cs' = insert (unat p, len) (heap_allocs A st cs) \<and> len < unat sz"
proof -
  have A: "align_ok A" using ok(1) by (simp add: heap_ok_def)
  have K: "8 \<le> msize A" "msize A \<le> 16" "unat A \<le> 16"
    using marker_sizes(3) [OF A] A by (auto simp: align_ok_def)
  have sz0: "sz \<noteq> 0" using sz K(3) by auto
  have z: "aligned_size A sz = of_nat 0" using aligned_size_wraps [OF A sz] by simp
  have "0 + 2 * msize A \<le> 4096 * 1" using K by simp
  note mb = malloc_block [OF ok(1) room this _ z sz0 ok(2)]
  show ?thesis
  proof (rule mb)
    fix p st' cs' len
    assume r: "malloc A V tid sz st = Some (Inr (of_nat p, st'))" "heap_ok A st' cs'"
      "heap_allocs A st' cs' = insert (p, len) (heap_allocs A st cs)" "0 < p" "p + len + msize A < 4294967296"
    have u: "unat (of_nat p :: u32) = p" using r(5) by (simp add: unat_of_nat_u32)
    have "(of_nat p :: u32) \<noteq> 0" using of_nat_u32_eq [of p 0] r(4,5) by simp
    moreover have "2 * msize A \<le> p"
      using heap_allocs_bound(2) [OF r(2), of p len] r(2,3) by (simp add: heap_ok_def)
    then have "len < unat sz" using r(5) sz K by linarith
    ultimately show ?thesis
      using r(1-3) by (intro exI [of _ "of_nat p"] exI [of _ st'] exI [of _ cs'] exI [of _ len]) (simp only: u simp_thms)
  qed simp
qed

theorem malloc_overflow_witness:
  "\<exists>p st cs len. malloc 4 0xC0010000 2 0xFFFFFFFE example_heap = Some (Inr (p, st))
     \<and> heap_allocs 4 st cs = {(unat p, len)} \<and> len < 0xFFFFFFFE"
proof -
  have "heap_semaphore (h_info example_heap) = 0" by (simp add: example_heap_def)
  moreover have "heap_allocs 4 example_heap [] = {}" by (simp add: heap_allocs_def)
  ultimately show ?thesis
    using malloc_overflow [OF example_heap_ok _ _ example_heap_room, of "0xFFFFFFFE"] by auto
qed

text \<open>
  C20. \<open>free\<close> refines the release of a chunk in the list of chunks: for a block in use it returns,
  the heap holds the chunks of \<open>release\<close> (the freed one merged with a free neighbour on either side,
  so that no two free chunks are adjacent), every other block stays in use with its contents, and
  the address space and the limits of the heap do not change. The null pointer is ignored, and a
  block whose canary has been overwritten ends in a panic.
\<close>

theorem free_correct:
  assumes ok: "heap_ok A st (pre @ (n, False) # post)" "heap_semaphore (h_info st) = 0"
    and a: "a = unat (heap_start (h_info st)) + span A pre + msize A"
  shows "(\<exists>st'. free A tid (of_nat a) st = Inr st'
      \<and> heap_ok A st' (release (msize A) pre n post)
      \<and> heap_allocs A st' (release (msize A) pre n post) = heap_allocs A st (pre @ (n, False) # post) - {(a, n)}
      \<and> (coalesced (pre @ (n, False) # post) \<longrightarrow> coalesced (release (msize A) pre n post))
      \<and> contents_kept (heap_allocs A st (pre @ (n, False) # post) - {(a, n)}) (h_mem st) (h_mem st')
      \<and> h_info st' = h_info st \<and> h_mm st' = h_mm st)
    \<and> free A tid 0 st = Inr st
    \<and> (\<forall>ptr m. ptr \<noteq> 0 \<longrightarrow> end_canary m (ptr + marker_size m (ptr - start_size A)) \<noteq> CANARY \<longrightarrow>
         free A tid ptr (st\<lparr>h_mem := m\<rparr>) = Inl (Panic ''Dead heap canary''))"
proof (intro conjI)
  have K: "8 \<le> msize A" using ok(1) marker_sizes(3) [of A] by (auto simp: heap_ok_def)
  have B: "heap_allocs A st (pre @ (n, True) # post) = heap_allocs A st (pre @ (n, False) # post) - {(a, n)}"
    using allocs_one_freed [OF K] by (simp add: heap_allocs_def a)
  show "\<exists>st'. free A tid (of_nat a) st = Inr st'
      \<and> heap_ok A st' (release (msize A) pre n post)
      \<and> heap_allocs A st' (release (msize A) pre n post) = heap_allocs A st (pre @ (n, False) # post) - {(a, n)}
      \<and> (coalesced (pre @ (n, False) # post) \<longrightarrow> coalesced (release (msize A) pre n post))
      \<and> contents_kept (heap_allocs A st (pre @ (n, False) # post) - {(a, n)}) (h_mem st) (h_mem st')
      \<and> h_info st' = h_info st \<and> h_mm st' = h_mm st"
    by (rule free_run [OF ok, where tid = tid]) (use B release_coalesced in \<open>auto simp: a\<close>)
qed (simp_all add: free_def Let_def)

theorem free_correct_witness:
  "(\<exists>st. free 4 2 (of_nat 0x402008) example_used = Inr st \<and> heap_ok 4 st [(4080, True)] \<and> heap_allocs 4 st [(4080, True)] = {})
   \<and> free 4 2 16 (example_used\<lparr>h_mem := \<lambda>_. 0\<rparr>) = Inl (Panic ''Dead heap canary'')"
proof -
  have K: "msize 4 = 8" by (simp add: msize_def start_size_def aligned_size_def)
  have s: "heap_semaphore (h_info example_used) = 0" by (simp add: example_used_def example_heap_def)
  have u: "unat (heap_start (h_info example_used)) = 0x402000" by (simp add: example_used_def example_heap_def)
  have ok: "heap_ok 4 example_used ([] @ (12, False) # [(4052, True)])" using example_used_ok by simp
  have a: "0x402008 = unat (heap_start (h_info example_used)) + span 4 [] + msize 4" using u K by simp
  have r: "release (msize 4) [] 12 [(4052, True)] = [(4080, True)]" by (simp add: release_def K)
  have z: "end_canary (\<lambda>_. 0) (16 + marker_size (\<lambda>_. 0) (16 - start_size 4)) \<noteq> CANARY"
    by (simp add: end_canary_def load32_def CANARY_def)
  have "heap_allocs 4 st [(4080, True)] = {}" for st by (simp add: heap_allocs_def)
  then show ?thesis using free_correct [OF ok s a, where tid = 2] z unfolding r by force
qed

text \<open>
  C21. \<open>realloc\<close> moves a block: to a size that rounds up without overflow, given pages to grow, it
  returns a new block at least as big, whose first bytes are those of the old block up to the smaller of the two sizes;
  the old block is no longer in use and every other one keeps its contents. To size 0 it returns
  the null pointer and leaves the heap as it is: the old block is not released.
\<close>

theorem realloc_correct:
  assumes ok: "heap_ok A st cs" "heap_semaphore (h_info st) = 0"
    and old: "(a, n) \<in> heap_allocs A st cs"
    and sz: "sz \<noteq> 0" "unat sz + unat A \<le> 4294967296"
    and room: "heap_room V tid st N" "unat (aligned_size A sz) + 2 * msize A \<le> 4096 * N"
  shows "(\<exists>p st' cs' len. realloc A V tid (of_nat a) sz st = Some (Inr (of_nat p, st')) \<and> heap_ok A st' cs'
      \<and> heap_allocs A st' cs' = insert (p, len) (heap_allocs A st cs - {(a, n)}) \<and> unat sz \<le> len
      \<and> (\<forall>i < min (unat sz) n. h_mem st' (of_nat (p + i)) = h_mem st (of_nat (a + i)))
      \<and> contents_kept (heap_allocs A st cs - {(a, n)}) (h_mem st) (h_mem st'))
    \<and> realloc A V tid (of_nat a) 0 st = Some (Inr (0, st))"
proof (intro conjI)
  have A: "align_ok A" using ok(1) by (simp add: heap_ok_def)
  note e = aligned_size_exact [OF A sz(2)]
  show "realloc A V tid (of_nat a) 0 st = Some (Inr (0, st))" by (simp add: realloc_def)
  show "\<exists>p st' cs' len. realloc A V tid (of_nat a) sz st = Some (Inr (of_nat p, st')) \<and> heap_ok A st' cs'
      \<and> heap_allocs A st' cs' = insert (p, len) (heap_allocs A st cs - {(a, n)}) \<and> unat sz \<le> len
      \<and> (\<forall>i < min (unat sz) n. h_mem st' (of_nat (p + i)) = h_mem st (of_nat (a + i)))
      \<and> contents_kept (heap_allocs A st cs - {(a, n)}) (h_mem st) (h_mem st')"
  proof (rule malloc_block [OF ok(1) room e(4) _ sz(1) ok(2)])
    fix p st1 cs1 len
    assume r: "malloc A V tid sz st = Some (Inr (of_nat p, st1))" "heap_ok A st1 cs1" "unat (aligned_size A sz) \<le> len"
      "heap_allocs A st1 cs1 = insert (p, len) (heap_allocs A st cs)"
      "\<And>b l. (b, l) \<in> heap_allocs A st cs \<Longrightarrow> b + l \<le> p \<or> p + len \<le> b"
      "contents_kept (heap_allocs A st cs) (h_mem st) (h_mem st1)" "heap_semaphore (h_info st1) = 0"
      "unat A dvd p" "0 < p" "p + len + msize A < 4294967296"
    have "0 < unat sz" using sz(1) by (simp add: unat_gt_0)
    then have len: "unat sz \<le> len" "0 < len" using e(2) r(3) by linarith+
    have sub: "heap_allocs A st cs - {(a, n)} \<subseteq> heap_allocs A st1 cs1 - {(p, len), (a, n)}"
      using r(4,5) len(2) by fastforce
    have "(p, len) \<noteq> (a, n)" using r(5) [OF old] len(2) by auto
    then have al: "heap_allocs A st1 cs1 - {(a, n)} = insert (p, len) (heap_allocs A st cs - {(a, n)})" using r(4) by blast
    have in1: "(p, len) \<in> heap_allocs A st1 cs1" "(a, n) \<in> heap_allocs A st1 cs1" using r(4) old by simp_all
    show ?thesis
    proof (rule realloc_move [OF r(1,2,7) in1(1) len(1) in1(2) r(9,10) r(5) [OF old] sz(1)])
      fix st' cs'
      assume m: "realloc A V tid (of_nat a) sz st = Some (Inr (of_nat p, st'))" "heap_ok A st' cs'"
        "heap_allocs A st' cs' = heap_allocs A st1 cs1 - {(a, n)}"
        "\<forall>i < min (unat sz) n. h_mem st' (of_nat (p + i)) = h_mem st1 (of_nat (a + i))"
        "contents_kept (heap_allocs A st1 cs1 - {(p, len), (a, n)}) (h_mem st1) (h_mem st')"
      have "contents_kept (heap_allocs A st cs - {(a, n)}) (h_mem st) (h_mem st')"
        using contents_kept_trans [OF contents_kept_mono [OF r(6)] contents_kept_mono [OF m(5) sub]] by blast
      moreover have "h_mem st1 (of_nat (a + i)) = h_mem st (of_nat (a + i))" if "i < n" for i
        using r(6) old that by (auto simp: contents_kept_def simp del: of_nat_add)
      ultimately show ?thesis
        using m(1-4) len(1) unfolding al
        by (intro exI [of _ p] exI [of _ st'] exI [of _ cs'] exI [of _ len]) simp
    qed
  qed simp
qed

theorem realloc_correct_witness:
  "\<exists>p st cs len. realloc 4 0xC0010000 2 (of_nat 0x402008) 100 example_used = Some (Inr (of_nat p, st))
     \<and> heap_ok 4 st cs \<and> heap_allocs 4 st cs = {(p, len)} \<and> 100 \<le> len"
proof -
  have K: "msize 4 = 8" by (simp add: msize_def start_size_def aligned_size_def)
  have s: "heap_semaphore (h_info example_used) = 0" by (simp add: example_used_def example_heap_def)
  have al: "heap_allocs 4 example_used [(12, False), (4052, True)] = {(0x402008, 12)}"
    by (simp add: heap_allocs_def K example_used_def example_heap_def)
  have "unat (aligned_size 4 100) + 2 * msize 4 \<le> 4096 * 1" by (simp add: aligned_size_def K)
  then show ?thesis
    using realloc_correct [OF example_used_ok s _ _ _ example_used_room, of "0x402008" 12 100] unfolding al by auto
qed

end
