(* ===== verification/Stack.thy ===== *)
theory Stack
  imports Malloc
begin

text \<open>
  The kernel stacks of \<open>kernel/src/arch/i386/mm/stack.c\<close>: four pages each, taken from a bitmap of
  slots that grow down from \<open>stacks_start\<close>, with a canary at both ends and the address of the
  thread's control block above the initial stack pointer, where \<open>current_process_control_block\<close>
  (\<open>arch/i386/sched/process.c\<close>) finds it from any stack pointer. Stack memory is written through the
  page tables; the array of bitmaps is the list \<open>stacks_bitmaps\<close> of the ring info.
\<close>

section \<open>Free slots\<close>

function find_free_bit_loop :: "u32 \<Rightarrow> nat \<Rightarrow> int result" where
  "find_free_bit_loop bitfield i =
     (if i < 32 then
        let test = push_bit i 1
        in if bitfield AND test \<noteq> test then Inr (int i) else find_free_bit_loop bitfield (i + 1)
      else Inl (Panic ''Logic error''))"
  by pat_completeness auto
termination
  by (relation "measure (\<lambda>(b, i). 32 - i)") auto

declare find_free_bit_loop.simps [simp del]

definition find_free_bit :: "u32 \<Rightarrow> int result" where
  "find_free_bit bitfield = (if bitfield = 0xFFFFFFFF then Inr (- 1) else find_free_bit_loop bitfield 0)"

text \<open>
  The loop over the bitmaps, with the number of iterations left: the index at which it stops, the
  bit it has taken (\<open>-1\<close> for none) and the bitmaps.
\<close>

fun find_slot :: "u32 list \<Rightarrow> nat \<Rightarrow> nat \<Rightarrow> (nat \<times> int \<times> u32 list) result" where
  "find_slot bitmaps bitmap_id 0 = Inr (bitmap_id, - 1, bitmaps)"
| "find_slot bitmaps bitmap_id (Suc n) =
     (if bitmap_id < length bitmaps then
        bindE (find_free_bit (bitmaps ! bitmap_id)) (\<lambda>bitmap_field.
        if bitmap_field \<noteq> - 1
        then Inr (bitmap_id, bitmap_field,
                  bitmaps[bitmap_id := bitmaps ! bitmap_id OR push_bit (nat bitmap_field) 1])
        else find_slot bitmaps (bitmap_id + 1) n)
      else Inl (BadAccess (of_nat bitmap_id)))"

section \<open>Allocation\<close>

definition MM_STACK_PAGE_SIZE :: nat where
  "MM_STACK_PAGE_SIZE = 4"

fun free_pages :: "u32 \<Rightarrow> u32 \<Rightarrow> u32 list \<Rightarrow> mm_state \<Rightarrow> mm_state result" where
  "free_pages V tid [] mm = Inr mm"
| "free_pages V tid (p # pages) mm = bindE (mm_free_physical_page V tid mm p) (free_pages V tid pages)"

text \<open>The pages of a stack, or \<open>None\<close> when there are not enough and those taken have been freed.\<close>

fun alloc_stack_pages :: "u32 \<Rightarrow> u32 \<Rightarrow> nat \<Rightarrow> u32 list \<Rightarrow> mm_state \<Rightarrow> (u32 list option \<times> mm_state) result" where
  "alloc_stack_pages V tid 0 pages mm = Inr (Some pages, mm)"
| "alloc_stack_pages V tid (Suc n) pages mm =
     bindE (mm_alloc_physical_page V tid True mm) (\<lambda>(p, mm).
     if p = 0 then bindE (free_pages V tid pages mm) (\<lambda>mm. Inr (None, mm))
     else alloc_stack_pages V tid n (pages @ [p]) mm)"

fun map_stack_pages ::
    "u32 \<Rightarrow> u32 \<Rightarrow> u32 list \<Rightarrow> u32 \<Rightarrow> nat \<Rightarrow> u32 list \<Rightarrow> mm_state \<Rightarrow> (bool \<times> mm_state) result" where
  "map_stack_pages V tid pages stack_top i [] mm = Inr (True, mm)"
| "map_stack_pages V tid pages stack_top i (p # ps) mm =
     bindE (mm_map_page V tid mm p (stack_top - 0x1000 * of_nat i)) (\<lambda>(res, mm).
     if res \<noteq> 0 then bindE (free_pages V tid pages mm) (\<lambda>mm. Inr (False, mm))
     else map_stack_pages V tid pages stack_top (i + 1) ps mm)"

definition stacks_lock :: "u32 \<Rightarrow> mm_ring_info \<Rightarrow> mm_ring_info result" where
  "stacks_lock tid info =
     (case semaphore_acquire tid (stacks_semaphore info) of
        None \<Rightarrow> Inl Blocked
      | Some l \<Rightarrow> Inr (info\<lparr>stacks_semaphore := l\<rparr>))"

definition stacks_unlock :: "mm_ring_info \<Rightarrow> mm_ring_info" where
  "stacks_unlock info = info\<lparr>stacks_semaphore := semaphore_release (stacks_semaphore info)\<rparr>"

definition mm_alloc_stack :: "u32 \<Rightarrow> u32 \<Rightarrow> u32 \<Rightarrow> mm_ring_info \<Rightarrow> mm_state \<Rightarrow> (u32 \<times> mm_ring_info \<times> mm_state) result" where
  "mm_alloc_stack V tid new_pcb info mm =
     bindE (alloc_stack_pages V tid MM_STACK_PAGE_SIZE [] mm) (\<lambda>(pages, mm).
     case pages of
       None \<Rightarrow> Inr (0, info, mm)
     | Some pages \<Rightarrow>
         bindE (stacks_lock tid info) (\<lambda>info.
         bindE (find_slot (stacks_bitmaps info) 0 (unat (stacks_bitmaps_length info)))
           (\<lambda>(bitmap_id, bitmap_field, bitmaps).
         if bitmap_field = - 1
         then Inl (Panic ''not implemented: increase kernel_info->stacks_bitmaps'')
         else
           let info = stacks_unlock (info\<lparr>stacks_bitmaps := bitmaps\<rparr>);
               stack_top = stacks_start info - (32 * of_nat bitmap_id + of_int bitmap_field) * 4 * 4096
           in bindE (map_stack_pages V tid pages stack_top 1 pages mm) (\<lambda>(done, mm).
              if \<not> done then Inr (0, info, mm)
              else
                let base = stack_top - 4 * 4096
                in bindE (vwrite mm (base OR 0xC) 0xDEADBEEF) (\<lambda>mm.
                   bindE (vwrite mm (base OR 0x3FF0) 0xDEADBEEF) (\<lambda>mm.
                   bindE (vwrite mm (base OR 0x3FF8) new_pcb) (\<lambda>mm.
                   Inr (base OR 0x3FF0, info, mm))))))))"

section \<open>Release\<close>

fun unmap_stack_pages :: "u32 \<Rightarrow> u32 \<Rightarrow> u32 \<Rightarrow> nat \<Rightarrow> nat \<Rightarrow> mm_state \<Rightarrow> mm_state result" where
  "unmap_stack_pages V tid stack_top i 0 mm = Inr mm"
| "unmap_stack_pages V tid stack_top i (Suc n) mm =
     bindE (mm_unmap_page V tid mm (stack_top - 0x1000 * of_nat i)) (\<lambda>(pa, mm).
     bindE (mm_free_physical_page V tid mm pa) (unmap_stack_pages V tid stack_top (i + 1) n))"

definition stack_slot :: "u32 \<Rightarrow> u32 \<Rightarrow> u32" where
  "stack_slot start sp = (start - sp) div (4 * 4096)"

definition mm_free_stack :: "u32 \<Rightarrow> u32 \<Rightarrow> u32 \<Rightarrow> mm_ring_info \<Rightarrow> mm_state \<Rightarrow> (mm_ring_info \<times> mm_state) result" where
  "mm_free_stack V tid sp info mm =
     (let bitmap_field = stack_slot (stacks_start info) sp;
          bitmap_id = bitmap_field div 32;
          bitmap_field = bitmap_field mod 32;
          stack_top = stacks_start info - (32 * bitmap_id + bitmap_field) * 4 * 4096
      in bindE (unmap_stack_pages V tid stack_top 1 MM_STACK_PAGE_SIZE mm) (\<lambda>mm.
         bindE (stacks_lock tid info) (\<lambda>info.
         let i = unat bitmap_id; bitmaps = stacks_bitmaps info
         in if i < length bitmaps
            then Inr (stacks_unlock (info\<lparr>stacks_bitmaps :=
                   bitmaps[i := bitmaps ! i AND NOT (push_bit (unat bitmap_field) 1)]\<rparr>), mm)
            else Inl (BadAccess bitmap_id))))"

section \<open>The bootstrap stack\<close>

fun init_stack_pages :: "u32 \<Rightarrow> u32 \<Rightarrow> nat \<Rightarrow> nat \<Rightarrow> mm_state \<Rightarrow> mm_state result" where
  "init_stack_pages V tid i 0 mm = Inr mm"
| "init_stack_pages V tid i (Suc n) mm =
     bindE (mm_alloc_physical_page V tid True mm) (\<lambda>(p, mm).
     if p = 0 then Inl (Panic ''Failed to allocate a page to extend the stack'')
     else bindE (mm_map_page V tid mm p (0xFFBFE000 - 0x1000 * of_nat i)) (\<lambda>(res, mm).
          if res \<noteq> 0 then Inl (Panic ''Can't map new page for the stack'')
          else init_stack_pages V tid (i + 1) n mm))"

definition mm_init_stack :: "u32 \<Rightarrow> u32 \<Rightarrow> u32 \<Rightarrow> heap_state \<Rightarrow> heap_state result option" where
  "mm_init_stack A V tid st =
     (case bindE (init_stack_pages V tid 0 3 (h_mm st)) (\<lambda>mm. vwrite mm 0xFFBFC00C 0xDEADBEEF) of
        Inl e \<Rightarrow> Some (Inl e)
      | Inr mm \<Rightarrow>
          map_option
            (\<lambda>r. bindE r (\<lambda>(bitmap, st).
               if bitmap = 0 then Inl (Panic ''Failed to init kernel mm_ring_info_t'')
               else Inr (st\<lparr>h_info := (h_info st)\<lparr>stacks_bitmaps := [1], stacks_bitmaps_length := 1\<rparr>\<rparr>)))
            (malloc A V tid 4 (st\<lparr>h_mm := mm\<rparr>)))"

section \<open>The control block of the running thread\<close>

definition current_process_control_block_ptr :: "u32 \<Rightarrow> u32" where
  "current_process_control_block_ptr esp = (esp AND 0xFFFFD000) OR 0x3FF8"

definition current_process_control_block :: "mm_state \<Rightarrow> u32 \<Rightarrow> u32 result" where
  "current_process_control_block mm esp = vread mm (current_process_control_block_ptr esp)"

end
