(* ===== verification/Sched.thy ===== *)
theory Sched
  imports Stack
begin

text \<open>
  The scheduler of \<open>kernel/src/arch/i386/sched/scheduler.c\<close>: the tasks in a store from addresses to
  structures, the schedule ring, the list of sleeping tasks and the list of tasks to clean up, the
  handlers of the timer interrupt and of the two software interrupts (\<open>interrupts.S\<close>), and the
  creation of threads, which takes memory from the kernel heap and a kernel stack.
\<close>

section \<open>Data\<close>

record machine_state =
  ss :: u16
  esp :: u32

record task =
  t_next :: u32
  t_previous :: u32
  remaining_ticks :: u32
  t_pcb :: u32
  t_ms :: u32

datatype thread_priority = PRIORITY_LOW | PRIORITY_NORMAL | PRIORITY_HIGH

fun priority_ticks :: "thread_priority \<Rightarrow> u32" where
  "priority_ticks PRIORITY_LOW = 5"
| "priority_ticks PRIORITY_NORMAL = 10"
| "priority_ticks PRIORITY_HIGH = 20"

record process_control_block =
  tgid :: u32
  tid :: u32
  priority :: u32
  p_mm_info :: u32
  p_vfs_info :: u32

record mm_info =
  page_dir :: u32
  kernel_info :: u32

text \<open>
  The static variables of the file, the structures in memory, the heap they come from and the
  interrupt flag. The null pointer is 0.
\<close>

record sched_state =
  s_tasks :: "u32 \<rightharpoonup> task"
  s_ms :: "u32 \<rightharpoonup> machine_state"
  s_pcbs :: "u32 \<rightharpoonup> process_control_block"
  s_mm_infos :: "u32 \<rightharpoonup> mm_info"
  current_task :: u32
  switching :: bool
  switched_task :: u32
  sleeping_task :: u32
  doomed_task :: u32
  idle_task :: u32
  next_tid :: u32
  itr_enabled :: bool
  s_sys :: heap_state

section \<open>Access through pointers\<close>

definition deref :: "(u32 \<rightharpoonup> 'a) \<Rightarrow> u32 \<Rightarrow> 'a result" where
  "deref store p = (case store p of None \<Rightarrow> Inl (BadAccess p) | Some x \<Rightarrow> Inr x)"

definition modify_at :: "(u32 \<rightharpoonup> 'a) \<Rightarrow> u32 \<Rightarrow> ('a \<Rightarrow> 'a) \<Rightarrow> (u32 \<rightharpoonup> 'a) result" where
  "modify_at store p f = bindE (deref store p) (\<lambda>x. Inr (store(p \<mapsto> f x)))"

lemma deref_Some [simp]: "store p = Some x \<Longrightarrow> deref store p = Inr x"
  by (simp add: deref_def)

lemma modify_at_Some [simp]: "store p = Some x \<Longrightarrow> modify_at store p f = Inr (store(p \<mapsto> f x))"
  by (simp add: modify_at_def)

definition set_task :: "u32 \<Rightarrow> (task \<Rightarrow> task) \<Rightarrow> sched_state \<Rightarrow> sched_state result" where
  "set_task p f st = bindE (modify_at (s_tasks st) p f) (\<lambda>tasks. Inr (st\<lparr>s_tasks := tasks\<rparr>))"

section \<open>Switching\<close>

definition save_context :: "u32 \<Rightarrow> u16 \<Rightarrow> u32 \<Rightarrow> sched_state \<Rightarrow> sched_state result" where
  "save_context p ss0 esp0 st =
     bindE (deref (s_tasks st) p) (\<lambda>t.
     bindE (modify_at (s_ms st) (t_ms t) (\<lambda>_. \<lparr>ss = ss0, esp = esp0\<rparr>)) (\<lambda>ms.
     Inr (st\<lparr>s_ms := ms\<rparr>)))"

definition task_page_dir :: "sched_state \<Rightarrow> u32 \<Rightarrow> u32 result" where
  "task_page_dir st p =
     bindE (deref (s_tasks st) p) (\<lambda>t.
     bindE (deref (s_pcbs st) (t_pcb t)) (\<lambda>pcb.
     bindE (deref (s_mm_infos st) (p_mm_info pcb)) (\<lambda>mi. Inr (page_dir mi))))"

definition sched_switch_next_task ::
    "u16 \<Rightarrow> u32 \<Rightarrow> sched_state \<Rightarrow> ((u32 \<times> u16 \<times> u32) \<times> sched_state) result" where
  "sched_switch_next_task ss0 esp0 st =
     bindE
       (if switching st then
          bindE (save_context (if current_task st \<noteq> 0 then current_task st else idle_task st) ss0 esp0 st) (\<lambda>st.
          if switched_task st \<noteq> 0 then
            let st = st\<lparr>current_task := switched_task st\<rparr>
            in bindE (deref (s_tasks st) (current_task st)) (\<lambda>t.
               bindE (deref (s_pcbs st) (t_pcb t)) (\<lambda>pcb.
               bindE (set_task (current_task st) (remaining_ticks_update (\<lambda>_. priority pcb)) st) (\<lambda>st.
               bindE (deref (s_ms st) (t_ms t)) (\<lambda>ms. Inr (ss ms, esp ms, st)))))
          else
            let st = st\<lparr>current_task := 0\<rparr>
            in bindE (deref (s_tasks st) (idle_task st)) (\<lambda>t.
               bindE (deref (s_ms st) (t_ms t)) (\<lambda>ms. Inr (ss ms, esp ms, st))))
        else Inr (ss0, esp0, st))
       (\<lambda>(ss1, esp1, st).
        bindE (task_page_dir st (if current_task st \<noteq> 0 then current_task st else idle_task st)) (\<lambda>dir.
        Inr ((dir, ss1, esp1), st)))"

section \<open>The schedule ring\<close>

definition insert_after :: "u32 \<Rightarrow> u32 \<Rightarrow> sched_state \<Rightarrow> sched_state result" where
  "insert_after anchor p st =
     bindE (deref (s_tasks st) anchor) (\<lambda>a.
     bindE (set_task p (t_next_update (\<lambda>_. t_next a)) st) (\<lambda>st.
     bindE (set_task p (t_previous_update (\<lambda>_. anchor)) st) (\<lambda>st.
     bindE (deref (s_tasks st) p) (\<lambda>t.
     bindE (set_task (t_next t) (t_previous_update (\<lambda>_. p)) st) (\<lambda>st.
     set_task anchor (t_next_update (\<lambda>_. p)) st)))))"

definition put_in_schedule_ring :: "u32 \<Rightarrow> sched_state \<Rightarrow> sched_state result" where
  "put_in_schedule_ring p st =
     (if current_task st \<noteq> 0 then insert_after (current_task st) p st
      else if switched_task st \<noteq> 0 then insert_after (switched_task st) p st
      else
        bindE (set_task p (t_next_update (\<lambda>_. p)) st) (\<lambda>st.
        bindE (set_task p (t_previous_update (\<lambda>_. p)) st) (\<lambda>st.
        Inr (st\<lparr>switched_task := p, switching := True\<rparr>))))"

definition remove_from_schedule_ring :: "sched_state \<Rightarrow> (u32 \<times> sched_state) result" where
  "remove_from_schedule_ring st =
     (let removed = current_task st
      in bindE (deref (s_tasks st) removed) (\<lambda>r.
         if removed = t_next r then Inr (removed, st\<lparr>switched_task := 0\<rparr>)
         else
           bindE (set_task (t_previous r) (t_next_update (\<lambda>_. t_next r)) st) (\<lambda>st.
           bindE (deref (s_tasks st) removed) (\<lambda>r.
           bindE (set_task (t_next r) (t_previous_update (\<lambda>_. t_previous r)) st) (\<lambda>st.
           bindE (deref (s_tasks st) removed) (\<lambda>r.
           Inr (removed, st\<lparr>switched_task := t_next r\<rparr>)))))))"

section \<open>Cleaning up\<close>

text \<open>The structures of \<open>task->ms\<close> and \<open>task->pcb\<close> are gone after \<open>free\<close>; \<open>task\<close> itself is not freed.\<close>

partial_function (option) cleanup_loop ::
    "u32 \<Rightarrow> u32 \<Rightarrow> u32 \<Rightarrow> u32 \<Rightarrow> sched_state \<Rightarrow> sched_state result option" where
  "cleanup_loop A V me p st =
     (if p \<noteq> 0 then
        (case bindE (deref (s_tasks st) p) (\<lambda>t.
              bindE (deref (s_pcbs st) (t_pcb t)) (\<lambda>pcb.
              bindE (deref (s_mm_infos st) (p_mm_info pcb)) (\<lambda>mi.
              bindE (deref (s_ms st) (t_ms t)) (\<lambda>ms.
              bindE (mm_free_stack V me (esp ms) (h_info (s_sys st)) (h_mm (s_sys st))) (\<lambda>(info, mm).
              bindE (free A me (t_ms t) ((s_sys st)\<lparr>h_info := info, h_mm := mm\<rparr>)) (\<lambda>sys.
              bindE (free A me (t_pcb t) sys) (\<lambda>sys.
              Inr (t_next t, st\<lparr>s_sys := sys, s_ms := (s_ms st)(t_ms t := None),
                     s_pcbs := (s_pcbs st)(t_pcb t := None)\<rparr>)))))))) of
           Inl e \<Rightarrow> Some (Inl e)
         | Inr (next_task, st) \<Rightarrow> cleanup_loop A V me next_task st)
      else Some (Inr st))"

definition cleanup_doomed_tasks :: "u32 \<Rightarrow> u32 \<Rightarrow> u32 \<Rightarrow> sched_state \<Rightarrow> sched_state result option" where
  "cleanup_doomed_tasks A V me st =
     map_option (\<lambda>r. bindE r (\<lambda>st. Inr (st\<lparr>doomed_task := 0\<rparr>))) (cleanup_loop A V me (doomed_task st) st)"

section \<open>The timer\<close>

partial_function (option) wake_loop :: "sched_state \<Rightarrow> sched_state result option" where
  "wake_loop st =
     (if sleeping_task st \<noteq> 0 then
        (case deref (s_tasks st) (sleeping_task st) of
           Inl e \<Rightarrow> Some (Inl e)
         | Inr t \<Rightarrow>
             if remaining_ticks t = 0 then
               (case put_in_schedule_ring (sleeping_task st) st of
                  Inl e \<Rightarrow> Some (Inl e)
                | Inr st \<Rightarrow> wake_loop (st\<lparr>sleeping_task := t_next t\<rparr>))
             else Some (Inr st))
      else Some (Inr st))"

definition wake_sleeping :: "sched_state \<Rightarrow> sched_state result option" where
  "wake_sleeping st =
     (if sleeping_task st \<noteq> 0 then
        (case set_task (sleeping_task st) (\<lambda>t. t\<lparr>remaining_ticks := remaining_ticks t - 1\<rparr>) st of
           Inl e \<Rightarrow> Some (Inl e)
         | Inr st \<Rightarrow> wake_loop st)
      else Some (Inr st))"

definition count_tick :: "sched_state \<Rightarrow> sched_state result" where
  "count_tick st =
     (if current_task st \<noteq> 0 then
        bindE (set_task (current_task st) (\<lambda>t. t\<lparr>remaining_ticks := remaining_ticks t - 1\<rparr>) st) (\<lambda>st.
        bindE (deref (s_tasks st) (current_task st)) (\<lambda>t.
        if remaining_ticks t = 0 then Inr (st\<lparr>switched_task := t_next t, switching := True\<rparr>)
        else Inr (st\<lparr>switching := False\<rparr>)))
      else Inr st)"

definition bindO :: "'a result option \<Rightarrow> ('a \<Rightarrow> 'b result option) \<Rightarrow> 'b result option" where
  "bindO r f = (case r of None \<Rightarrow> None | Some (Inl e) \<Rightarrow> Some (Inl e) | Some (Inr x) \<Rightarrow> f x)"

definition sched_ms_tick :: "u32 \<Rightarrow> u32 \<Rightarrow> u32 \<Rightarrow> sched_state \<Rightarrow> sched_state result option" where
  "sched_ms_tick A V me st =
     bindO (cleanup_doomed_tasks A V me st) (\<lambda>st.
     bindO (wake_sleeping st) (\<lambda>st.
     Some (count_tick st)))"

section \<open>Parking and killing\<close>

text \<open>The place of the new sleeper: \<open>previous\<close>, \<open>t\<close> and what remains of the delay there.\<close>

partial_function (option) find_bed ::
    "(u32 \<rightharpoonup> task) \<Rightarrow> u32 \<Rightarrow> u32 \<Rightarrow> u32 \<Rightarrow> (u32 \<times> u32 \<times> u32) result option" where
  "find_bed tasks previous p remaining =
     (if p \<noteq> 0 then
        (case deref tasks p of
           Inl e \<Rightarrow> Some (Inl e)
         | Inr t \<Rightarrow>
             if remaining_ticks t < remaining then find_bed tasks p (t_next t) (remaining - remaining_ticks t)
             else Some (Inr (previous, p, remaining)))
      else Some (Inr (previous, p, remaining)))"

definition go_to_bed :: "u32 \<Rightarrow> u32 \<Rightarrow> sched_state \<Rightarrow> sched_state result option" where
  "go_to_bed going_to_bed ms0 st =
     (if sleeping_task st = 0 then
        Some (bindE (set_task going_to_bed (\<lambda>t. t\<lparr>t_next := 0, remaining_ticks := ms0\<rparr>) st) (\<lambda>st.
              Inr (st\<lparr>sleeping_task := going_to_bed\<rparr>)))
      else
        bindO (find_bed (s_tasks st) 0 (sleeping_task st) ms0) (\<lambda>(previous, t, remaining).
        Some (bindE (set_task going_to_bed (\<lambda>u. u\<lparr>remaining_ticks := remaining, t_next := t\<rparr>) st) (\<lambda>st.
              bindE (if previous \<noteq> 0 then set_task previous (t_next_update (\<lambda>_. going_to_bed)) st
                     else Inr (st\<lparr>sleeping_task := going_to_bed\<rparr>)) (\<lambda>st.
              if t \<noteq> 0 then set_task t (\<lambda>u. u\<lparr>remaining_ticks := remaining_ticks u - remaining\<rparr>) st
              else Inr st)))))"

definition sched_park_task :: "u32 \<Rightarrow> sched_state \<Rightarrow> sched_state result option" where
  "sched_park_task ms0 st =
     (let st = st\<lparr>switching := True\<rparr>
      in if ms0 = 0 then
           Some (bindE (deref (s_tasks st) (current_task st)) (\<lambda>t. Inr (st\<lparr>switched_task := t_next t\<rparr>)))
         else
           bindO (Some (remove_from_schedule_ring st)) (\<lambda>(going_to_bed, st). go_to_bed going_to_bed ms0 st))"

definition sched_kill_task :: "sched_state \<Rightarrow> sched_state result" where
  "sched_kill_task st =
     bindE (remove_from_schedule_ring (st\<lparr>switching := True\<rparr>)) (\<lambda>(dead, st).
     bindE (set_task dead (t_next_update (\<lambda>_. doomed_task st)) st) (\<lambda>st.
     Inr (st\<lparr>doomed_task := dead\<rparr>)))"

section \<open>The interrupt handlers\<close>

text \<open>
  What \<open>irq0_handler\<close>, \<open>int50_handler\<close> and \<open>int51_handler\<close> do between saving the registers on the stack
  at \<open>ss0:esp0\<close> and restoring them from the stack of the next task, under its page directory.
\<close>

definition irq0_handler ::
    "u32 \<Rightarrow> u32 \<Rightarrow> u32 \<Rightarrow> u16 \<Rightarrow> u32 \<Rightarrow> sched_state \<Rightarrow> ((u32 \<times> u16 \<times> u32) \<times> sched_state) result option" where
  "irq0_handler A V me ss0 esp0 st =
     bindO (sched_ms_tick A V me st) (\<lambda>st. Some (sched_switch_next_task ss0 esp0 st))"

definition int50_handler ::
    "u32 \<Rightarrow> u16 \<Rightarrow> u32 \<Rightarrow> sched_state \<Rightarrow> ((u32 \<times> u16 \<times> u32) \<times> sched_state) result option" where
  "int50_handler eax ss0 esp0 st =
     bindO (sched_park_task eax st) (\<lambda>st. Some (sched_switch_next_task ss0 esp0 st))"

definition int51_handler ::
    "u16 \<Rightarrow> u32 \<Rightarrow> sched_state \<Rightarrow> ((u32 \<times> u16 \<times> u32) \<times> sched_state) result" where
  "int51_handler ss0 esp0 st = bindE (sched_kill_task st) (sched_switch_next_task ss0 esp0)"

section \<open>Creation\<close>

text \<open>
  \<open>nexttid\<close> returns with the interrupts enabled, whatever they were before.
\<close>

definition itr_disable :: "sched_state \<Rightarrow> sched_state" where
  "itr_disable st = st\<lparr>itr_enabled := False\<rparr>"

definition itr_enable :: "sched_state \<Rightarrow> sched_state" where
  "itr_enable st = st\<lparr>itr_enabled := True\<rparr>"

definition nexttid :: "sched_state \<Rightarrow> u32 \<times> sched_state" where
  "nexttid st =
     (let st = itr_disable st;
          st = st\<lparr>next_tid := next_tid st + 1\<rparr>;
          res = next_tid st
      in (res, itr_enable st))"

text \<open>A structure fresh from \<open>malloc\<close> has the values its memory holds.\<close>

definition raw_task :: "mem \<Rightarrow> u32 \<Rightarrow> task" where
  "raw_task m p = \<lparr>t_next = load32 m p, t_previous = load32 m (p + 4), remaining_ticks = load32 m (p + 8),
     t_pcb = load32 m (p + 12), t_ms = load32 m (p + 16)\<rparr>"

definition raw_pcb :: "mem \<Rightarrow> u32 \<Rightarrow> process_control_block" where
  "raw_pcb m p = \<lparr>tgid = load32 m p, tid = load32 m (p + 4), priority = load32 m (p + 8),
     p_mm_info = load32 m (p + 12), p_vfs_info = load32 m (p + 16)\<rparr>"

definition raw_ms :: "mem \<Rightarrow> u32 \<Rightarrow> machine_state" where
  "raw_ms m p = \<lparr>ss = ucast (load32 m p), esp = load32 m (p + 4)\<rparr>"

definition new_object :: "u32 \<Rightarrow> u32 \<Rightarrow> u32 \<Rightarrow> u32 \<Rightarrow> string \<Rightarrow> sched_state \<Rightarrow> (u32 \<times> sched_state) result option" where
  "new_object A V me sz what st =
     map_option (\<lambda>r. bindE r (\<lambda>(p, sys). if p = 0 then Inl (Panic what) else Inr (p, st\<lparr>s_sys := sys\<rparr>)))
       (malloc A V me sz (s_sys st))"

fun push_words :: "u32 \<Rightarrow> u32 list \<Rightarrow> mm_state \<Rightarrow> (u32 \<times> mm_state) result" where
  "push_words sp [] mm = Inr (sp, mm)"
| "push_words sp (v # vs) mm = (let sp = sp - 4 in bindE (vwrite mm sp v) (push_words sp vs))"

definition initial_frame :: "u32 \<Rightarrow> u32 \<Rightarrow> u32 \<Rightarrow> u32 list" where
  "initial_frame exit_addr func data =
     [42, data, exit_addr, 0x00200286, 0x08, func, 0, 0, 0, 0, 0, 0, 0, 0, 0x10, 0x10, 0x10, 0x10]"

text \<open>
  The mm info and the thread group of the new thread: those of the running thread, or new ones.
\<close>

definition new_process_info ::
    "u32 \<Rightarrow> u32 \<Rightarrow> u32 \<Rightarrow> process_control_block \<Rightarrow> u32 \<Rightarrow> bool \<Rightarrow> sched_state \<Rightarrow> ((u32 \<times> u32) \<times> sched_state) result option" where
  "new_process_info A V me current_pcb newtid new_process st =
     (if new_process then
        bindO (new_object A V me 8 ''Failed to allocate new mm_info'' st) (\<lambda>(p, st).
        Some (bindE (deref (s_mm_infos st) (p_mm_info current_pcb)) (\<lambda>mi.
              bindE (mm_new_page_directory V me (h_mm (s_sys st))) (\<lambda>(dir, mm).
              Inr ((newtid, p), st\<lparr>s_mm_infos := (s_mm_infos st)(p \<mapsto> \<lparr>page_dir = dir, kernel_info = kernel_info mi\<rparr>),
                                s_sys := (s_sys st)\<lparr>h_mm := mm\<rparr>\<rparr>)))))
      else Some (Inr ((tgid current_pcb, p_mm_info current_pcb), st)))"

definition new_stack ::
    "u32 \<Rightarrow> u32 \<Rightarrow> u32 \<Rightarrow> u32 list \<Rightarrow> sched_state \<Rightarrow> (u32 \<times> sched_state) result" where
  "new_stack V me new_pcb words st =
     bindE (mm_alloc_stack V me new_pcb (h_info (s_sys st)) (h_mm (s_sys st))) (\<lambda>(sp, info, mm).
     if sp = 0 then Inl (Panic ''Failed to allocate new stack'')
     else bindE (push_words sp words mm) (\<lambda>(sp, mm).
          Inr (sp, st\<lparr>s_sys := (s_sys st)\<lparr>h_info := info, h_mm := mm\<rparr>\<rparr>)))"

definition create_new_task ::
    "u32 \<Rightarrow> u32 \<Rightarrow> u32 \<Rightarrow> u32 \<Rightarrow> u32 \<Rightarrow> u32 \<Rightarrow> u32 \<Rightarrow> thread_priority \<Rightarrow> u32 \<Rightarrow> bool \<Rightarrow> sched_state \<Rightarrow> (u32 \<times> sched_state) result option" where
  "create_new_task A V me esp0 exit_addr func data prio newtid new_process st =
     bindO (new_object A V me 20 ''Failed to allocate new pcb'' st) (\<lambda>(pcbp, st).
     let new_pcb = raw_pcb (h_mem (s_sys st)) pcbp
     in bindO (Some (bindE (current_process_control_block (h_mm (s_sys st)) esp0) (deref (s_pcbs st)))) (\<lambda>current_pcb.
        bindO (new_process_info A V me current_pcb newtid new_process st) (\<lambda>((group, mmi), st).
        let new_pcb = new_pcb\<lparr>tid := newtid, priority := priority_ticks prio, tgid := group, p_mm_info := mmi\<rparr>;
            st = st\<lparr>s_pcbs := (s_pcbs st)(pcbp \<mapsto> new_pcb)\<rparr>
        in bindO (Some (new_stack V me pcbp (initial_frame exit_addr func data) st)) (\<lambda>(sp, st).
           bindO (new_object A V me 8 ''Failed to allocate new machine_state'' st) (\<lambda>(msp, st).
           let st = st\<lparr>s_ms := (s_ms st)(msp \<mapsto> \<lparr>ss = 0x10, esp = sp\<rparr>)\<rparr>
           in bindO (new_object A V me 20 ''Failed to allocate new task'' st) (\<lambda>(p, st).
              let t = (raw_task (h_mem (s_sys st)) p)\<lparr>remaining_ticks := priority_ticks prio, t_ms := msp, t_pcb := pcbp\<rparr>
              in Some (Inr (p, st\<lparr>s_tasks := (s_tasks st)(p \<mapsto> t)\<rparr>))))))))"

text \<open>The identifier that \<open>sched_new_thread\<close> stores through its first argument is its result here.\<close>

definition sched_new_thread ::
    "u32 \<Rightarrow> u32 \<Rightarrow> u32 \<Rightarrow> u32 \<Rightarrow> u32 \<Rightarrow> u32 \<Rightarrow> u32 \<Rightarrow> thread_priority \<Rightarrow> sched_state \<Rightarrow> (u32 \<times> sched_state) result option" where
  "sched_new_thread A V me esp0 exit_addr func data prio st =
     (let st = itr_disable st;
          (newtid, st) = nexttid st
      in bindO (create_new_task A V me esp0 exit_addr func data prio newtid False st) (\<lambda>(p, st).
         bindO (Some (put_in_schedule_ring p st)) (\<lambda>st.
         let st = itr_enable st
         in Some (bindE (deref (s_tasks st) p) (\<lambda>t.
                  bindE (deref (s_pcbs st) (t_pcb t)) (\<lambda>pcb.
                  Inr (tid pcb, st)))))))"

text \<open>The tasks of \<open>sched_init_tasks\<close>, up to the installation of the handlers.\<close>

definition sched_init_tasks ::
    "u32 \<Rightarrow> u32 \<Rightarrow> u32 \<Rightarrow> u32 \<Rightarrow> u32 \<Rightarrow> u32 \<Rightarrow> sched_state \<Rightarrow> sched_state result option" where
  "sched_init_tasks A V me esp0 exit_addr idle st =
     bindO (create_new_task A V me esp0 exit_addr idle 0 PRIORITY_HIGH 0 True st) (\<lambda>(p, st).
     let st = st\<lparr>idle_task := p\<rparr>
     in bindO (new_object A V me 20 ''Failed to allocate 1st task'' st) (\<lambda>(first_task, st).
        let t = raw_task (h_mem (s_sys st)) first_task
        in bindO (new_object A V me 8 ''Failed to allocate 1st machine state'' st) (\<lambda>(msp, st).
           let st = st\<lparr>s_ms := (s_ms st)(msp \<mapsto> raw_ms (h_mem (s_sys st)) msp)\<rparr>
           in Some (bindE (current_process_control_block (h_mm (s_sys st)) esp0) (\<lambda>pcbp.
              bindE (deref (s_pcbs st) pcbp) (\<lambda>pcb.
              Inr (st\<lparr>s_tasks := (s_tasks st)(first_task \<mapsto>
                          t\<lparr>t_ms := msp, t_next := first_task, t_pcb := pcbp, remaining_ticks := priority pcb\<rparr>),
                      current_task := first_task\<rparr>)))))))"

end
