(* ===== verification/SchedLinks.thy ===== *)
theory SchedLinks
  imports Sched
begin

text \<open>
  The linked structures of the scheduler: the schedule ring as a list of tasks, the lists ending in the
  null pointer, and the sleepers with the number of ticks each has to wait. Insertion in the ring and
  removal of its head, and the insertion of a sleeper by \<open>go_to_bed\<close>.
\<close>

section \<open>Tasks in the store\<close>

type_synonym tasks = "u32 \<rightharpoonup> task"

definition nx :: "tasks \<Rightarrow> u32 \<Rightarrow> u32" where "nx h p = t_next (the (h p))"
definition pv :: "tasks \<Rightarrow> u32 \<Rightarrow> u32" where "pv h p = t_previous (the (h p))"
definition rm :: "tasks \<Rightarrow> u32 \<Rightarrow> u32" where "rm h p = remaining_ticks (the (h p))"

lemmas task_fields = nx_def pv_def rm_def

lemma set_task_Some [simp]:
  "s_tasks st p = Some t \<Longrightarrow> set_task p f st = Inr (st\<lparr>s_tasks := (s_tasks st)(p \<mapsto> f t)\<rparr>)"
  by (simp add: set_task_def modify_at_def)

text \<open>What an operation on the links leaves alone.\<close>

definition same_data :: "tasks \<Rightarrow> tasks \<Rightarrow> bool" where
  "same_data h h' \<longleftrightarrow> dom h' = dom h
     \<and> (\<forall>p. t_pcb (the (h' p)) = t_pcb (the (h p)) \<and> t_ms (the (h' p)) = t_ms (the (h p)))"

lemma same_data_refl [simp]: "same_data h h"
  by (simp add: same_data_def)

lemma same_data_trans: "same_data h h' \<Longrightarrow> same_data h' h'' \<Longrightarrow> same_data h h''"
  by (simp add: same_data_def)

lemma same_data_upd: "h p = Some t \<Longrightarrow> t_pcb t' = t_pcb t \<Longrightarrow> t_ms t' = t_ms t \<Longrightarrow> same_data h (h(p \<mapsto> t'))"
  by (auto simp: same_data_def)

section \<open>The ring\<close>

text \<open>
  The tasks of the ring from one of them on: each points to the next one, the last to the first.
  The backward pointers are only relied on when there are two tasks: the first task of the system
  is alone in the ring with a backward pointer that is never initialised.
\<close>

definition ring :: "tasks \<Rightarrow> u32 list \<Rightarrow> bool" where
  "ring h xs \<longleftrightarrow> distinct xs \<and> 0 \<notin> set xs \<and> set xs \<subseteq> dom h
     \<and> (\<forall>(x, y) \<in> set (zip xs (rotate1 xs)). nx h x = y \<and> (1 < length xs \<longrightarrow> pv h y = x))"

lemma ring_Nil [simp]: "ring h []"
  by (simp add: ring_def)

lemma ring_single: "ring h [x] \<longleftrightarrow> x \<noteq> 0 \<and> x \<in> dom h \<and> nx h x = x"
  by (auto simp: ring_def)

lemma ring_next: "ring h (x # xs) \<Longrightarrow> nx h x = hd (xs @ [x])"
  by (cases xs) (auto simp: ring_def)

lemma zip_rotate_last:
  "zip (y # ys) (ys @ [x]) = zip (butlast (y # ys)) ys @ [(last (y # ys), x)]"
  by (induction ys arbitrary: y) auto

lemma ring_two:
  "ring h (x # y # ys) \<longleftrightarrow> distinct (x # y # ys) \<and> 0 \<notin> set (x # y # ys) \<and> set (x # y # ys) \<subseteq> dom h
     \<and> nx h x = y \<and> pv h y = x \<and> nx h (last (y # ys)) = x \<and> pv h x = last (y # ys)
     \<and> (\<forall>(a, b) \<in> set (zip (butlast (y # ys)) ys). nx h a = b \<and> pv h b = a)"
proof -
  have "zip (x # y # ys) (rotate1 (x # y # ys)) = (x, y) # zip (butlast (y # ys)) ys @ [(last (y # ys), x)]"
    using zip_rotate_last [of y ys x] by simp
  then show ?thesis unfolding ring_def by auto
qed

lemma ring_twoI:
  assumes "distinct (x # y # ys)" "0 \<notin> set (x # y # ys)" "set (x # y # ys) \<subseteq> dom h" "nx h x = y" "pv h y = x"
    "nx h (last (y # ys)) = x" "pv h x = last (y # ys)"
    "\<And>a b. (a, b) \<in> set (zip (butlast (y # ys)) ys) \<Longrightarrow> nx h a = b \<and> pv h b = a"
  shows "ring h (x # y # ys)"
  unfolding ring_two using assms by blast

lemma ring_rotate: "ring h xs \<Longrightarrow> ring h (rotate1 xs)"
proof -
  assume r: "ring h xs"
  have "set (zip (rotate1 xs) (rotate1 (rotate1 xs))) = set (zip xs (rotate1 xs))"
  proof -
    have "zip (rotate1 xs) (rotate1 (rotate1 xs)) = rotate1 (zip xs (rotate1 xs))"
    proof (cases xs)
      case (Cons x ys)
      have "zip (ys @ [x]) (rotate1 (ys @ [x])) = rotate1 (zip (x # ys) (ys @ [x]))"
      proof (cases ys)
        case (Cons y zs)
        then show ?thesis using zip_append [of "y # zs" "zs @ [x]" "[x]" "[y]"] by simp
      qed simp
      then show ?thesis using Cons by simp
    qed simp
    then show ?thesis by simp
  qed
  with r show ?thesis by (auto simp: ring_def)
qed

lemma ring_cong:
  assumes "ring h xs" "\<And>x. x \<in> set xs \<Longrightarrow> x \<in> dom h' \<and> nx h' x = nx h x \<and> pv h' x = pv h x"
  shows "ring h' xs"
proof -
  have "x \<in> set xs \<and> y \<in> set xs" if "(x, y) \<in> set (zip xs (rotate1 xs))" for x y
    using that by (auto dest: set_zip_leftD set_zip_rightD)
  then show ?thesis using assms by (fastforce simp: ring_def)
qed

lemma last_pair:
  assumes "(a, b) \<in> set (zip (butlast (y # ys)) ys)" "distinct (y # ys)"
  shows "a \<in> set (y # ys)" "b \<in> set ys" "a \<noteq> last (y # ys)" "b \<noteq> y"
proof -
  show 1: "a \<in> set (y # ys)" "b \<in> set ys"
    using set_zip_leftD [OF assms(1)] set_zip_rightD [OF assms(1)] in_set_butlastD by fast+
  show "b \<noteq> y" using 1 assms(2) by auto
  have "a \<in> set (butlast (y # ys))" using assms(1) by (rule set_zip_leftD)
  then show "a \<noteq> last (y # ys)"
    using assms(2) by (metis append_butlast_last_id distinct_append disjoint_iff list.discI list.set_intros(1))
qed

text \<open>Inserting after the head of the ring.\<close>

lemma insert_after_ring:
  assumes r: "ring (s_tasks st) (a # xs)" and p: "p \<noteq> 0" "p \<notin> set (a # xs)" "p \<in> dom (s_tasks st)"
  obtains h where "insert_after a p st = Inr (st\<lparr>s_tasks := h\<rparr>)" "ring h (a # p # xs)" "same_data (s_tasks st) h"
    "\<And>q. q \<notin> set (a # p # xs) \<Longrightarrow> h q = s_tasks st q" "\<And>q. rm h q = rm (s_tasks st) q"
proof -
  let ?h = "s_tasks st"
  obtain ta tp where t: "?h a = Some ta" "?h p = Some tp" using r p(3) by (auto simp: ring_def)
  have ap: "a \<noteq> p" "a \<noteq> 0" using p r by (auto simp: ring_def)
  let ?tp = "tp\<lparr>t_next := t_next ta, t_previous := a\<rparr>"
  show ?thesis
  proof (cases xs)
    case Nil
    then have n: "t_next ta = a" using r t by (simp add: ring_single nx_def)
    let ?ta = "ta\<lparr>t_previous := p, t_next := p\<rparr>"
    let ?h' = "?h(p \<mapsto> tp\<lparr>t_next := a, t_previous := a\<rparr>, a \<mapsto> ?ta)"
    have "insert_after a p st = Inr (st\<lparr>s_tasks := ?h'\<rparr>)"
      using t ap n by (simp add: insert_after_def fun_upd_twist)
    moreover have "ring ?h' [a, p]"
      using ap p(1) by (simp add: ring_two task_fields)
    moreover have "same_data ?h ?h'" using t by (auto simp: same_data_def)
    ultimately show ?thesis using that [of ?h'] Nil t ap by (simp add: rm_def)
  next
    case (Cons y ys)
    have rr: "distinct (a # y # ys)" "0 \<notin> set (a # y # ys)" "set (a # y # ys) \<subseteq> dom ?h"
        "nx ?h a = y" "nx ?h (last (y # ys)) = a" "pv ?h a = last (y # ys)"
        "\<And>u v. (u, v) \<in> set (zip (butlast (y # ys)) ys) \<Longrightarrow> nx ?h u = v \<and> pv ?h v = u"
      using r unfolding Cons ring_two by auto
    obtain ty where ty: "?h y = Some ty" using rr(3) by auto
    have n: "t_next ta = y" using rr(4) t by (simp add: nx_def)
    have d: "y \<noteq> p" "y \<noteq> a" using p(2) rr(1) Cons by auto
    let ?h' = "?h(p \<mapsto> tp\<lparr>t_next := y, t_previous := a\<rparr>, y \<mapsto> ty\<lparr>t_previous := p\<rparr>, a \<mapsto> ta\<lparr>t_next := p\<rparr>)"
    have run: "insert_after a p st = Inr (st\<lparr>s_tasks := ?h'\<rparr>)"
      using t ty ap n d by (simp add: insert_after_def)
    have nxh: "nx ?h' q = (if q = p then y else if q = a then p else nx ?h q)"
      and pvh: "pv ?h' q = (if q = p then a else if q = y then p else pv ?h q)"
      and rmh: "rm ?h' q = rm ?h q" for q
      using t ty ap d by (simp_all add: task_fields)
    have "ring ?h' (a # p # y # ys)"
    proof -
      have l: "last (p # y # ys) = last (y # ys)" "last (y # ys) \<noteq> p" "last (y # ys) \<noteq> a"
        using p(2) Cons rr(1) last_in_set [of "y # ys"] by auto
      have "nx ?h' u = v \<and> pv ?h' v = u" if "(u, v) \<in> set (zip (butlast (p # y # ys)) (y # ys))" for u v
      proof (cases "(u, v) = (p, y)")
        case False
        have "zip (butlast (p # y # ys)) (y # ys) = (p, y) # zip (butlast (y # ys)) ys" by simp
        then have uv: "(u, v) \<in> set (zip (butlast (y # ys)) ys)" using that False by (metis set_ConsD)
        note lp = last_pair [OF uv] 
        have "u \<noteq> p" "v \<noteq> p" "u \<noteq> a" "v \<noteq> y" using lp p(2) rr(1) Cons by auto
        then show ?thesis using rr(7) [OF uv] nxh pvh by simp
      qed (use nxh pvh d in simp)
      moreover have "pv ?h' a = last (p # y # ys)" "nx ?h' (last (p # y # ys)) = a"
        using l rr(5,6) nxh pvh ap d by simp_all
      moreover have "set (a # p # y # ys) \<subseteq> dom ?h'" using rr(3) by auto
      moreover have "distinct (a # p # y # ys)" "0 \<notin> set (a # p # y # ys)" using rr(1,2) p(1,2) Cons by auto
      ultimately show ?thesis using nxh pvh ap d by (intro ring_twoI) simp_all
    qed
    moreover have "same_data ?h ?h'" using t ty by (auto simp: same_data_def)
    ultimately show ?thesis using that [of ?h'] run rmh Cons by simp
  qed
qed

text \<open>Taking the head out of the ring.\<close>

lemma remove_head:
  assumes r: "ring (s_tasks st) (a # xs)" and c: "current_task st = a"
  obtains h where "remove_from_schedule_ring st = Inr (a, st\<lparr>s_tasks := h, switched_task := (if xs = [] then 0 else hd xs)\<rparr>)"
    "ring h xs" "same_data (s_tasks st) h" "\<And>q. q \<notin> set xs \<Longrightarrow> h q = s_tasks st q" "\<And>q. rm h q = rm (s_tasks st) q"
proof -
  let ?h = "s_tasks st"
  obtain ta where t: "?h a = Some ta" using r by (auto simp: ring_def)
  show ?thesis
  proof (cases xs)
    case Nil
    then have "t_next ta = a" using r t by (simp add: ring_single nx_def)
    then have "remove_from_schedule_ring st = Inr (a, st\<lparr>s_tasks := ?h, switched_task := 0\<rparr>)"
      using t c by (simp add: remove_from_schedule_ring_def)
    then show ?thesis using that [of ?h] Nil by simp
  next
    case (Cons y ys)
    let ?l = "last (y # ys)"
    have rr: "distinct (a # y # ys)" "0 \<notin> set (a # y # ys)" "set (a # y # ys) \<subseteq> dom ?h"
        "nx ?h a = y" "nx ?h ?l = a" "pv ?h a = ?l"
        "\<And>u v. (u, v) \<in> set (zip (butlast (y # ys)) ys) \<Longrightarrow> nx ?h u = v \<and> pv ?h v = u"
      using r unfolding Cons ring_two by auto
    have ld: "?l \<in> set (y # ys)" by (rule last_in_set) simp
    then have al: "a \<noteq> ?l" "a \<noteq> y" using rr(1) by auto
    have "?l \<in> dom ?h" "y \<in> dom ?h" using ld rr(3) by auto
    then obtain tl0 ty where tl: "?h ?l = Some tl0" and ty: "?h y = Some ty" by blast
    have n: "t_next ta = y" "t_previous ta = ?l" using rr(4,6) t by (simp_all add: nx_def pv_def)
    define h1 where "h1 = ?h(?l \<mapsto> tl0\<lparr>t_next := y\<rparr>)"
    obtain ty1 where ty1: "h1 y = Some ty1" "t_pcb ty1 = t_pcb ty" "t_ms ty1 = t_ms ty" "remaining_ticks ty1 = remaining_ticks ty"
        "t_next ty1 = (if y = ?l then y else t_next ty)"
      using ty tl by (cases "y = ?l") (simp_all add: h1_def)
    define h2 where "h2 = h1(y \<mapsto> ty1\<lparr>t_previous := ?l\<rparr>)"
    have a1: "h1 a = Some ta" "h2 a = Some ta" using t al by (simp_all add: h1_def h2_def)
    have st2: "st\<lparr>s_tasks := h1\<rparr>\<lparr>s_tasks := h2\<rparr> = st\<lparr>s_tasks := h2\<rparr>" by simp
    have "remove_from_schedule_ring st = Inr (a, st\<lparr>s_tasks := h2, switched_task := y\<rparr>)"
    proof -
      have s1: "set_task ?l (t_next_update (\<lambda>_. y)) st = Inr (st\<lparr>s_tasks := h1\<rparr>)" using tl by (simp add: h1_def)
      have s2: "set_task y (t_previous_update (\<lambda>_. ?l)) (st\<lparr>s_tasks := h1\<rparr>) = Inr (st\<lparr>s_tasks := h2\<rparr>)"
        using ty1(1) by (simp add: h2_def)
      show ?thesis
        unfolding remove_from_schedule_ring_def Let_def c
        using t n al s1 s2 a1 by (simp del: set_task_Some)
    qed
    moreover have nxh: "nx h2 q = (if q = ?l then y else nx ?h q)" and pvh: "pv h2 q = (if q = y then ?l else pv ?h q)"
      and rmh: "rm h2 q = rm ?h q" for q
      using tl ty ty1 by (auto simp: h2_def h1_def task_fields)
    moreover have dm: "dom h2 = dom ?h" using tl ty by (auto simp: h2_def h1_def)
    then have "same_data ?h h2" using tl ty ty1 by (auto simp: same_data_def h2_def h1_def)
    moreover have "h2 q = ?h q" if "q \<notin> set (y # ys)" for q using that ld by (auto simp: h2_def h1_def)
    moreover have "ring h2 (y # ys)"
    proof (cases ys)
      case Nil
      then show ?thesis using rr(2,3) nxh dm by (auto simp: ring_single)
    next
      case (Cons z zs)
      have l: "last (z # zs) = ?l" "?l \<noteq> y" using Cons rr(1) last_in_set [of "z # zs"] by auto
      have zz: "zip (butlast (y # ys)) ys = (y, z) # zip (butlast (z # zs)) zs" by (simp add: Cons)
      have "nx h2 u = v \<and> pv h2 v = u" if uv: "(u, v) \<in> set (zip (butlast (y # ys)) ys)" for u v
        using last_pair [OF uv] rr(1) rr(7) [OF uv] nxh pvh by simp
      then have pr: "nx h2 u = v \<and> pv h2 v = u" if "(u, v) \<in> set ((y, z) # zip (butlast (z # zs)) zs)" for u v
        using that unfolding zz by blast
      have yz: "nx h2 y = z" "pv h2 z = y" using pr [of y z] by simp_all
      have "set (y # z # zs) \<subseteq> dom h2" "distinct (y # z # zs)" "0 \<notin> set (y # z # zs)" using rr(1-3) Cons dm by auto
      then show ?thesis
        unfolding Cons using nxh pvh l pr yz by (intro ring_twoI) simp_all
    qed
    ultimately show ?thesis using that [of h2] Cons by simp
  qed
qed

section \<open>Lists ending in the null pointer\<close>

fun slist :: "tasks \<Rightarrow> u32 \<Rightarrow> u32 list \<Rightarrow> bool" where
  "slist h p [] \<longleftrightarrow> p = 0"
| "slist h p (y # ys) \<longleftrightarrow> p = y \<and> y \<noteq> 0 \<and> y \<in> dom h \<and> slist h (nx h y) ys"

lemma slist_cong:
  "slist h p ys \<Longrightarrow> (\<And>y. y \<in> set ys \<Longrightarrow> y \<in> dom h' \<and> nx h' y = nx h y) \<Longrightarrow> slist h' p ys"
  by (induction ys arbitrary: p) auto

lemma slist_same:
  assumes "slist h p ys" "\<And>q. nx h' q = nx h q" "dom h' = dom h"
  shows "slist h' p ys"
  using assms by (induction ys arbitrary: p) simp_all

lemma ring_same:
  assumes "ring h xs" "\<And>q. nx h' q = nx h q" "\<And>q. pv h' q = pv h q" "dom h' = dom h"
  shows "ring h' xs"
  using assms by (simp add: ring_def)

definition hd0 :: "u32 list \<Rightarrow> u32" where
  "hd0 xs = (if xs = [] then 0 else hd xs)"

lemma hd0_simps [simp]: "hd0 [] = 0" "hd0 (x # xs) = x"
  by (simp_all add: hd0_def)

lemma slist_hd: "slist h p ys \<Longrightarrow> p = hd0 ys"
  by (cases ys) auto

lemma slist_nonzero: "slist h p ys \<Longrightarrow> 0 \<notin> set ys \<and> set ys \<subseteq> dom h"
  by (induction ys arbitrary: p) auto

fun lseg :: "tasks \<Rightarrow> u32 \<Rightarrow> u32 list \<Rightarrow> u32 \<Rightarrow> bool" where
  "lseg h p [] q \<longleftrightarrow> p = q"
| "lseg h p (x # xs) q \<longleftrightarrow> p = x \<and> x \<noteq> 0 \<and> x \<in> dom h \<and> lseg h (nx h x) xs q"

lemma slist_append: "slist h p (xs @ ys) \<longleftrightarrow> lseg h p xs (hd0 ys) \<and> slist h (hd0 ys) ys"
proof (induction xs arbitrary: p)
  case Nil
  then show ?case using slist_hd by auto
qed auto

text \<open>Redirecting the last pointer of a segment.\<close>

lemma lseg_redirect:
  assumes "lseg h p xs q" "xs \<noteq> []" "distinct xs" "dom h' = dom h" "nx h' (last xs) = r"
    "\<And>x. x \<in> set xs \<Longrightarrow> x \<noteq> last xs \<Longrightarrow> nx h' x = nx h x"
  shows "lseg h' p xs r"
  using assms
proof (induction xs arbitrary: p)
  case (Cons x xs)
  show ?case
  proof (cases "xs = []")
    case False
    then have "x \<noteq> last xs" using Cons.prems(3) last_in_set by auto
    then have "nx h' x = nx h x" using Cons.prems(6) [of x] False by simp
    moreover have "lseg h' (nx h x) xs r"
      by (rule Cons.IH) (use Cons.prems False in auto)
    ultimately show ?thesis using Cons.prems by simp
  qed (use Cons.prems in simp)
qed simp

section \<open>Deadlines\<close>

text \<open>
  The number of ticks after which each sleeper wakes up: the list stores for each the ticks after
  those of its predecessor.
\<close>

fun deadlines :: "tasks \<Rightarrow> nat \<Rightarrow> u32 list \<Rightarrow> (u32 \<times> nat) list" where
  "deadlines h d [] = []"
| "deadlines h d (y # ys) = (y, d + unat (rm h y)) # deadlines h (d + unat (rm h y)) ys"

definition total :: "tasks \<Rightarrow> u32 list \<Rightarrow> nat" where
  "total h xs = sum_list (map (\<lambda>x. unat (rm h x)) xs)"

lemma total_simps [simp]: "total h [] = 0" "total h (x # xs) = unat (rm h x) + total h xs"
  "total h (xs @ ys) = total h xs + total h ys"
  by (simp_all add: total_def)

lemma deadlines_append: "deadlines h d (xs @ ys) = deadlines h d xs @ deadlines h (d + total h xs) ys"
  by (induction xs arbitrary: d) (simp_all add: add.assoc)

lemma deadlines_cong: "(\<And>y. y \<in> set ys \<Longrightarrow> rm h' y = rm h y) \<Longrightarrow> deadlines h' d ys = deadlines h d ys"
  by (induction ys arbitrary: d) simp_all

lemma deadlines_ge: "(y, e) \<in> set (deadlines h d ys) \<Longrightarrow> d \<le> e"
  by (induction ys arbitrary: d) fastforce+

lemma map_fst_deadlines [simp]: "map fst (deadlines h d ys) = ys"
  by (induction ys arbitrary: d) simp_all

lemma deadlines_shift: "deadlines h (d + k) ys = map (\<lambda>(y, e). (y, e + k)) (deadlines h d ys)"
proof (induction ys arbitrary: d)
  case (Cons y ys)
  then show ?case using Cons.IH [of "d + unat (rm h y)"] by (simp add: algebra_simps)
qed simp

section \<open>The place of a new sleeper\<close>

lemma find_bed_run:
  assumes "slist h p S" "0 < unat r"
  shows "\<exists>A B r'. S = A @ B \<and> find_bed h prev p r = Some (Inr (if A = [] then prev else last A, hd0 B, r'))
    \<and> unat r' + total h A = unat r \<and> 0 < unat r' \<and> (B \<noteq> [] \<longrightarrow> unat r' \<le> unat (rm h (hd B)))"
  using assms
proof (induction S arbitrary: p r prev)
  case Nil
  then show ?case by (subst find_bed.simps) (auto intro: exI [of _ "[]"])
next
  case (Cons y ys)
  obtain t where t: "h y = Some t" and p: "p = y" "y \<noteq> 0" "slist h (nx h y) ys" using Cons.prems(1) by auto
  have rm: "rm h y = remaining_ticks t" "nx h y = t_next t" using t by (simp_all add: rm_def nx_def)
  show ?case
  proof (cases "remaining_ticks t < r")
    case True
    then have u: "unat (r - remaining_ticks t) = unat r - unat (remaining_ticks t)" "unat (remaining_ticks t) < unat r"
      by (simp_all add: unat_sub_small word_less_nat_alt less_imp_le)
    obtain A B r' where ih: "ys = A @ B"
        "find_bed h y (nx h y) (r - remaining_ticks t) = Some (Inr (if A = [] then y else last A, hd0 B, r'))"
        "unat r' + total h A = unat (r - remaining_ticks t)" "0 < unat r'" "B \<noteq> [] \<longrightarrow> unat r' \<le> unat (rm h (hd B))"
      using Cons.IH [OF p(3), of "r - remaining_ticks t" y] u by auto
    have "find_bed h prev p r = Some (Inr (if y # A = [] then prev else last (y # A), hd0 B, r'))"
      using ih(2) t p True rm by (subst find_bed.simps) (auto simp: deref_def)
    then show ?thesis using ih(1,3-5) u rm by (intro exI [of _ "y # A"] exI [of _ B] exI [of _ r']) auto
  next
    case False
    then have "find_bed h prev p r = Some (Inr (prev, y, r))"
      using t p by (subst find_bed.simps) (simp add: deref_def)
    moreover have "unat r \<le> unat (rm h y)" using False rm by (simp add: word_less_nat_alt)
    ultimately show ?thesis using Cons.prems(2) by (intro exI [of _ "[]"] exI [of _ "y # ys"] exI [of _ r]) auto
  qed
qed

text \<open>Where the spec puts a new sleeper: before the first one that wakes at the same time or later.\<close>

definition sleep_insert :: "u32 \<Rightarrow> nat \<Rightarrow> (u32 \<times> nat) list \<Rightarrow> (u32 \<times> nat) list" where
  "sleep_insert x d dl = takeWhile (\<lambda>(_, e). e < d) dl @ (x, d) # dropWhile (\<lambda>(_, e). e < d) dl"

lemma sleep_insert_append:
  assumes "\<And>y e. (y, e) \<in> set as \<Longrightarrow> e < d" "bs \<noteq> [] \<Longrightarrow> d \<le> snd (hd bs)"
  shows "sleep_insert x d (as @ bs) = as @ (x, d) # bs"
proof -
  have "takeWhile (\<lambda>(_, e). e < d) (as @ bs) = as @ takeWhile (\<lambda>(_, e). e < d) bs"
    "dropWhile (\<lambda>(_, e). e < d) (as @ bs) = dropWhile (\<lambda>(_, e). e < d) bs"
    using assms(1) by (auto intro!: takeWhile_append2 dropWhile_append2)
  moreover have "takeWhile (\<lambda>(_, e). e < d) bs = []" "dropWhile (\<lambda>(_, e). e < d) bs = bs"
    using assms(2) by (cases bs; auto)+
  ultimately show ?thesis by (simp add: sleep_insert_def)
qed

lemma deadlines_le_total: "(y, e) \<in> set (deadlines h d ys) \<Longrightarrow> e \<le> d + total h ys"
proof (induction ys arbitrary: d)
  case (Cons z zs)
  show ?case
  proof (cases "(y, e) \<in> set (deadlines h (d + unat (rm h z)) zs)")
    case True
    from Cons.IH [OF this] show ?thesis by simp
  next
    case False
    then show ?thesis using Cons.prems by simp
  qed
qed simp

lemma go_to_bed_eq:
  assumes "sleeping_task st \<noteq> 0" "find_bed (s_tasks st) 0 (sleeping_task st) ms0 = Some (Inr (previous, t, remaining))"
  shows "go_to_bed x ms0 st =
    Some (bindE (set_task x (\<lambda>u. u\<lparr>remaining_ticks := remaining, t_next := t\<rparr>) st) (\<lambda>st.
          bindE (if previous \<noteq> 0 then set_task previous (t_next_update (\<lambda>_. x)) st
                 else Inr (st\<lparr>sleeping_task := x\<rparr>)) (\<lambda>st.
          if t \<noteq> 0 then set_task t (\<lambda>u. u\<lparr>remaining_ticks := remaining_ticks u - remaining\<rparr>) st
          else Inr st)))"
  using assms by (simp add: go_to_bed_def bindO_def del: set_task_Some)

lemma go_to_bed_run:
  assumes s: "slist (s_tasks st) (sleeping_task st) S" "distinct S" and ms: "ms0 \<noteq> 0"
    and x: "x \<notin> set S" "x \<in> dom (s_tasks st)" "x \<noteq> 0" and hp: "S \<noteq> [] \<Longrightarrow> rm (s_tasks st) (hd S) \<noteq> 0"
  obtains h S' where "go_to_bed x ms0 st = Some (Inr (st\<lparr>s_tasks := h, sleeping_task := hd0 S'\<rparr>))"
    "slist h (hd0 S') S'" "deadlines h 0 S' = sleep_insert x (unat ms0) (deadlines (s_tasks st) 0 S)"
    "rm h (hd S') \<noteq> 0" "same_data (s_tasks st) h" "set S' = insert x (set S)" "distinct S'"
    "\<And>q. q \<notin> set S' \<Longrightarrow> h q = s_tasks st q"
proof -
  let ?h = "s_tasks st"
  obtain tx where tx: "?h x = Some tx" using x(2) by blast
  have u0: "0 < unat ms0" using ms by (simp add: unat_gt_0)
  have sn: "0 \<notin> set S" "set S \<subseteq> dom ?h" using slist_nonzero [OF s(1)] by auto
  show ?thesis
  proof (cases "S = []")
    case True
    then have sl: "sleeping_task st = 0" using s(1) by simp
    let ?h' = "?h(x \<mapsto> tx\<lparr>t_next := 0, remaining_ticks := ms0\<rparr>)"
    have "go_to_bed x ms0 st = Some (Inr (st\<lparr>s_tasks := ?h', sleeping_task := hd0 [x]\<rparr>))"
      using sl tx by (simp add: go_to_bed_def)
    moreover have "slist ?h' (hd0 [x]) [x]" "deadlines ?h' 0 [x] = sleep_insert x (unat ms0) (deadlines ?h 0 S)"
      using True x(3) by (simp_all add: nx_def rm_def sleep_insert_def)
    moreover have "same_data ?h ?h'" using tx by (auto simp: same_data_def)
    ultimately show ?thesis using that [of "[x]" ?h'] True ms by (simp add: rm_def)
  next
    case False
    have sl: "sleeping_task st = hd S" "sleeping_task st \<noteq> 0"
      using slist_hd [OF s(1)] hd_in_set [OF False] False sn(1) unfolding hd0_def by metis+
    obtain A B r where f: "S = A @ B" "find_bed ?h 0 (sleeping_task st) ms0 = Some (Inr (if A = [] then 0 else last A, hd0 B, r))"
        "unat r + total ?h A = unat ms0" "0 < unat r" "B \<noteq> [] \<longrightarrow> unat r \<le> unat (rm ?h (hd B))"
      using find_bed_run [OF s(1) u0] by blast
    have parts: "slist ?h (hd0 B) B" "lseg ?h (sleeping_task st) A (hd0 B)"
      using s(1) unfolding f(1) slist_append by auto
    have sub: "set A \<subseteq> dom ?h" "0 \<notin> set A" "set B \<subseteq> dom ?h" "0 \<notin> set B" "x \<notin> set A" "x \<notin> set B" "set A \<inter> set B = {}"
      using sn x(1) s(2) by (auto simp: f(1))
    define h1 where "h1 = ?h(x \<mapsto> tx\<lparr>remaining_ticks := r, t_next := hd0 B\<rparr>)"
    define h2 where "h2 = (if A = [] then h1 else h1(last A \<mapsto> (the (h1 (last A)))\<lparr>t_next := x\<rparr>))"
    define h3 where "h3 = (if B = [] then h2 else h2(hd B \<mapsto> (the (h2 (hd B)))\<lparr>remaining_ticks := rm h2 (hd B) - r\<rparr>))"
    have la: "A \<noteq> [] \<Longrightarrow> last A \<in> set A" and hb: "B \<noteq> [] \<Longrightarrow> hd B \<in> set B" by simp_all
    have d0: "dom ?h \<subseteq> dom h1" "dom h1 \<subseteq> dom h2" by (auto simp: h1_def h2_def)
    have d1: "last A \<in> dom h1" if "A \<noteq> []" using subsetD [OF sub(1) la [OF that]] d0(1) by blast
    have d2: "hd B \<in> dom h2" if "B \<noteq> []" using subsetD [OF sub(3) hb [OF that]] d0 by blast
    let ?S' = "A @ x # B"
    have lz: "A \<noteq> [] \<Longrightarrow> last A \<noteq> 0" "B \<noteq> [] \<Longrightarrow> hd B \<noteq> 0" using la hb sub by metis+
    have run: "go_to_bed x ms0 st = Some (Inr (st\<lparr>s_tasks := h3, sleeping_task := hd0 ?S'\<rparr>))"
    proof -
      have 1: "set_task x (\<lambda>u. u\<lparr>remaining_ticks := r, t_next := hd0 B\<rparr>) st = Inr (st\<lparr>s_tasks := h1\<rparr>)"
        using tx by (simp add: h1_def)
      have 2: "(if (if A = [] then 0 else last A) \<noteq> 0 then set_task (if A = [] then 0 else last A) (t_next_update (\<lambda>_. x)) (st\<lparr>s_tasks := h1\<rparr>)
            else Inr (st\<lparr>s_tasks := h1, sleeping_task := x\<rparr>)) = Inr (st\<lparr>s_tasks := h2, sleeping_task := hd0 ?S'\<rparr>)"
      proof (cases "A = []")
        case A: False
        obtain t where "h1 (last A) = Some t" using d1 [OF A] by blast
        moreover have "hd0 ?S' = sleeping_task st" using A sl(1) by (cases A) (auto simp: f(1))
        ultimately show ?thesis using A lz(1) by (cases st) (simp add: h2_def)
      qed (simp add: h2_def)
      have 3: "(if hd0 B \<noteq> 0 then set_task (hd0 B) (\<lambda>u. u\<lparr>remaining_ticks := remaining_ticks u - r\<rparr>) (st\<lparr>s_tasks := h2, sleeping_task := hd0 ?S'\<rparr>)
            else Inr (st\<lparr>s_tasks := h2, sleeping_task := hd0 ?S'\<rparr>)) = Inr (st\<lparr>s_tasks := h3, sleeping_task := hd0 ?S'\<rparr>)"
      proof (cases "B = []")
        case B: False
        obtain t where "h2 (hd B) = Some t" using d2 [OF B] by blast
        then show ?thesis using B lz(2) by (simp add: hd0_def h3_def rm_def)
      qed (simp add: h3_def)
      show ?thesis
        unfolding go_to_bed_eq [OF sl(2) f(2)] 1 bindE_simps 2 3 ..
    qed
    have ne: "A \<noteq> [] \<Longrightarrow> last A \<noteq> x" "B \<noteq> [] \<Longrightarrow> hd B \<noteq> x" using la hb sub(5,6) by metis+
    have nx3: "nx h3 q = (if q = x then hd0 B else if A \<noteq> [] \<and> q = last A then x else nx ?h q)" for q
    proof -
      have "nx h3 q = nx h2 q" by (simp add: h3_def nx_def)
      also have "\<dots> = (if A \<noteq> [] \<and> q = last A then x else nx h1 q)" by (simp add: h2_def nx_def)
      also have "nx h1 q = (if q = x then hd0 B else nx ?h q)" by (simp add: h1_def nx_def)
      finally show ?thesis using ne(1) by auto
    qed
    have rm3: "rm h3 q = (if q = x then r else if B \<noteq> [] \<and> q = hd B then rm ?h q - r else rm ?h q)" for q
    proof -
      have rm2: "rm h2 u = rm h1 u" for u by (simp add: h2_def rm_def)
      have rm1: "rm h1 u = (if u = x then r else rm ?h u)" for u by (simp add: h1_def rm_def)
      have "rm h3 q = (if B \<noteq> [] \<and> q = hd B then rm h2 (hd B) - r else rm h2 q)" by (simp add: h3_def rm_def)
      then show ?thesis unfolding rm2 rm1 using ne(2) by auto
    qed
    have sd1: "same_data ?h h1" using tx by (simp add: h1_def same_data_upd)
    have sd2: "same_data h1 h2"
    proof (cases "A = []")
      case A: False
      obtain t where "h1 (last A) = Some t" using d1 [OF A] by blast
      then show ?thesis using A by (simp add: h2_def same_data_upd)
    qed (simp add: h2_def)
    have sd3: "same_data h2 h3"
    proof (cases "B = []")
      case B: False
      obtain t where "h2 (hd B) = Some t" using d2 [OF B] by blast
      then show ?thesis using B by (simp add: h3_def same_data_upd)
    qed (simp add: h3_def)
    have sd: "same_data ?h h3" using sd1 sd2 sd3 by (blast intro: same_data_trans)
    then have dm: "dom h3 = dom ?h" by (simp add: same_data_def)
    note sd
    moreover have "slist h3 (hd0 ?S') ?S'"
    proof -
      have "slist h3 (hd0 B) B"
      proof (rule slist_cong [OF parts(1)])
        fix b assume "b \<in> set B"
        then have "b \<noteq> x" "A \<noteq> [] \<Longrightarrow> b \<noteq> last A" "b \<in> dom h3" using la sub dm by blast+
        then show "b \<in> dom h3 \<and> nx h3 b = nx ?h b" using nx3 [of b] by auto
      qed
      then have "slist h3 (hd0 (x # B)) (x # B)" using nx3 x dm by simp
      moreover have "lseg h3 (hd0 ?S') A (hd0 (x # B))"
      proof (cases "A = []")
        case False
        then have "hd0 ?S' = sleeping_task st" using sl(1) by (cases A) (auto simp: f(1))
        moreover have "lseg h3 (sleeping_task st) A x"
        proof (rule lseg_redirect [OF parts(2) False])
          show "distinct A" using s(2) by (simp add: f(1))
          show "nx h3 (last A) = x" using nx3 ne(1) False by simp
          show "nx h3 q = nx ?h q" if "q \<in> set A" "q \<noteq> last A" for q
            using nx3 [of q] that sub(5) by auto
        qed (rule dm)
        ultimately show ?thesis by simp
      qed simp
      ultimately show ?thesis unfolding slist_append by simp
    qed
    moreover have "deadlines h3 0 ?S' = sleep_insert x (unat ms0) (deadlines ?h 0 S)"
    proof -
      have rmA: "rm h3 q = rm ?h q" if "q \<in> set A" for q
      proof -
        have "q \<noteq> x" "B \<noteq> [] \<Longrightarrow> q \<noteq> hd B" using that sub(5,7) hb by blast+
        then show ?thesis using rm3 [of q] by auto
      qed
      then have A3: "deadlines h3 0 A = deadlines ?h 0 A" "total h3 A = total ?h A"
        by (auto intro!: deadlines_cong arg_cong [where f = sum_list] simp: total_def)
      have B3: "deadlines h3 (unat ms0) B = deadlines ?h (total ?h A) B"
      proof (cases B)
        case (Cons b bs)
        have nb: "q \<noteq> b" if "q \<in> set bs" for q using s(2) that by (auto simp: f(1) Cons)
        have "unat (rm ?h b - r) = unat (rm ?h b) - unat r" using f(5) Cons by (simp add: unat_sub_small)
        then have "unat ms0 + unat (rm h3 b) = total ?h A + unat (rm ?h b)"
          using rm3 [of b] sub(6) Cons f(3,5) by auto
        moreover have "deadlines h3 d bs = deadlines ?h d bs" for d
          using rm3 sub(6) nb Cons by (intro deadlines_cong) auto
        ultimately show ?thesis by (simp add: Cons)
      qed simp
      have "deadlines h3 0 ?S' = deadlines ?h 0 A @ (x, unat ms0) # deadlines ?h (total ?h A) B"
        using A3 B3 rm3 [of x] f(3) by (simp add: deadlines_append add.commute)
      also have "\<dots> = sleep_insert x (unat ms0) (deadlines ?h 0 A @ deadlines ?h (total ?h A) B)"
      proof (rule sleep_insert_append [symmetric])
        show "e < unat ms0" if "(y, e) \<in> set (deadlines ?h 0 A)" for y e
          using deadlines_le_total [OF that] f(3,4) by simp
        show "unat ms0 \<le> snd (hd (deadlines ?h (total ?h A) B))" if "deadlines ?h (total ?h A) B \<noteq> []"
          using f(3,5) that by (cases B) auto
      qed
      finally show ?thesis by (simp add: f(1) deadlines_append)
    qed
    moreover have "rm h3 (hd ?S') \<noteq> 0"
    proof (cases A)
      case Nil
      then show ?thesis using rm3 [of x] f(4) by (auto simp: unat_gt_0)
    next
      case (Cons a as)
      then have "a \<noteq> x" "\<not> (B \<noteq> [] \<and> a = hd B)" using sub hb by auto
      then show ?thesis using rm3 [of a] hp False Cons by (auto simp: f(1))
    qed
    moreover have "set ?S' = insert x (set S)" "distinct ?S'" using s(2) x(1) by (auto simp: f(1))
    moreover have fr: "h3 q = ?h q" if q: "q \<notin> set ?S'" for q
    proof -
      have "q \<noteq> x" "A \<noteq> [] \<Longrightarrow> q \<noteq> last A" "B \<noteq> [] \<Longrightarrow> q \<noteq> hd B" using q la hb by auto
      then show ?thesis by (simp add: h3_def h2_def h1_def)
    qed
    ultimately show ?thesis using sd by (intro that [OF run]) simp_all
  qed
qed

end
