(* ===== verification/SchedSpec.thy ===== *)
theory SchedSpec
  imports SchedLinks
begin

text \<open>
  The correctness of the scheduler: its invariant, the hand-over from one thread to the next, the three
  interrupt handlers and the runs made of them, which keep the queues of an abstract scheduler.
\<close>

section \<open>The invariant of the scheduler\<close>

text \<open>Every task has a control block with a priority, an address space and a saved context of its own.\<close>

definition data_ok :: "sched_state \<Rightarrow> u32 set \<Rightarrow> bool" where
  "data_ok st xs \<longleftrightarrow>
     xs \<subseteq> dom (s_tasks st)
     \<and> inj_on (\<lambda>p. t_ms (the (s_tasks st p))) xs \<and> inj_on (\<lambda>p. t_pcb (the (s_tasks st p))) xs
     \<and> (\<forall>p \<in> xs. t_ms (the (s_tasks st p)) \<in> dom (s_ms st)
          \<and> (\<exists>pcb. s_pcbs st (t_pcb (the (s_tasks st p))) = Some pcb \<and> priority pcb \<noteq> 0
                 \<and> p_mm_info pcb \<in> dom (s_mm_infos st)))"

text \<open>The saved context of a task and its page directory.\<close>

definition saved :: "sched_state \<Rightarrow> u32 \<Rightarrow> u16 \<times> u32" where
  "saved st p = (let m = the (s_ms st (t_ms (the (s_tasks st p)))) in (ss m, esp m))"

definition address_space :: "sched_state \<Rightarrow> u32 \<Rightarrow> u32" where
  "address_space st p = page_dir (the (s_mm_infos st (p_mm_info (the (s_pcbs st (t_pcb (the (s_tasks st p))))))))"

definition queues :: "sched_state \<Rightarrow> u32 list \<Rightarrow> u32 list \<Rightarrow> u32 list \<Rightarrow> bool" where
  "queues st R S D \<longleftrightarrow>
     ring (s_tasks st) R \<and> slist (s_tasks st) (sleeping_task st) S \<and> slist (s_tasks st) (doomed_task st) D
     \<and> distinct (idle_task st # R @ S @ D) \<and> idle_task st \<noteq> 0 \<and> data_ok st (insert (idle_task st) (set (R @ S @ D)))"

text \<open>
  Between two interrupts: \<open>R\<close> is the ring from the running task on (empty when the idle task runs),
  \<open>S\<close> the sleepers in the order in which they wake up and \<open>D\<close> the tasks to clean up.
\<close>

definition sched_inv :: "sched_state \<Rightarrow> u32 list \<Rightarrow> u32 list \<Rightarrow> u32 list \<Rightarrow> bool" where
  "sched_inv st R S D \<longleftrightarrow>
     queues st R S D \<and> current_task st = hd0 R \<and> (R = [] \<longrightarrow> switched_task st = 0)
     \<and> (S \<noteq> [] \<longrightarrow> rm (s_tasks st) (hd S) \<noteq> 0) \<and> (R \<noteq> [] \<longrightarrow> rm (s_tasks st) (hd R) \<noteq> 0)"

definition running :: "sched_state \<Rightarrow> u32" where
  "running st = (if current_task st \<noteq> 0 then current_task st else idle_task st)"

definition sleepers :: "sched_state \<Rightarrow> u32 list \<Rightarrow> (u32 \<times> nat) list" where
  "sleepers st S = deadlines (s_tasks st) 0 S"

lemma data_ok_same:
  "same_data (s_tasks st) h \<Longrightarrow> data_ok (st\<lparr>s_tasks := h\<rparr>) xs = data_ok st xs"
  by (simp add: data_ok_def same_data_def inj_on_def)

lemma data_ok_fields [simp]:
  "data_ok (st\<lparr>switched_task := a\<rparr>) xs = data_ok st xs" "data_ok (st\<lparr>switching := b\<rparr>) xs = data_ok st xs"
  "data_ok (st\<lparr>sleeping_task := a\<rparr>) xs = data_ok st xs" "data_ok (st\<lparr>doomed_task := a\<rparr>) xs = data_ok st xs"
  "data_ok (st\<lparr>current_task := a\<rparr>) xs = data_ok st xs"
  by (simp_all add: data_ok_def)

lemma data_ok_mono: "data_ok st xs \<Longrightarrow> ys \<subseteq> xs \<Longrightarrow> data_ok st ys"
  unfolding data_ok_def using inj_on_subset by blast

lemma saved_same: "same_data (s_tasks st) h \<Longrightarrow> saved (st\<lparr>s_tasks := h\<rparr>) = saved st"
  "same_data (s_tasks st) h \<Longrightarrow> address_space (st\<lparr>s_tasks := h\<rparr>) = address_space st"
  by (simp_all add: saved_def address_space_def same_data_def fun_eq_iff)

lemma saved_fields [simp]:
  "saved (st\<lparr>switched_task := a\<rparr>) = saved st" "saved (st\<lparr>switching := b\<rparr>) = saved st"
  "saved (st\<lparr>sleeping_task := a\<rparr>) = saved st" "saved (st\<lparr>doomed_task := a\<rparr>) = saved st"
  "saved (st\<lparr>current_task := a\<rparr>) = saved st"
  "address_space (st\<lparr>switched_task := a\<rparr>) = address_space st" "address_space (st\<lparr>switching := b\<rparr>) = address_space st"
  "address_space (st\<lparr>sleeping_task := a\<rparr>) = address_space st" "address_space (st\<lparr>doomed_task := a\<rparr>) = address_space st"
  "address_space (st\<lparr>current_task := a\<rparr>) = address_space st"
  by (simp_all add: saved_def address_space_def fun_eq_iff)

lemma data_okE:
  assumes "data_ok st xs" "p \<in> xs"
  obtains t pcb mi ms where "s_tasks st p = Some t" "s_pcbs st (t_pcb t) = Some pcb" "priority pcb \<noteq> 0"
    "s_mm_infos st (p_mm_info pcb) = Some mi" "s_ms st (t_ms t) = Some ms"
    "address_space st p = page_dir mi" "saved st p = (ss ms, esp ms)"
proof -
  have "p \<in> dom (s_tasks st)" using assms unfolding data_ok_def by blast
  then obtain t where t: "s_tasks st p = Some t" by blast
  have p: "t_ms (the (s_tasks st p)) \<in> dom (s_ms st)"
      "\<exists>pcb. s_pcbs st (t_pcb (the (s_tasks st p))) = Some pcb \<and> priority pcb \<noteq> 0 \<and> p_mm_info pcb \<in> dom (s_mm_infos st)"
    using assms unfolding data_ok_def by blast+
  obtain pcb where pcb: "s_pcbs st (t_pcb t) = Some pcb" "priority pcb \<noteq> 0" "p_mm_info pcb \<in> dom (s_mm_infos st)"
    using p(2) t by auto
  obtain mi ms where "s_mm_infos st (p_mm_info pcb) = Some mi" "s_ms st (t_ms t) = Some ms" using p(1) pcb(3) t by auto
  then show ?thesis using that [of t pcb mi ms] t pcb by (simp add: address_space_def saved_def)
qed

section \<open>Switching\<close>

lemma save_context_run:
  assumes d: "data_ok st xs" and c: "c \<in> xs"
  obtains m where "save_context c ss0 esp0 st = Inr (st\<lparr>s_ms := m\<rparr>)" "data_ok (st\<lparr>s_ms := m\<rparr>) xs"
    "\<And>p. p \<in> xs \<Longrightarrow> saved (st\<lparr>s_ms := m\<rparr>) p = (if p = c then (ss0, esp0) else saved st p)"
    "address_space (st\<lparr>s_ms := m\<rparr>) = address_space st"
proof -
  obtain t ms where t: "s_tasks st c = Some t" "s_ms st (t_ms t) = Some ms" using data_okE [OF d c] by metis
  let ?m = "(s_ms st)(t_ms t \<mapsto> \<lparr>ss = ss0, esp = esp0\<rparr>)"
  have "save_context c ss0 esp0 st = Inr (st\<lparr>s_ms := ?m\<rparr>)" using t by (simp add: save_context_def modify_at_def)
  moreover have "data_ok (st\<lparr>s_ms := ?m\<rparr>) xs" using d by (simp add: data_ok_def)
  moreover have "saved (st\<lparr>s_ms := ?m\<rparr>) p = (if p = c then (ss0, esp0) else saved st p)" if "p \<in> xs" for p
  proof -
    have "inj_on (\<lambda>p. t_ms (the (s_tasks st p))) xs" using d by (simp add: data_ok_def)
    from inj_on_eq_iff [OF this that c] have "t_ms (the (s_tasks st p)) = t_ms t \<longleftrightarrow> p = c" using t by simp
    then show ?thesis by (simp add: saved_def)
  qed
  moreover have "address_space (st\<lparr>s_ms := ?m\<rparr>) = address_space st" by (simp add: address_space_def fun_eq_iff)
  ultimately show ?thesis using that by blast
qed

text \<open>After a switch the new task runs with its saved context, and the old one's is saved.\<close>

lemma switch_run:
  assumes q: "queues st R S D" and sw: "switching st" "switched_task st = hd0 R"
    and c: "running st \<in> insert (idle_task st) (set (R @ S @ D))" and hs: "S \<noteq> [] \<longrightarrow> rm (s_tasks st) (hd S) \<noteq> 0"
  defines "n \<equiv> (if R = [] then idle_task st else hd R)"
  obtains st' where
    "sched_switch_next_task ss0 esp0 st = Inr ((address_space st n, if n = running st then (ss0, esp0) else saved st n), st')"
    "sched_inv st' R S D" "sleepers st' S = sleepers st S" "idle_task st' = idle_task st" "address_space st' = address_space st"
    "\<And>p. p \<in> insert (idle_task st) (set (R @ S @ D)) \<Longrightarrow> saved st' p = (if p = running st then (ss0, esp0) else saved st p)"
proof -
  let ?xs = "insert (idle_task st) (set (R @ S @ D))"
  have d: "data_ok st ?xs" using q by (simp add: queues_def)
  obtain m where m: "save_context (running st) ss0 esp0 st = Inr (st\<lparr>s_ms := m\<rparr>)" "data_ok (st\<lparr>s_ms := m\<rparr>) ?xs"
      "\<And>p. p \<in> ?xs \<Longrightarrow> saved (st\<lparr>s_ms := m\<rparr>) p = (if p = running st then (ss0, esp0) else saved st p)"
      "address_space (st\<lparr>s_ms := m\<rparr>) = address_space st"
    using save_context_run [OF d c] by blast
  define s1 where "s1 = st\<lparr>s_ms := m\<rparr>"
  have n: "n \<in> ?xs" by (auto simp: n_def)
  obtain t pcb mi ms where t: "s_tasks s1 n = Some t" "s_pcbs s1 (t_pcb t) = Some pcb" "priority pcb \<noteq> 0"
      "s_mm_infos s1 (p_mm_info pcb) = Some mi" "s_ms s1 (t_ms t) = Some ms"
      "address_space s1 n = page_dir mi" "saved s1 n = (ss ms, esp ms)"
    using data_okE [OF m(2) n] unfolding s1_def by metis
  have out: "(if n = running st then (ss0, esp0) else saved st n) = (ss ms, esp ms)" using m(3) [OF n] t(7) s1_def by simp
  have dir: "page_dir mi = address_space st n" using t(6) m(4) by (simp add: s1_def)
  show ?thesis
  proof (cases "R = []")
    case True
    then have nn: "n = idle_task st" "switched_task st = 0" using sw by (simp_all add: n_def)
    let ?s = "s1\<lparr>current_task := 0\<rparr>"
    have "sched_switch_next_task ss0 esp0 st = Inr ((page_dir mi, ss ms, esp ms), ?s)"
      using m(1) sw(1) nn t unfolding running_def by (simp add: sched_switch_next_task_def s1_def task_page_dir_def)
    moreover have "sched_inv ?s R S D"
      using q m(2) True hs nn by (simp add: sched_inv_def queues_def s1_def)
    moreover have "saved ?s p = (if p = running st then (ss0, esp0) else saved st p)" if "p \<in> ?xs" for p
      using m(3) [OF that] by (simp add: s1_def)
    ultimately show ?thesis
      using that [of ?s] out dir m(4) by (simp add: s1_def sleepers_def)
  next
    case False
    then have "hd R \<noteq> 0" using q hd_in_set [of R] by (metis queues_def ring_def)
    then have nn: "n = hd R" "switched_task st = n" "n \<noteq> 0" using sw(2) False by (simp_all add: n_def hd0_def)
    let ?h = "(s_tasks st)(n \<mapsto> t\<lparr>remaining_ticks := priority pcb\<rparr>)"
    let ?s = "s1\<lparr>current_task := n, s_tasks := ?h\<rparr>"
    have t0: "s_tasks st n = Some t" using t(1) by (simp add: s1_def)
    have "sched_switch_next_task ss0 esp0 st = Inr ((page_dir mi, ss ms, esp ms), ?s)"
      using m(1) sw(1) nn t unfolding running_def by (simp add: sched_switch_next_task_def s1_def task_page_dir_def)
    moreover have sd: "same_data (s_tasks (s1\<lparr>current_task := n\<rparr>)) ?h" using t0 by (auto simp: s1_def same_data_def)
    moreover have lk: "nx ?h p = nx (s_tasks st) p" "pv ?h p = pv (s_tasks st) p" "dom ?h = dom (s_tasks st)"
        "rm ?h p = (if p = n then priority pcb else rm (s_tasks st) p)" for p
      using t0 by (auto simp: task_fields)
    moreover have nR: "n \<in> set R" "n \<notin> set S" using nn(1) hd_in_set [OF False] q by (auto simp: queues_def)
    moreover have "queues ?s R S D"
    proof -
      have qs: "ring (s_tasks st) R" "slist (s_tasks st) (sleeping_task st) S" "slist (s_tasks st) (doomed_task st) D"
        using q by (simp_all add: queues_def)
      have "ring ?h R" using qs(1) lk(1-3) by (rule ring_same)
      moreover have "slist ?h (sleeping_task st) S" "slist ?h (doomed_task st) D"
        using slist_same [OF qs(2) lk(1,3)] slist_same [OF qs(3) lk(1,3)] .
      moreover have "data_ok ?s ?xs"
        using data_ok_same [OF sd] m(2) by (simp add: s1_def)
      ultimately show ?thesis using q by (simp add: queues_def s1_def)
    qed
    moreover have "saved ?s = saved s1" "address_space ?s = address_space st"
      using saved_same [OF sd] m(4) by (simp_all add: s1_def)
    moreover have "deadlines ?h 0 S = deadlines (s_tasks st) 0 S" using lk(4) nR by (intro deadlines_cong) auto
    moreover have "sched_inv ?s R S D"
    proof -
      have "hd S \<noteq> n" if "S \<noteq> []" using that nR hd_in_set by metis
      then show ?thesis
        using \<open>queues ?s R S D\<close> False nn(1) hs lk(4) t(3) by (auto simp: sched_inv_def hd0_def)
    qed
    ultimately show ?thesis
      using that [of ?s] out dir m(3) by (simp add: s1_def sleepers_def)
  qed
qed

section \<open>Waking up\<close>

text \<open>
  Where \<open>put_in_schedule_ring\<close> finds the ring: at the running task, or at the task that the idle task
  is about to give way to.
\<close>

definition anchored :: "sched_state \<Rightarrow> u32 list \<Rightarrow> bool" where
  "anchored st R \<longleftrightarrow>
     (if current_task st \<noteq> 0 then R \<noteq> [] \<and> current_task st = hd R
      else switched_task st = hd0 R \<and> (R \<noteq> [] \<longrightarrow> switching st))"

fun wake_one :: "u32 list \<Rightarrow> u32 \<Rightarrow> u32 list" where
  "wake_one [] p = [p]"
| "wake_one (a # xs) p = a # p # xs"

text \<open>The ring after several tasks have been put in it one after the other.\<close>

fun woken :: "u32 list \<Rightarrow> u32 list \<Rightarrow> u32 list" where
  "woken [] [] = []"
| "woken [] (w # W) = w # rev W"
| "woken (a # xs) W = a # rev W @ xs"

lemma woken_Nil [simp]: "woken R [] = R"
  by (cases R) simp_all

lemma woken_Cons: "woken R (w # W) = woken (wake_one R w) W"
  by (cases R) simp_all

lemma set_woken [simp]: "set (woken R W) = set R \<union> set W"
  by (cases "(R, W)" rule: woken.cases) auto

lemma distinct_woken [simp]: "distinct (woken R W) \<longleftrightarrow> distinct (R @ W)"
  by (cases "(R, W)" rule: woken.cases) auto

lemma set_wake_one [simp]: "set (wake_one R p) = insert p (set R)"
  by (cases R) auto

lemma distinct_wake_one [simp]: "distinct (wake_one R p) \<longleftrightarrow> distinct R \<and> p \<notin> set R"
  by (cases R) auto

lemma hd_woken: "R \<noteq> [] \<Longrightarrow> hd (woken R W) = hd R" "woken R W = [] \<longleftrightarrow> R = [] \<and> W = []"
  by (cases "(R, W)" rule: woken.cases; simp)+

text \<open>Changes to the state that leave all but the links and the decision to switch.\<close>

definition relinked :: "sched_state \<Rightarrow> sched_state \<Rightarrow> bool" where
  "relinked st st' \<longleftrightarrow> same_data (s_tasks st) (s_tasks st')
     \<and> current_task st' = current_task st \<and> doomed_task st' = doomed_task st \<and> idle_task st' = idle_task st
     \<and> s_ms st' = s_ms st \<and> s_pcbs st' = s_pcbs st \<and> s_mm_infos st' = s_mm_infos st
     \<and> s_sys st' = s_sys st \<and> next_tid st' = next_tid st \<and> itr_enabled st' = itr_enabled st"

lemma relinked_refl [simp]: "relinked st st"
  by (simp add: relinked_def)

lemma relinked_trans: "relinked st st1 \<Longrightarrow> relinked st1 st2 \<Longrightarrow> relinked st st2"
  unfolding relinked_def by (auto intro: same_data_trans)

lemma relinked_data:
  assumes "relinked st st'"
  shows "data_ok st' xs = data_ok st xs" "saved st' = saved st" "address_space st' = address_space st" "running st' = running st"
proof -
  note r = assms [unfolded relinked_def same_data_def]
  show "data_ok st' xs = data_ok st xs" using r by (simp add: data_ok_def inj_on_def)
  show "saved st' = saved st" "address_space st' = address_space st"
    using r by (simp_all add: saved_def address_space_def fun_eq_iff)
  show "running st' = running st" using r by (simp add: running_def)
qed

lemma put_run:
  assumes a: "anchored st R" and r: "ring (s_tasks st) R" and p: "p \<noteq> 0" "p \<notin> set R" "p \<in> dom (s_tasks st)"
  obtains st' where "put_in_schedule_ring p st = Inr st'" "anchored st' (wake_one R p)" "ring (s_tasks st') (wake_one R p)"
    "relinked st st'" "\<And>q. q \<notin> insert p (set R) \<Longrightarrow> s_tasks st' q = s_tasks st q" "\<And>q. rm (s_tasks st') q = rm (s_tasks st) q"
    "sleeping_task st' = sleeping_task st"
proof (cases R)
  case Nil
  then have z: "current_task st = 0" "switched_task st = 0" using a by (auto simp: anchored_def split: if_splits)
  obtain t where t: "s_tasks st p = Some t" using p(3) by blast
  let ?h = "(s_tasks st)(p \<mapsto> t\<lparr>t_next := p, t_previous := p\<rparr>)"
  let ?s = "st\<lparr>s_tasks := ?h, switched_task := p, switching := True\<rparr>"
  have "put_in_schedule_ring p st = Inr ?s" using z t by (simp add: put_in_schedule_ring_def)
  moreover have "ring ?h [p]" using p(1) by (simp add: ring_single nx_def)
  moreover have "relinked st ?s"
    using t by (simp add: relinked_def same_data_upd)
  moreover have "rm ?h q = rm (s_tasks st) q" for q using t by (simp add: rm_def)
  ultimately show ?thesis using that [of ?s] Nil z(1) by (simp add: anchored_def)
next
  case (Cons a xs)
  obtain h where h: "insert_after a p st = Inr (st\<lparr>s_tasks := h\<rparr>)" "ring h (a # p # xs)" "same_data (s_tasks st) h"
    "\<And>q. q \<notin> set (a # p # xs) \<Longrightarrow> h q = s_tasks st q" "\<And>q. rm h q = rm (s_tasks st) q"
    using insert_after_ring [of st a xs p] r p Cons by metis
  have a0: "a \<noteq> 0" using r Cons by (simp add: ring_def)
  have run: "put_in_schedule_ring p st = Inr (st\<lparr>s_tasks := h\<rparr>)"
    using a a0 h(1) Cons by (auto simp: anchored_def put_in_schedule_ring_def split: if_splits)
  have "anchored (st\<lparr>s_tasks := h\<rparr>) (a # p # xs)"
    using a Cons by (auto simp: anchored_def split: if_splits)
  moreover have "relinked st (st\<lparr>s_tasks := h\<rparr>)"
    using h(3) by (simp add: relinked_def)
  ultimately show ?thesis using that [OF run] h Cons by simp
qed

lemma wake_loop_run:
  assumes "anchored st R" "ring (s_tasks st) R" "slist (s_tasks st) (sleeping_task st) S" "distinct (R @ S)"
  shows "\<exists>st' W S'. S = W @ S' \<and> wake_loop st = Some (Inr st') \<and> (\<forall>w \<in> set W. rm (s_tasks st) w = 0)
    \<and> (S' \<noteq> [] \<longrightarrow> rm (s_tasks st) (hd S') \<noteq> 0) \<and> anchored st' (woken R W) \<and> ring (s_tasks st') (woken R W)
    \<and> slist (s_tasks st') (sleeping_task st') S' \<and> relinked st st'
    \<and> (\<forall>q. q \<notin> set (R @ W) \<longrightarrow> s_tasks st' q = s_tasks st q) \<and> (\<forall>q. rm (s_tasks st') q = rm (s_tasks st) q)"
  using assms
proof (induction S arbitrary: st R)
  case Nil
  then have "wake_loop st = Some (Inr st)" by (subst wake_loop.simps) simp
  then show ?case using Nil by simp
next
  case (Cons w S)
  have w: "sleeping_task st = w" "w \<noteq> 0" "w \<in> dom (s_tasks st)" "slist (s_tasks st) (nx (s_tasks st) w) S"
    using Cons.prems(3) by simp_all
  obtain t where t: "s_tasks st w = Some t" using w(3) by blast
  have tw: "remaining_ticks t = rm (s_tasks st) w" "t_next t = nx (s_tasks st) w" using t by (simp_all add: rm_def nx_def)
  show ?case
  proof (cases "rm (s_tasks st) w = 0")
    case False
    then have "wake_loop st = Some (Inr st)" using w t tw by (subst wake_loop.simps) simp
    then show ?thesis
      using Cons.prems False by (intro exI [of _ st] exI [of _ "[]"] exI [of _ "w # S"]) simp
  next
    case True
    obtain st1 where s1: "put_in_schedule_ring w st = Inr st1" "anchored st1 (wake_one R w)" "ring (s_tasks st1) (wake_one R w)"
        "relinked st st1" "\<And>q. q \<notin> insert w (set R) \<Longrightarrow> s_tasks st1 q = s_tasks st q" "\<And>q. rm (s_tasks st1) q = rm (s_tasks st) q"
        "sleeping_task st1 = sleeping_task st"
      using put_run [OF Cons.prems(1,2) w(2) _ w(3)] Cons.prems(4) by auto
    define st2 where "st2 = st1\<lparr>sleeping_task := nx (s_tasks st) w\<rparr>"
    have run: "wake_loop st = wake_loop st2"
      using w t tw True s1(1) by (subst wake_loop.simps) (simp add: st2_def)
    have "slist (s_tasks st1) (nx (s_tasks st) w) S"
    proof (rule slist_cong [OF w(4)])
      fix y assume "y \<in> set S"
      then have "s_tasks st1 y = s_tasks st y" "y \<in> dom (s_tasks st)"
        using s1(5) [of y] Cons.prems(4) slist_nonzero [OF w(4)] by auto
      then show "y \<in> dom (s_tasks st1) \<and> nx (s_tasks st1) y = nx (s_tasks st) y" by (auto simp: nx_def)
    qed
    then have p: "anchored st2 (wake_one R w)" "ring (s_tasks st2) (wake_one R w)" "slist (s_tasks st2) (sleeping_task st2) S"
        "distinct (wake_one R w @ S)"
      using s1(2,3) Cons.prems(4) by (auto simp: st2_def anchored_def)
    obtain st' W S' where ih: "S = W @ S'" "wake_loop st2 = Some (Inr st')" "\<forall>w \<in> set W. rm (s_tasks st2) w = 0"
        "S' \<noteq> [] \<longrightarrow> rm (s_tasks st2) (hd S') \<noteq> 0" "anchored st' (woken (wake_one R w) W)" "ring (s_tasks st') (woken (wake_one R w) W)"
        "slist (s_tasks st') (sleeping_task st') S'" "relinked st2 st'"
        "\<forall>q. q \<notin> set (wake_one R w @ W) \<longrightarrow> s_tasks st' q = s_tasks st2 q" "\<forall>q. rm (s_tasks st') q = rm (s_tasks st2) q"
      using Cons.IH [OF p] by blast
    have "relinked st1 st2"
      by (simp add: st2_def relinked_def)
    then have rl: "relinked st st'" using s1(4) ih(8) by (blast intro: relinked_trans)
    have h2: "s_tasks st2 = s_tasks st1" by (simp add: st2_def)
    have fr: "s_tasks st' q = s_tasks st q" if "q \<notin> set (R @ w # W)" for q
      using that ih(9) s1(5) [of q] h2 by simp
    show ?thesis
      by (rule exI [of _ st'], rule exI [of _ "w # W"], rule exI [of _ S'])
         (use ih True rl fr run s1(6) h2 in \<open>simp add: woken_Cons\<close>)
  qed
qed

section \<open>One tick\<close>

lemma deadlines_zero: "(\<And>w. w \<in> set W \<Longrightarrow> rm h w = 0) \<Longrightarrow> deadlines h d W = map (\<lambda>w. (w, d)) W"
  by (induction W arbitrary: d) simp_all

lemma deadlines_pos: "S \<noteq> [] \<longrightarrow> rm h (hd S) \<noteq> 0 \<Longrightarrow> (y, e) \<in> set (deadlines h 0 S) \<Longrightarrow> 0 < e"
proof (cases S)
  case (Cons a l)
  assume a: "S \<noteq> [] \<longrightarrow> rm h (hd S) \<noteq> 0" and m: "(y, e) \<in> set (deadlines h 0 S)"
  have "unat (rm h a) \<le> e" using m Cons deadlines_ge [of y e h "unat (rm h a)" l] by auto
  moreover have "0 < unat (rm h a)" using a Cons by (simp add: unat_gt_0)
  ultimately show ?thesis by simp
qed simp

lemma ring_hd: "ring h R \<Longrightarrow> R \<noteq> [] \<Longrightarrow> hd R \<noteq> 0"
  using hd_in_set [of R] by (metis ring_def)

text \<open>The sleepers whose time has come at the next tick, and the others.\<close>

definition due :: "(u32 \<times> nat) list \<Rightarrow> u32 list" where
  "due dl = map fst (filter (\<lambda>(_, e). e = 1) dl)"

definition tick_sleepers :: "(u32 \<times> nat) list \<Rightarrow> (u32 \<times> nat) list" where
  "tick_sleepers dl = map (\<lambda>(y, e). (y, e - 1)) (filter (\<lambda>(_, e). 1 < e) dl)"

lemma due_split:
  assumes "S = W @ S'" "\<And>w. w \<in> set W \<Longrightarrow> rm h w = 0" "S' \<noteq> [] \<longrightarrow> rm h (hd S') \<noteq> 0"
    "dl = map (\<lambda>(y, e). (y, e + 1)) (deadlines h 0 S)"
  shows "due dl = W" "tick_sleepers dl = deadlines h 0 S'"
proof -
  have d: "deadlines h 0 S = map (\<lambda>w. (w, 0)) W @ deadlines h 0 S'"
  proof -
    have "total h W = 0" using assms(2) by (induction W) simp_all
    then show ?thesis using deadlines_zero [OF assms(2)] by (simp add: assms(1) deadlines_append)
  qed
  have p: "0 < e" if "(y, e) \<in> set (deadlines h 0 S')" for y e using deadlines_pos [OF assms(3) that] .
  have f: "filter (\<lambda>(_, e). e = 1) dl = map (\<lambda>w. (w, 1)) W" "filter (\<lambda>(_, e). 1 < e) dl = map (\<lambda>(y, e). (y, e + 1)) (deadlines h 0 S')"
  proof -
    have "filter (\<lambda>x. 0 < snd x) (deadlines h 0 S') = deadlines h 0 S'" by (rule filter_True) (use p in auto)
    then show "filter (\<lambda>(_, e). e = 1) dl = map (\<lambda>w. (w, 1)) W" "filter (\<lambda>(_, e). 1 < e) dl = map (\<lambda>(y, e). (y, e + 1)) (deadlines h 0 S')"
      unfolding assms(4) d using p by (auto simp: filter_map o_def filter_empty_conv split_def)
  qed
  show "due dl = W" unfolding due_def f by (simp add: o_def)
  show "tick_sleepers dl = deadlines h 0 S'" unfolding tick_sleepers_def f by (simp add: o_def split_def)
qed

lemma map_fst_tick_sleepers: "map fst (tick_sleepers dl) = map fst (filter (\<lambda>(_, e). 1 < e) dl)"
  by (simp add: tick_sleepers_def o_def split_def)

lemma queues_frame:
  assumes q: "queues st R S D" and rl: "relinked st st'" and rs: "ring (s_tasks st') R'" "slist (s_tasks st') (sleeping_task st') S'"
    and p: "distinct (R' @ S')" "set (R' @ S') = set (R @ S)" and f: "\<And>q. q \<notin> set (R @ S) \<Longrightarrow> nx (s_tasks st') q = nx (s_tasks st) q"
  shows "queues st' R' S' D"
proof -
  have "slist (s_tasks st') (doomed_task st') D"
  proof -
    have "slist (s_tasks st) (doomed_task st) D" using q by (simp add: queues_def)
    moreover have "y \<in> dom (s_tasks st') \<and> nx (s_tasks st') y = nx (s_tasks st) y" if "y \<in> set D" for y
      using that q rl f [of y] by (auto simp: queues_def data_ok_def relinked_def same_data_def)
    moreover have "doomed_task st' = doomed_task st" using rl by (simp add: relinked_def)
    ultimately show ?thesis using slist_cong [of "s_tasks st" "doomed_task st" D "s_tasks st'"] by simp
  qed
  moreover have s: "set R' \<union> set S' = set R \<union> set S" using p(2) by simp
  then have "set (R' @ S' @ D) = set (R @ S @ D)" by auto
  moreover have "idle_task st' = idle_task st" using rl by (simp add: relinked_def)
  moreover have "distinct (idle_task st # R' @ S' @ D)"
    using q p(1) s by (auto simp: queues_def)
  ultimately show ?thesis
    using q rs relinked_data(1) [OF rl] by (simp add: queues_def)
qed

lemma wake_sleeping_run:
  assumes inv: "sched_inv st R S D"
  defines "dl \<equiv> sleepers st S"
  defines "R1 \<equiv> woken R (due dl)" and "S' \<equiv> map fst (tick_sleepers dl)"
  obtains st' where "wake_sleeping st = Some (Inr st')" "queues st' R1 S' D" "anchored st' R1" "relinked st st'"
    "sleepers st' S' = tick_sleepers dl" "S' \<noteq> [] \<longrightarrow> rm (s_tasks st') (hd S') \<noteq> 0"
    "R \<noteq> [] \<Longrightarrow> rm (s_tasks st') (hd R) = rm (s_tasks st) (hd R)"
proof -
  have q: "queues st R S D" and cur: "current_task st = hd0 R" "R = [] \<longrightarrow> switched_task st = 0"
    and hs: "S \<noteq> [] \<longrightarrow> rm (s_tasks st) (hd S) \<noteq> 0"
    using inv by (simp_all add: sched_inv_def)
  have qs: "ring (s_tasks st) R" "slist (s_tasks st) (sleeping_task st) S" "distinct (R @ S)" using q by (auto simp: queues_def)
  have an: "anchored st R"
    using cur ring_hd [OF qs(1)] by (auto simp: anchored_def hd0_def)
  show ?thesis
  proof (cases S)
    case Nil
    then have "wake_sleeping st = Some (Inr st)" using qs(2) by (simp add: wake_sleeping_def)
    moreover have "dl = []" by (simp add: dl_def sleepers_def Nil)
    ultimately show ?thesis using that [of st] q an Nil
      by (simp add: R1_def S'_def due_def tick_sleepers_def sleepers_def)
  next
    case (Cons y ys)
    have y: "sleeping_task st = y" "y \<noteq> 0" "y \<in> dom (s_tasks st)" using qs(2) Cons by simp_all
    obtain t where t: "s_tasks st y = Some t" using y(3) by blast
    define h1 where "h1 = (s_tasks st)(y \<mapsto> t\<lparr>remaining_ticks := remaining_ticks t - 1\<rparr>)"
    define st1 where "st1 = st\<lparr>s_tasks := h1\<rparr>"
    have run: "wake_sleeping st = wake_loop st1"
      using y t by (simp add: wake_sleeping_def st1_def h1_def)
    have lk: "nx h1 q = nx (s_tasks st) q" "pv h1 q = pv (s_tasks st) q" "dom h1 = dom (s_tasks st)"
      "rm h1 q = (if q = y then rm (s_tasks st) y - 1 else rm (s_tasks st) q)" for q
      using t by (auto simp: h1_def task_fields)
    have sd: "same_data (s_tasks st) h1" using t by (simp add: h1_def same_data_upd)
    have p1: "anchored st1 R" "ring (s_tasks st1) R" "slist (s_tasks st1) (sleeping_task st1) S"
      using an ring_same [OF qs(1) lk(1-3)] slist_same [OF qs(2) lk(1,3)] by (simp_all add: st1_def anchored_def)
    obtain st' W T where w: "S = W @ T" "wake_loop st1 = Some (Inr st')" "\<forall>w \<in> set W. rm h1 w = 0"
        "T \<noteq> [] \<longrightarrow> rm h1 (hd T) \<noteq> 0" "anchored st' (woken R W)" "ring (s_tasks st') (woken R W)"
        "slist (s_tasks st') (sleeping_task st') T" "relinked st1 st'"
        "\<forall>q. q \<notin> set (R @ W) \<longrightarrow> s_tasks st' q = h1 q" "\<forall>q. rm (s_tasks st') q = rm h1 q"
      using wake_loop_run [OF p1 qs(3)] by (auto simp: st1_def)
    have dl: "dl = map (\<lambda>(y, e). (y, e + 1)) (deadlines h1 0 S)"
    proof -
      have "0 < unat (rm (s_tasks st) y)" using hs Cons by (simp add: unat_gt_0)
      then have u: "unat (rm (s_tasks st) y) = unat (rm h1 y) + 1"
        using lk(4) [of y] unat_minus_one [of "rm (s_tasks st) y"] by (simp add: unat_gt_0)
      have "y \<notin> set ys" using qs(3) Cons by simp
      then have "deadlines h1 d ys = deadlines (s_tasks st) d ys" for d
        using lk(4) by (intro deadlines_cong) auto
      then show ?thesis
        using deadlines_shift [of "s_tasks st" "unat (rm h1 y)" 1 ys] u by (simp add: dl_def sleepers_def Cons)
    qed
    have due: "due dl = W" "tick_sleepers dl = deadlines h1 0 T"
      using due_split [OF w(1) _ w(4) dl] w(3) by auto
    then have ST: "R1 = woken R W" "S' = T" by (simp_all add: R1_def S'_def)
    have rl: "relinked st st'"
      using relinked_trans [OF _ w(8)] sd by (simp add: st1_def relinked_def)
    have "queues st' R1 S' D"
    proof (rule queues_frame [OF q rl])
      show "ring (s_tasks st') R1" "slist (s_tasks st') (sleeping_task st') S'" using w(6,7) ST by simp_all
      show "distinct (R1 @ S')" using qs(3) w(1) ST by auto
      show "set (R1 @ S') = set (R @ S)" using w(1) ST by auto
      show "nx (s_tasks st') q = nx (s_tasks st) q" if "q \<notin> set (R @ S)" for q
        using that w(1,9) lk(1) by (simp add: nx_def)
    qed
    moreover have "sleepers st' S' = tick_sleepers dl"
      unfolding sleepers_def due(2) ST using w(10) by (intro deadlines_cong) simp
    moreover have "rm (s_tasks st') (hd R) = rm (s_tasks st) (hd R)" if "R \<noteq> []"
      using hd_in_set [OF that] qs(3) w(10) lk(4) Cons by auto
    ultimately show ?thesis
      using that [of st'] run w(2,4,5,10) ST rl by simp
  qed
qed

text \<open>What the switch finds: the decision to switch to the head of the ring, or its running task left alone.\<close>

definition ready :: "sched_state \<Rightarrow> u32 list \<Rightarrow> u32 list \<Rightarrow> u32 list \<Rightarrow> bool" where
  "ready st R S D \<longleftrightarrow> queues st R S D \<and> (S \<noteq> [] \<longrightarrow> rm (s_tasks st) (hd S) \<noteq> 0)
     \<and> (if switching st then switched_task st = hd0 R
        else current_task st = hd0 R \<and> (R = [] \<longrightarrow> switched_task st = 0) \<and> (R \<noteq> [] \<longrightarrow> rm (s_tasks st) (hd R) \<noteq> 0))"

text \<open>The ring after a tick: the next task comes first when the quantum of the running one ends.\<close>

definition end_of_quantum :: "sched_state \<Rightarrow> bool" where
  "end_of_quantum st \<longleftrightarrow> current_task st \<noteq> 0 \<and> rm (s_tasks st) (current_task st) = 1"

definition tick_ring :: "sched_state \<Rightarrow> u32 list \<Rightarrow> u32 list \<Rightarrow> u32 list" where
  "tick_ring st R S =
     (let R1 = woken R (due (sleepers st S)) in if end_of_quantum st then rotate1 R1 else R1)"

lemma tick_run:
  assumes inv: "sched_inv st R S D"
  defines "S' \<equiv> map fst (tick_sleepers (sleepers st S))"
  obtains st1 st2 where "wake_sleeping st = Some (Inr st1)" "count_tick st1 = Inr st2" "ready st2 (tick_ring st R S) S' D"
    "relinked st st2" "sleepers st2 S' = tick_sleepers (sleepers st S)"
proof -
  let ?R1 = "woken R (due (sleepers st S))"
  obtain st1 where 1: "wake_sleeping st = Some (Inr st1)" "queues st1 ?R1 S' D" "anchored st1 ?R1" "relinked st st1"
    "sleepers st1 S' = tick_sleepers (sleepers st S)" "S' \<noteq> [] \<longrightarrow> rm (s_tasks st1) (hd S') \<noteq> 0"
    "R \<noteq> [] \<Longrightarrow> rm (s_tasks st1) (hd R) = rm (s_tasks st) (hd R)"
    using wake_sleeping_run [OF inv] unfolding S'_def by blast
  have cur: "current_task st = hd0 R" "current_task st1 = hd0 R" using inv 1(4) by (simp_all add: sched_inv_def relinked_def)
  have r: "ring (s_tasks st) R" "ring (s_tasks st1) ?R1" using inv 1(2) by (simp_all add: sched_inv_def queues_def)
  show ?thesis
  proof (cases R)
    case Nil
    then have "count_tick st1 = Inr st1" "tick_ring st R S = ?R1" "\<not> end_of_quantum st"
      using cur by (simp_all add: count_tick_def tick_ring_def end_of_quantum_def)
    moreover have "ready st1 ?R1 S' D"
      using 1(2,3,6) cur Nil by (auto simp: ready_def anchored_def)
    ultimately show ?thesis using that 1 by metis
  next
    case (Cons c xs)
    have c0: "c \<noteq> 0" "c \<in> dom (s_tasks st1)" using r Cons by (auto simp: ring_def)
    then obtain t where t: "s_tasks st1 c = Some t" by blast
    have cc: "current_task st = c" "current_task st1 = c" using cur Cons by simp_all
    have rmc: "remaining_ticks t = rm (s_tasks st) c" "rm (s_tasks st) c \<noteq> 0"
      using 1(7) t Cons inv by (simp_all add: rm_def sched_inv_def)
    obtain zs where zs: "?R1 = c # zs" using Cons by simp
    have tn: "t_next t = hd (zs @ [c])" using ring_next [of "s_tasks st1" c zs] r(2) t zs by (simp add: nx_def)
    define h where "h = (s_tasks st1)(c \<mapsto> t\<lparr>remaining_ticks := remaining_ticks t - 1\<rparr>)"
    define st2 where "st2 = (if remaining_ticks t = 1 then st1\<lparr>s_tasks := h, switched_task := t_next t, switching := True\<rparr>
        else st1\<lparr>s_tasks := h, switching := False\<rparr>)"
    have run: "count_tick st1 = Inr st2"
      using cc c0 t by (simp add: count_tick_def st2_def h_def)
    have lk: "nx h q = nx (s_tasks st1) q" "pv h q = pv (s_tasks st1) q" "dom h = dom (s_tasks st1)"
      "rm h q = (if q = c then rm (s_tasks st) c - 1 else rm (s_tasks st1) q)" for q
      using t rmc by (auto simp: h_def task_fields)
    have f2: "s_tasks st2 = h" "sleeping_task st2 = sleeping_task st1" by (simp_all add: st2_def)
    have rl12: "relinked st1 st2" using t by (simp add: relinked_def st2_def h_def same_data_upd)
    have eq: "end_of_quantum st \<longleftrightarrow> remaining_ticks t = 1" using cc c0 rmc by (simp add: end_of_quantum_def)
    let ?R2 = "tick_ring st R S"
    have R2: "?R2 = (if remaining_ticks t = 1 then zs @ [c] else c # zs)" using zs by (simp add: tick_ring_def eq)
    have dj: "c \<notin> set S'" using 1(2) zs by (auto simp: queues_def)
    have "queues st2 ?R2 S' D"
    proof (rule queues_frame [OF 1(2) rl12])
      have "ring h (c # zs)" using ring_same [OF _ lk(1-3)] r(2) zs by simp
      then show "ring (s_tasks st2) ?R2" using ring_rotate [of h "c # zs"] by (simp add: R2 f2)
      have "slist (s_tasks st1) (sleeping_task st1) S'" using 1(2) by (simp add: queues_def)
      then show "slist (s_tasks st2) (sleeping_task st2) S'" unfolding f2 using lk(1,3) by (rule slist_same)
      show "distinct (?R2 @ S')" using 1(2) zs by (auto simp: queues_def R2)
      show "set (?R2 @ S') = set (?R1 @ S')" using zs by (auto simp: R2)
      show "nx (s_tasks st2) q = nx (s_tasks st1) q" for q using lk(1) f2 by simp
    qed
    moreover have "sleepers st2 S' = tick_sleepers (sleepers st S)"
    proof -
      have "deadlines h 0 S' = deadlines (s_tasks st1) 0 S'" using lk(4) dj by (intro deadlines_cong) auto
      then show ?thesis using 1(5) by (simp add: sleepers_def f2)
    qed
    moreover have "S' \<noteq> [] \<longrightarrow> rm (s_tasks st2) (hd S') \<noteq> 0"
      using 1(6) dj lk(4) hd_in_set [of S'] f2 by metis
    moreover have "if switching st2 then switched_task st2 = hd0 ?R2
        else current_task st2 = hd0 ?R2 \<and> (?R2 = [] \<longrightarrow> switched_task st2 = 0) \<and> (?R2 \<noteq> [] \<longrightarrow> rm (s_tasks st2) (hd ?R2) \<noteq> 0)"
    proof (cases "remaining_ticks t = 1")
      case True
      then show ?thesis by (simp add: st2_def R2 tn hd0_def)
    next
      case False
      then have "rm h c \<noteq> 0" using lk(4) [of c] rmc by simp
      then show ?thesis using False cc by (simp add: st2_def R2)
    qed
    ultimately show ?thesis
      using that [OF 1(1) run] relinked_trans [OF 1(4) rl12] by (simp add: ready_def)
  qed
qed

section \<open>The hand-over to the next thread\<close>

definition next_thread :: "sched_state \<Rightarrow> u32 list \<Rightarrow> u32" where
  "next_thread st R = (if R = [] then idle_task st else hd R)"

definition threads :: "sched_state \<Rightarrow> u32 list \<Rightarrow> u32 list \<Rightarrow> u32 list \<Rightarrow> u32 set" where
  "threads st R S D = insert (idle_task st) (set (R @ S @ D))"

text \<open>
  \<open>n\<close> continues where it was stopped, in its address space, and the thread that ran is resumed later
  where it stopped now; no other thread's context changes.
\<close>

definition handed_over ::
    "u16 \<Rightarrow> u32 \<Rightarrow> sched_state \<Rightarrow> u32 \<Rightarrow> u32 set \<Rightarrow> u32 \<times> u16 \<times> u32 \<Rightarrow> sched_state \<Rightarrow> bool" where
  "handed_over ss0 esp0 st n P out st' \<longleftrightarrow>
     out = (address_space st n, if n = running st then (ss0, esp0) else saved st n)
     \<and> running st' = n \<and> idle_task st' = idle_task st
     \<and> (n \<noteq> running st \<longrightarrow> saved st' (running st) = (ss0, esp0))
     \<and> (\<forall>p \<in> P. address_space st' p = address_space st p \<and> (p \<noteq> running st \<longrightarrow> saved st' p = saved st p))"

lemma sched_inv_running: "sched_inv st R S D \<Longrightarrow> running st = next_thread st R"
  using ring_hd by (auto simp: sched_inv_def queues_def running_def next_thread_def hd0_def)

lemma switch_ready:
  assumes r: "ready st R S D" and c: "running st \<in> threads st R S D"
  obtains out st' where "sched_switch_next_task ss0 esp0 st = Inr (out, st')" "sched_inv st' R S D"
    "sleepers st' S = sleepers st S" "handed_over ss0 esp0 st (next_thread st R) (threads st R S D) out st'"
proof (cases "switching st")
  case True
  have q: "queues st R S D" "S \<noteq> [] \<longrightarrow> rm (s_tasks st) (hd S) \<noteq> 0" "switched_task st = hd0 R"
    using r True by (simp_all add: ready_def)
  obtain st' where s:
    "sched_switch_next_task ss0 esp0 st = Inr ((address_space st (next_thread st R), if next_thread st R = running st then (ss0, esp0) else saved st (next_thread st R)), st')"
    "sched_inv st' R S D" "sleepers st' S = sleepers st S" "idle_task st' = idle_task st" "address_space st' = address_space st"
    "\<And>p. p \<in> threads st R S D \<Longrightarrow> saved st' p = (if p = running st then (ss0, esp0) else saved st p)"
    using switch_run [OF q(1) True q(3) c [unfolded threads_def] q(2), of ss0 esp0] unfolding next_thread_def threads_def by metis
  have "running st' = next_thread st R" using sched_inv_running [OF s(2)] s(4) by (simp add: next_thread_def)
  then show ?thesis
    using that [OF s(1-3)] s(4-6) c by (simp add: handed_over_def)
next
  case False
  have q: "queues st R S D" "S \<noteq> [] \<longrightarrow> rm (s_tasks st) (hd S) \<noteq> 0" "current_task st = hd0 R"
      "R = [] \<longrightarrow> switched_task st = 0" "R \<noteq> [] \<longrightarrow> rm (s_tasks st) (hd R) \<noteq> 0"
    using r False by (simp_all add: ready_def)
  then have inv: "sched_inv st R S D" by (simp add: sched_inv_def)
  note n = sched_inv_running [OF inv]
  have d: "data_ok st (threads st R S D)" using q(1) by (simp add: queues_def threads_def)
  obtain t pcb mi ms where t: "s_tasks st (running st) = Some t" "s_pcbs st (t_pcb t) = Some pcb"
      "s_mm_infos st (p_mm_info pcb) = Some mi" "address_space st (running st) = page_dir mi"
    using data_okE [OF d c] by metis
  have "task_page_dir st (running st) = Inr (address_space st (running st))"
    using t by (simp add: task_page_dir_def)
  then have "sched_switch_next_task ss0 esp0 st = Inr ((address_space st (running st), ss0, esp0), st)"
    using False by (simp add: sched_switch_next_task_def running_def)
  then show ?thesis using that inv n by (simp add: handed_over_def)
qed

text \<open>A change of the links before the switch is not seen in what is handed over.\<close>

lemma handed_over_relinked:
  assumes "relinked st st1" "handed_over ss0 esp0 st1 n P out st'"
  shows "handed_over ss0 esp0 st n P out st'"
proof -
  have "idle_task st1 = idle_task st" using assms(1) by (simp add: relinked_def)
  then show ?thesis using assms(2) relinked_data [OF assms(1)] unfolding handed_over_def by simp
qed

lemma running_thread: "sched_inv st R S D \<Longrightarrow> running st \<in> threads st R S D"
  using sched_inv_running by (auto simp: next_thread_def threads_def)

section \<open>Cleaning up\<close>

definition same_but :: "u32 set \<Rightarrow> sched_state \<Rightarrow> sched_state \<Rightarrow> bool" where
  "same_but P st st' \<longleftrightarrow> s_tasks st' = s_tasks st \<and> s_mm_infos st' = s_mm_infos st
     \<and> current_task st' = current_task st \<and> switching st' = switching st \<and> switched_task st' = switched_task st
     \<and> sleeping_task st' = sleeping_task st \<and> idle_task st' = idle_task st
     \<and> (\<forall>q. q \<notin> (\<lambda>p. t_ms (the (s_tasks st p))) ` P \<longrightarrow> s_ms st' q = s_ms st q)
     \<and> (\<forall>q. q \<notin> (\<lambda>p. t_pcb (the (s_tasks st p))) ` P \<longrightarrow> s_pcbs st' q = s_pcbs st q)"

lemma cleanup_loop_same:
  assumes "slist (s_tasks st) p D" "cleanup_loop A V me p st = Some (Inr st')"
  shows "same_but (set D) st st'"
  using assms
proof (induction D arbitrary: p st)
  case Nil
  then have "st' = st" by (subst (asm) cleanup_loop.simps) simp
  then show ?case by (simp add: same_but_def)
next
  case (Cons d D)
  have p: "p = d" "d \<noteq> 0" "d \<in> dom (s_tasks st)" "slist (s_tasks st) (nx (s_tasks st) d) D" using Cons.prems(1) by auto
  obtain t where t: "s_tasks st d = Some t" using p(3) by blast
  have e: "\<exists>sys. cleanup_loop A V me (t_next t) (st\<lparr>s_sys := sys, s_ms := (s_ms st)(t_ms t := None),
      s_pcbs := (s_pcbs st)(t_pcb t := None)\<rparr>) = Some (Inr st')"
    using Cons.prems(2) p t
    by (subst (asm) cleanup_loop.simps) (auto simp: bindE_def split: sum.splits)
  then obtain sys where "cleanup_loop A V me (t_next t) (st\<lparr>s_sys := sys, s_ms := (s_ms st)(t_ms t := None),
      s_pcbs := (s_pcbs st)(t_pcb t := None)\<rparr>) = Some (Inr st')" by blast
  moreover have "t_next t = nx (s_tasks st) d" using t by (simp add: nx_def)
  ultimately have "same_but (set D) (st\<lparr>s_sys := sys, s_ms := (s_ms st)(t_ms t := None), s_pcbs := (s_pcbs st)(t_pcb t := None)\<rparr>) st'"
    using Cons.IH [of _ "nx (s_tasks st) d"] p(4) by simp
  then show ?case using t by (auto simp: same_but_def)
qed

lemma cleanup_run:
  assumes inv: "sched_inv st R S D" and run: "cleanup_doomed_tasks A V me st = Some (Inr st1)"
  shows "sched_inv st1 R S [] \<and> sleepers st1 = sleepers st \<and> running st1 = running st \<and> idle_task st1 = idle_task st
    \<and> s_tasks st1 = s_tasks st \<and> current_task st1 = current_task st
    \<and> (\<forall>p \<in> threads st R S []. saved st1 p = saved st p \<and> address_space st1 p = address_space st p)"
proof -
  have q: "queues st R S D" using inv by (simp add: sched_inv_def)
  then have sd: "slist (s_tasks st) (doomed_task st) D" by (simp add: queues_def)
  obtain st0 where s0: "cleanup_loop A V me (doomed_task st) st = Some (Inr st0)" "st1 = st0\<lparr>doomed_task := 0\<rparr>"
  proof -
    obtain r where r: "cleanup_loop A V me (doomed_task st) st = Some r" "bindE r (\<lambda>st. Inr (st\<lparr>doomed_task := 0\<rparr>)) = Inr st1"
      using run unfolding cleanup_doomed_tasks_def by auto
    show ?thesis using r that by (cases r) auto
  qed
  have sb: "same_but (set D) st st1" using cleanup_loop_same [OF sd s0(1)] by (simp add: s0(2) same_but_def)
  note sb' = sb [unfolded same_but_def]
  have d: "data_ok st (threads st R S D)" using q by (simp add: queues_def threads_def)
  have nD: "p \<notin> set D" if "p \<in> threads st R S []" for p using that q by (auto simp: threads_def queues_def)
  have sub: "threads st R S [] \<subseteq> threads st R S D" "set D \<subseteq> threads st R S D" by (auto simp: threads_def)
  have inj: "inj_on (\<lambda>p. t_ms (the (s_tasks st p))) (threads st R S D)" "inj_on (\<lambda>p. t_pcb (the (s_tasks st p))) (threads st R S D)"
    using d by (simp_all add: data_ok_def)
  have out: "t_ms (the (s_tasks st p)) \<notin> (\<lambda>p. t_ms (the (s_tasks st p))) ` set D"
      "t_pcb (the (s_tasks st p)) \<notin> (\<lambda>p. t_pcb (the (s_tasks st p))) ` set D" if "p \<in> threads st R S []" for p
  proof -
    have pp: "p \<in> threads st R S D" "p \<notin> set D" using that sub(1) nD by auto
    show "t_ms (the (s_tasks st p)) \<notin> (\<lambda>p. t_ms (the (s_tasks st p))) ` set D"
      using inj_on_image_mem_iff [OF inj(1) pp(1) sub(2)] pp(2) by simp
    show "t_pcb (the (s_tasks st p)) \<notin> (\<lambda>p. t_pcb (the (s_tasks st p))) ` set D"
      using inj_on_image_mem_iff [OF inj(2) pp(1) sub(2)] pp(2) by simp
  qed
  have same: "s_ms st1 (t_ms (the (s_tasks st p))) = s_ms st (t_ms (the (s_tasks st p)))"
      "s_pcbs st1 (t_pcb (the (s_tasks st p))) = s_pcbs st (t_pcb (the (s_tasks st p)))" if "p \<in> threads st R S []" for p
    using sb' out [OF that] by blast+
  have d1: "data_ok st1 (threads st R S [])"
    unfolding data_ok_def
  proof (intro conjI ballI)
    show "threads st R S [] \<subseteq> dom (s_tasks st1)" using d sub(1) sb' by (auto simp: data_ok_def)
    show "inj_on (\<lambda>p. t_ms (the (s_tasks st1 p))) (threads st R S [])" "inj_on (\<lambda>p. t_pcb (the (s_tasks st1 p))) (threads st R S [])"
      using inj_on_subset [OF inj(1) sub(1)] inj_on_subset [OF inj(2) sub(1)] sb' by simp_all
  next
    fix p assume p: "p \<in> threads st R S []"
    then have pp: "p \<in> threads st R S D" using sub(1) by blast
    obtain t pcb mi ms where t: "s_tasks st p = Some t" "s_pcbs st (t_pcb t) = Some pcb" "priority pcb \<noteq> 0"
      "s_mm_infos st (p_mm_info pcb) = Some mi" "s_ms st (t_ms t) = Some ms" using data_okE [OF d pp] by metis
    show "t_ms (the (s_tasks st1 p)) \<in> dom (s_ms st1)" using same(1) [OF p] t sb' by auto
    show "\<exists>pcb. s_pcbs st1 (t_pcb (the (s_tasks st1 p))) = Some pcb \<and> priority pcb \<noteq> 0 \<and> p_mm_info pcb \<in> dom (s_mm_infos st1)"
      using same(2) [OF p] t sb' by auto
  qed
  have "queues st1 R S []"
  proof -
    have "distinct (idle_task st # R @ S @ D) \<Longrightarrow> distinct (idle_task st # R @ S @ [])" by auto
    then show ?thesis using q d1 sb' s0(2) by (simp add: queues_def threads_def del: distinct_append)
  qed
  then have "sched_inv st1 R S []" using inv sb' by (simp add: sched_inv_def)
  moreover have "saved st1 p = saved st p" "address_space st1 p = address_space st p" if "p \<in> threads st R S []" for p
    using same [OF that] sb' by (simp_all add: saved_def address_space_def)
  moreover have "sleepers st1 = sleepers st" using sb' by (intro ext) (simp add: sleepers_def)
  ultimately show ?thesis using sb' by (simp add: running_def)
qed

lemma cleanup_none: "doomed_task st = 0 \<Longrightarrow> cleanup_doomed_tasks A V me st = Some (Inr st)"
  by (simp add: cleanup_doomed_tasks_def cleanup_loop.simps)

section \<open>Parking and killing\<close>

text \<open>The ring and the sleepers after the running thread \<open>hd R\<close> has given up the processor for \<open>ms0\<close> ticks.\<close>

definition park_ring :: "u32 \<Rightarrow> u32 list \<Rightarrow> u32 list" where
  "park_ring ms0 R = (if ms0 = 0 then rotate1 R else tl R)"

definition park_sleepers :: "u32 \<Rightarrow> u32 list \<Rightarrow> (u32 \<times> nat) list \<Rightarrow> (u32 \<times> nat) list" where
  "park_sleepers ms0 R dl = (if ms0 = 0 then dl else sleep_insert (hd R) (unat ms0) dl)"

lemma sleepers_fst [simp]: "map fst (sleepers st S) = S"
  by (simp add: sleepers_def)

text \<open>Taking the running thread out of the ring.\<close>

lemma leave_ring:
  assumes inv: "sched_inv st (a # xs) S D"
  obtains st1 where "remove_from_schedule_ring (st\<lparr>switching := True\<rparr>) = Inr (a, st1)" "switching st1" "switched_task st1 = hd0 xs"
    "sleeping_task st1 = sleeping_task st" "relinked st st1" "ring (s_tasks st1) xs"
    "\<And>q. q \<notin> set xs \<Longrightarrow> s_tasks st1 q = s_tasks st q" "\<And>q. rm (s_tasks st1) q = rm (s_tasks st) q"
proof -
  let ?st = "st\<lparr>switching := True\<rparr>"
  have r: "ring (s_tasks ?st) (a # xs)" "current_task ?st = a" using inv by (simp_all add: sched_inv_def queues_def)
  obtain h where h: "remove_from_schedule_ring ?st = Inr (a, ?st\<lparr>s_tasks := h, switched_task := (if xs = [] then 0 else hd xs)\<rparr>)"
    "ring h xs" "same_data (s_tasks ?st) h" "\<And>q. q \<notin> set xs \<Longrightarrow> h q = s_tasks ?st q" "\<And>q. rm h q = rm (s_tasks ?st) q"
    using remove_head [OF r] by blast
  show ?thesis
    by (rule that [OF h(1)]) (use h in \<open>simp_all add: hd0_def relinked_def\<close>)
qed

lemma park_run:
  fixes ms0 :: u32
  assumes inv: "sched_inv st R S D" and R: "R \<noteq> []"
  defines "dl \<equiv> park_sleepers ms0 R (sleepers st S)"
  obtains st2 where "sched_park_task ms0 st = Some (Inr st2)" "ready st2 (park_ring ms0 R) (map fst dl) D"
    "relinked st st2" "sleepers st2 (map fst dl) = dl"
proof -
  obtain a xs where Rx: "R = a # xs" using R by (cases R) auto
  have q: "queues st R S D" and cur: "current_task st = a" and hs: "S \<noteq> [] \<longrightarrow> rm (s_tasks st) (hd S) \<noteq> 0"
    using inv by (simp_all add: sched_inv_def Rx)
  have qs: "ring (s_tasks st) (a # xs)" "slist (s_tasks st) (sleeping_task st) S" "distinct ((a # xs) @ S)"
    using q Rx by (auto simp: queues_def)
  have a: "a \<noteq> 0" "a \<in> dom (s_tasks st)" "a \<notin> set S" "a \<notin> set xs" using qs by (auto simp: ring_def)
  show ?thesis
  proof (cases "ms0 = 0")
    case True
    obtain t where t: "s_tasks st a = Some t" using a(2) by blast
    have tn: "t_next t = hd (xs @ [a])" using ring_next [OF qs(1)] t by (simp add: nx_def)
    let ?s = "st\<lparr>switching := True, switched_task := hd (xs @ [a])\<rparr>"
    have "sched_park_task ms0 st = Some (Inr ?s)"
      using True cur t tn by (simp add: sched_park_task_def)
    moreover have "ready ?s (xs @ [a]) S D"
    proof -
      have "queues ?s (xs @ [a]) S D"
        by (rule queues_frame [OF q]) (use qs ring_rotate [OF qs(1)] Rx in \<open>auto simp: relinked_def\<close>)
      then show ?thesis using hs by (simp add: ready_def hd0_def)
    qed
    ultimately show ?thesis
      using that [of ?s] True Rx by (simp add: park_ring_def dl_def park_sleepers_def relinked_def sleepers_def)
  next
    case False
    obtain st1 where s1: "remove_from_schedule_ring (st\<lparr>switching := True\<rparr>) = Inr (a, st1)" "switching st1" "switched_task st1 = hd0 xs"
      "sleeping_task st1 = sleeping_task st" "relinked st st1" "ring (s_tasks st1) xs"
      "\<And>q. q \<notin> set xs \<Longrightarrow> s_tasks st1 q = s_tasks st q" "\<And>q. rm (s_tasks st1) q = rm (s_tasks st) q"
      using leave_ring [of st a xs S D] inv Rx by blast
    have run1: "sched_park_task ms0 st = go_to_bed a ms0 st1"
      using False s1(1) by (simp add: sched_park_task_def bindO_def)
    have notS: "y \<notin> set xs" if "y \<in> set S" for y using that qs(3) by auto
    have sl: "slist (s_tasks st1) (sleeping_task st1) S"
      unfolding s1(4)
    proof (rule slist_cong [OF qs(2)])
      fix y assume y: "y \<in> set S"
      then have "y \<in> dom (s_tasks st)" using slist_nonzero [OF qs(2)] by blast
      then show "y \<in> dom (s_tasks st1) \<and> nx (s_tasks st1) y = nx (s_tasks st) y"
        using s1(7) [OF notS [OF y]] by (auto simp: nx_def)
    qed
    have dS: "distinct S" "a \<in> dom (s_tasks st1)" using qs(3) a s1(7) [of a] by auto
    have hp: "S \<noteq> [] \<Longrightarrow> rm (s_tasks st1) (hd S) \<noteq> 0" using hs s1(8) by simp
    have sl1: "deadlines (s_tasks st1) 0 S = sleepers st S"
      unfolding sleepers_def using s1(8) by (intro deadlines_cong)
    obtain h S' where h: "go_to_bed a ms0 st1 = Some (Inr (st1\<lparr>s_tasks := h, sleeping_task := hd0 S'\<rparr>))"
      "slist h (hd0 S') S'" "deadlines h 0 S' = sleep_insert a (unat ms0) (deadlines (s_tasks st1) 0 S)"
      "rm h (hd S') \<noteq> 0" "same_data (s_tasks st1) h" "set S' = insert a (set S)" "distinct S'"
      "\<And>q. q \<notin> set S' \<Longrightarrow> h q = s_tasks st1 q"
      using go_to_bed_run [OF sl dS(1) False a(3) dS(2) a(1) hp] by metis
    define st2 where "st2 = st1\<lparr>s_tasks := h, sleeping_task := hd0 S'\<rparr>"
    have dl: "dl = deadlines h 0 S'" using False Rx h(3) sl1 by (simp add: dl_def park_sleepers_def)
    then have dlS: "map fst dl = S'" by simp
    have rl1: "relinked st1 st2" using h(5) by (simp add: st2_def relinked_def)
    have rl: "relinked st st2" using relinked_trans [OF s1(5) rl1] .
    have "queues st2 xs S' D"
    proof (rule queues_frame [OF q rl])
      show "ring (s_tasks st2) xs"
      proof (rule ring_cong [OF s1(6)])
        fix x assume x: "x \<in> set xs"
        then have "x \<in> dom (s_tasks st1)" using s1(6) by (auto simp: ring_def)
        moreover have "x \<notin> set S'" using x h(6) notS a(4) by auto
        then have "h x = s_tasks st1 x" by (rule h(8))
        ultimately show "x \<in> dom (s_tasks st2) \<and> nx (s_tasks st2) x = nx (s_tasks st1) x \<and> pv (s_tasks st2) x = pv (s_tasks st1) x"
          by (auto simp: st2_def nx_def pv_def)
      qed
      show "slist (s_tasks st2) (sleeping_task st2) S'" using h(2) by (simp add: st2_def)
      show "distinct (xs @ S')" using qs(3) h(6,7) notS a(4) by auto
      show "set (xs @ S') = set (R @ S)" using h(6) Rx by auto
      show "nx (s_tasks st2) q = nx (s_tasks st) q" if "q \<notin> set (R @ S)" for q
        using that h(6,8) s1(7) Rx by (simp add: st2_def nx_def)
    qed
    then have "ready st2 xs S' D"
      using s1(2,3) h(4) by (simp add: ready_def st2_def)
    then show ?thesis
      using that [of st2] run1 h(1) rl False Rx dl dlS by (simp add: st2_def park_ring_def sleepers_def)
  qed
qed

lemma kill_run:
  assumes inv: "sched_inv st (a # xs) S D"
  obtains st2 where "sched_kill_task st = Inr st2" "ready st2 xs S (a # D)" "relinked (st\<lparr>doomed_task := a\<rparr>) st2" "sleepers st2 S = sleepers st S"
proof -
  have q: "queues st (a # xs) S D" and hs: "S \<noteq> [] \<longrightarrow> rm (s_tasks st) (hd S) \<noteq> 0"
    using inv by (simp_all add: sched_inv_def)
  have qs: "slist (s_tasks st) (sleeping_task st) S" "slist (s_tasks st) (doomed_task st) D" "distinct ((a # xs) @ S @ D)"
      "idle_task st \<notin> set ((a # xs) @ S @ D)" "idle_task st \<noteq> 0" "data_ok st (insert (idle_task st) (set ((a # xs) @ S @ D)))"
    using q by (auto simp: queues_def)
  have a: "a \<noteq> 0" "a \<in> dom (s_tasks st)" using q by (auto simp: queues_def ring_def)
  obtain st1 where s1: "remove_from_schedule_ring (st\<lparr>switching := True\<rparr>) = Inr (a, st1)" "switching st1" "switched_task st1 = hd0 xs"
      "sleeping_task st1 = sleeping_task st" "relinked st st1" "ring (s_tasks st1) xs"
      "\<And>q. q \<notin> set xs \<Longrightarrow> s_tasks st1 q = s_tasks st q" "\<And>q. rm (s_tasks st1) q = rm (s_tasks st) q"
    using leave_ring [OF inv] by blast
  have aS: "a \<notin> set xs" "a \<notin> set S" "a \<notin> set D" using qs(3) by auto
  obtain t where t: "s_tasks st1 a = Some t" using a(2) s1(7) [OF aS(1)] by auto
  have dm: "doomed_task st1 = doomed_task st" using s1(5) by (simp add: relinked_def)
  define h where "h = (s_tasks st1)(a \<mapsto> t\<lparr>t_next := doomed_task st\<rparr>)"
  define st2 where "st2 = st1\<lparr>s_tasks := h, doomed_task := a\<rparr>"
  have run: "sched_kill_task st = Inr st2"
    using s1(1) t by (simp add: sched_kill_task_def st2_def h_def dm)
  have rl: "relinked (st\<lparr>doomed_task := a\<rparr>) st2"
  proof -
    have "same_data (s_tasks st1) h" using t by (simp add: h_def same_data_upd)
    then show ?thesis using s1(5) same_data_trans by (auto simp: relinked_def st2_def)
  qed
  have fr: "h q = s_tasks st q" if "q \<notin> set (a # xs)" for q using that s1(7) by (simp add: h_def)
  have rmh: "rm h q = rm (s_tasks st) q" for q using t s1(8) [of q] by (auto simp: h_def rm_def)
  have sl: "slist h p ys" if "slist (s_tasks st) p ys" "set ys \<inter> set (a # xs) = {}" for p ys
  proof (rule slist_cong [OF that(1)])
    fix y assume y: "y \<in> set ys"
    then have "y \<notin> set (a # xs)" "y \<in> dom (s_tasks st)" using that(2) slist_nonzero [OF that(1)] by blast+
    then have "h y = s_tasks st y" "y \<in> dom (s_tasks st)" using fr by blast+
    then show "y \<in> dom h \<and> nx h y = nx (s_tasks st) y" by (auto simp: nx_def)
  qed
  have "slist h (sleeping_task st) S" "slist h (doomed_task st) D" using sl [OF qs(1)] sl [OF qs(2)] qs(3) by auto
  moreover have "ring h xs"
  proof (rule ring_cong [OF s1(6)])
    fix x assume "x \<in> set xs"
    then have "x \<in> dom (s_tasks st1)" "x \<noteq> a" using s1(6) aS by (auto simp: ring_def)
    then show "x \<in> dom h \<and> nx h x = nx (s_tasks st1) x \<and> pv h x = pv (s_tasks st1) x"
      by (simp add: h_def nx_def pv_def)
  qed
  moreover have "data_ok st2 (insert (idle_task st) (set (xs @ S @ a # D)))"
  proof -
    have "set (xs @ S @ a # D) = set ((a # xs) @ S @ D)" by auto
    then show ?thesis using relinked_data(1) [OF rl] qs(6) by simp
  qed
  moreover have "idle_task st2 = idle_task st" using rl by (simp add: relinked_def)
  ultimately have "queues st2 xs S (a # D)"
    using qs(3-5) a(1) t s1(4) by (auto simp: queues_def st2_def nx_def h_def)
  then have "ready st2 xs S (a # D)"
    using hs rmh s1(2,3) by (simp add: ready_def st2_def)
  moreover have "sleepers st2 S = sleepers st S"
    unfolding sleepers_def using rmh by (intro deadlines_cong) (simp add: st2_def)
  ultimately show ?thesis using that run rl by blast
qed

section \<open>The interrupt handlers\<close>

lemma next_thread_in: "next_thread st R \<in> threads st R S D"
  by (simp add: next_thread_def threads_def)

lemma set_sleep_insert: "set (sleep_insert x d es) = insert (x, d) (set es)"
proof -
  have "set (takeWhile (\<lambda>(_, e). e < d) es) \<union> set (dropWhile (\<lambda>(_, e). e < d) es) = set es"
    by (metis set_append takeWhile_dropWhile_id)
  then show ?thesis unfolding sleep_insert_def by simp
qed

lemma fst_sleepers [simp]: "fst ` set (sleepers st S) = set S"
  by (metis list.set_map sleepers_fst)

lemma next_thread_same: "idle_task st1 = idle_task st \<Longrightarrow> next_thread st1 R = next_thread st R"
  by (simp add: next_thread_def)

lemma handed_over_same:
  assumes "handed_over ss0 esp0 st1 n P out st'" "running st1 = running st" "idle_task st1 = idle_task st" "n \<in> P"
    "\<And>p. p \<in> P \<Longrightarrow> saved st1 p = saved st p \<and> address_space st1 p = address_space st p"
  shows "handed_over ss0 esp0 st n P out st'"
  using assms unfolding handed_over_def by simp

lemma irq0_run:
  assumes inv: "sched_inv st R S D" and c: "D = [] \<or> (\<exists>st1. cleanup_doomed_tasks A V me st = Some (Inr st1))"
  shows "\<exists>out st'. irq0_handler A V me ss0 esp0 st = Some (Inr (out, st'))
    \<and> sched_inv st' (tick_ring st R S) (map fst (tick_sleepers (sleepers st S))) []
    \<and> sleepers st' (map fst (tick_sleepers (sleepers st S))) = tick_sleepers (sleepers st S)
    \<and> handed_over ss0 esp0 st (next_thread st (tick_ring st R S)) (threads st R S []) out st'"
proof -
  have "doomed_task st = 0" if "D = []" using inv that by (simp add: sched_inv_def queues_def)
  then obtain st1 where c1: "cleanup_doomed_tasks A V me st = Some (Inr st1)" using c cleanup_none by blast
  note cl = cleanup_run [OF inv c1]
  let ?R = "tick_ring st R S" and ?S = "map fst (tick_sleepers (sleepers st S))"
  have same: "tick_ring st1 R S = ?R" using cl by (simp add: tick_ring_def end_of_quantum_def)
  obtain st2 st3 where t: "wake_sleeping st1 = Some (Inr st2)" "count_tick st2 = Inr st3" "ready st3 ?R ?S []"
    "relinked st1 st3" "sleepers st3 ?S = tick_sleepers (sleepers st S)"
    using tick_run [of st1 R S "[]"] cl same by metis
  have set: "set (?R @ ?S) = set (R @ S)"
  proof -
    have "set (due dl) \<union> set (map fst (tick_sleepers dl)) = set (map fst dl)" if "\<And>y e. (y, e) \<in> set dl \<Longrightarrow> 0 < e" for dl
      using that by (force simp: due_def map_fst_tick_sleepers)
    moreover have "0 < e" if "(y, e) \<in> set (sleepers st S)" for y e
      using that deadlines_pos inv unfolding sched_inv_def sleepers_def by blast
    ultimately have "set (due (sleepers st S)) \<union> set ?S = set S" by (metis sleepers_fst)
    moreover have "set ?R = set R \<union> set (due (sleepers st S))" by (simp add: tick_ring_def Let_def)
    ultimately show ?thesis by auto
  qed
  have i3: "idle_task st3 = idle_task st" using t(4) cl by (simp add: relinked_def)
  have th: "threads st3 ?R ?S [] = threads st R S []" using set i3 by (simp add: threads_def)
  have "running st3 = running st" using relinked_data(4) [OF t(4)] cl by simp
  then have run: "running st3 \<in> threads st3 ?R ?S []" using running_thread cl th by (metis threads_def)
  obtain out st' where s: "sched_switch_next_task ss0 esp0 st3 = Inr (out, st')" "sched_inv st' ?R ?S []"
    "sleepers st' ?S = sleepers st3 ?S" "handed_over ss0 esp0 st3 (next_thread st3 ?R) (threads st3 ?R ?S []) out st'"
    using switch_ready [OF t(3) run] by blast
  have "handed_over ss0 esp0 st1 (next_thread st ?R) (threads st R S []) out st'"
    using handed_over_relinked [OF t(4) s(4)] unfolding th next_thread_same [OF i3] .
  then have "handed_over ss0 esp0 st (next_thread st ?R) (threads st R S []) out st'"
  proof (rule handed_over_same)
    have "next_thread st ?R \<in> threads st ?R ?S []" by (rule next_thread_in)
    moreover have "threads st ?R ?S [] = threads st R S []" unfolding threads_def using set by simp
    ultimately show "next_thread st ?R \<in> threads st R S []" by simp
  qed (use cl in simp_all)
  moreover have "irq0_handler A V me ss0 esp0 st = Some (Inr (out, st'))"
    using c1 t(1,2) s(1) by (simp add: irq0_handler_def sched_ms_tick_def bindO_def)
  ultimately show ?thesis using s t(5) by auto
qed

lemma int50_run:
  fixes ms0 :: u32
  assumes inv: "sched_inv st R S D" and R: "R \<noteq> []"
  defines "dl \<equiv> park_sleepers ms0 R (sleepers st S)"
  shows "\<exists>out st'. int50_handler ms0 ss0 esp0 st = Some (Inr (out, st')) \<and> sched_inv st' (park_ring ms0 R) (map fst dl) D
    \<and> sleepers st' (map fst dl) = dl
    \<and> handed_over ss0 esp0 st (next_thread st (park_ring ms0 R)) (threads st R S D) out st'"
proof -
  obtain st2 where p: "sched_park_task ms0 st = Some (Inr st2)" "ready st2 (park_ring ms0 R) (map fst dl) D"
    "relinked st st2" "sleepers st2 (map fst dl) = dl"
    using park_run [OF inv R, of ms0] unfolding dl_def by blast
  have set: "set (park_ring ms0 R @ map fst dl) = set (R @ S)"
    using R by (cases R) (auto simp: park_ring_def dl_def park_sleepers_def set_sleep_insert)
  have i: "idle_task st2 = idle_task st" using p(3) by (simp add: relinked_def)
  have th: "threads st2 (park_ring ms0 R) (map fst dl) D = threads st R S D"
    using set i by (auto simp: threads_def)
  have run: "running st2 \<in> threads st2 (park_ring ms0 R) (map fst dl) D"
    using running_thread [OF inv] relinked_data(4) [OF p(3)] th by simp
  obtain out st' where s: "sched_switch_next_task ss0 esp0 st2 = Inr (out, st')" "sched_inv st' (park_ring ms0 R) (map fst dl) D"
    "sleepers st' (map fst dl) = sleepers st2 (map fst dl)"
    "handed_over ss0 esp0 st2 (next_thread st2 (park_ring ms0 R)) (threads st2 (park_ring ms0 R) (map fst dl) D) out st'"
    using switch_ready [OF p(2) run] by blast
  have "handed_over ss0 esp0 st (next_thread st (park_ring ms0 R)) (threads st R S D) out st'"
    using handed_over_relinked [OF p(3) s(4)] unfolding th next_thread_same [OF i] .
  then show ?thesis using p(1,4) s by (auto simp: int50_handler_def bindO_def)
qed

lemma int51_run:
  assumes inv: "sched_inv st (a # xs) S D"
  shows "\<exists>out st'. int51_handler ss0 esp0 st = Inr (out, st') \<and> sched_inv st' xs S (a # D) \<and> sleepers st' S = sleepers st S
    \<and> handed_over ss0 esp0 st (next_thread st xs) (threads st (a # xs) S D) out st'"
proof -
  obtain st2 where k: "sched_kill_task st = Inr st2" "ready st2 xs S (a # D)" "relinked (st\<lparr>doomed_task := a\<rparr>) st2"
      "sleepers st2 S = sleepers st S"
    using kill_run [OF inv] by blast
  have i: "idle_task st2 = idle_task st" using k(3) by (simp add: relinked_def)
  have th: "threads st2 xs S (a # D) = threads st (a # xs) S D" using i by (auto simp: threads_def)
  have r: "running (st\<lparr>doomed_task := a\<rparr>) = running st" by (simp add: running_def)
  have run: "running st2 \<in> threads st2 xs S (a # D)"
    using running_thread [OF inv] relinked_data(4) [OF k(3)] th r by simp
  obtain out st' where s: "sched_switch_next_task ss0 esp0 st2 = Inr (out, st')" "sched_inv st' xs S (a # D)"
    "sleepers st' S = sleepers st2 S" "handed_over ss0 esp0 st2 (next_thread st2 xs) (threads st2 xs S (a # D)) out st'"
    using switch_ready [OF k(2) run] by blast
  have "handed_over ss0 esp0 (st\<lparr>doomed_task := a\<rparr>) (next_thread st xs) (threads st (a # xs) S D) out st'"
    using handed_over_relinked [OF k(3) s(4)] unfolding th next_thread_same [OF i] .
  then have "handed_over ss0 esp0 st (next_thread st xs) (threads st (a # xs) S D) out st'"
    using r by (simp add: handed_over_def)
  then show ?thesis using k(1,4) s by (simp add: int51_handler_def)
qed

section \<open>Runs\<close>

datatype sched_event = Tick | Park u32 | Exit

text \<open>
  One interrupt at a time: the timer at any moment, a sleep or a yield and the end of a thread only
  by a thread of the ring, the idle task never calls them.
\<close>

inductive sched_step :: "u32 \<Rightarrow> u32 \<Rightarrow> u32 \<Rightarrow> sched_event \<Rightarrow> sched_state \<Rightarrow> sched_state \<Rightarrow> bool" for A V me where
  step_tick: "irq0_handler A V me ss0 esp0 st = Some (Inr (out, st')) \<Longrightarrow> sched_step A V me Tick st st'"
| step_park: "current_task st \<noteq> 0 \<Longrightarrow> int50_handler ms0 ss0 esp0 st = Some (Inr (out, st')) \<Longrightarrow> sched_step A V me (Park ms0) st st'"
| step_exit: "current_task st \<noteq> 0 \<Longrightarrow> int51_handler ss0 esp0 st = Inr (out, st') \<Longrightarrow> sched_step A V me Exit st st'"

inductive sched_run :: "u32 \<Rightarrow> u32 \<Rightarrow> u32 \<Rightarrow> sched_event list \<Rightarrow> sched_state \<Rightarrow> sched_state \<Rightarrow> bool" for A V me where
  run_none: "sched_run A V me [] st st"
| run_step: "sched_run A V me evs st st1 \<Longrightarrow> sched_step A V me e st1 st' \<Longrightarrow> sched_run A V me (evs @ [e]) st st'"

inductive_cases sched_stepE: "sched_step A V me e st st'"

text \<open>The queues that the steps work on.\<close>

inductive queue_step :: "sched_event \<Rightarrow> u32 list \<times> (u32 \<times> nat) list \<times> u32 list \<Rightarrow> u32 list \<times> (u32 \<times> nat) list \<times> u32 list \<Rightarrow> bool" where
  queue_tick: "queue_step Tick (R, dl, D) (woken R (due dl), tick_sleepers dl, [])"
| queue_quantum: "queue_step Tick (R, dl, D) (rotate1 (woken R (due dl)), tick_sleepers dl, [])"
| queue_park: "R \<noteq> [] \<Longrightarrow> queue_step (Park ms0) (R, dl, D) (park_ring ms0 R, park_sleepers ms0 R dl, D)"
| queue_exit: "queue_step Exit (a # R, dl, D) (R, dl, a # D)"

inductive_cases queue_stepE: "queue_step e (R, dl, D) (R', dl', D')"

lemma step_refines:
  assumes step: "sched_step A V me e st st'" and inv: "sched_inv st R S D"
  obtains R' S' D' where "sched_inv st' R' S' D'" "queue_step e (R, sleepers st S, D) (R', sleepers st' S', D')"
proof -
  have cur: "R \<noteq> []" if "current_task st \<noteq> 0" using inv that by (auto simp: sched_inv_def)
  consider (1) ss0 esp0 out where "e = Tick" "irq0_handler A V me ss0 esp0 st = Some (Inr (out, st'))"
    | (2) ms0 ss0 esp0 out where "e = Park ms0" "current_task st \<noteq> 0" "int50_handler ms0 ss0 esp0 st = Some (Inr (out, st'))"
    | (3) ss0 esp0 out where "e = Exit" "current_task st \<noteq> 0" "int51_handler ss0 esp0 st = Inr (out, st')"
    using step by (rule sched_stepE)
  then show ?thesis
  proof cases
    case 1
    have "\<exists>st1. cleanup_doomed_tasks A V me st = Some (Inr st1)"
      using 1(2) by (auto simp: irq0_handler_def sched_ms_tick_def bindO_def split: option.splits sum.splits)
    then have "D = [] \<or> (\<exists>st1. cleanup_doomed_tasks A V me st = Some (Inr st1))" by blast
    from irq0_run [OF inv this, of ss0 esp0] 1(2)
    have "sched_inv st' (tick_ring st R S) (map fst (tick_sleepers (sleepers st S))) []"
      "sleepers st' (map fst (tick_sleepers (sleepers st S))) = tick_sleepers (sleepers st S)" by auto
    then show ?thesis
      using that queue_tick [of R "sleepers st S" D] queue_quantum [of R "sleepers st S" D] 1(1)
      by (cases "end_of_quantum st") (simp_all add: tick_ring_def)
  next
    case 2
    from int50_run [OF inv cur [OF 2(2)], of ms0 ss0 esp0] 2(3)
    have "sched_inv st' (park_ring ms0 R) (map fst (park_sleepers ms0 R (sleepers st S))) D"
      "sleepers st' (map fst (park_sleepers ms0 R (sleepers st S))) = park_sleepers ms0 R (sleepers st S)" by auto
    then show ?thesis using that queue_park [OF cur [OF 2(2)], of ms0 "sleepers st S" D] 2(1) by simp
  next
    case 3
    obtain a xs where R: "R = a # xs" using cur [OF 3(2)] by (cases R) auto
    from int51_run [OF inv [unfolded R], of ss0 esp0] 3(3)
    have "sched_inv st' xs S (a # D)" "sleepers st' S = sleepers st S" by auto
    then show ?thesis using that queue_exit [of a xs "sleepers st S" D] 3(1) R by simp
  qed
qed

lemma sched_inv_deadlines: "sched_inv st R S D \<Longrightarrow> (p, d) \<in> set (sleepers st S) \<Longrightarrow> 0 < d"
  using deadlines_pos unfolding sched_inv_def sleepers_def by blast

text \<open>What a step does to the threads.\<close>

lemma queue_step_threads:
  assumes "queue_step e (R, dl, D) (R', dl', D')" "\<forall>x \<in> set dl. 0 < snd x"
  shows "set R' \<union> fst ` set dl' \<subseteq> set R \<union> fst ` set dl" "e \<noteq> Exit \<Longrightarrow> set R' \<union> fst ` set dl' = set R \<union> fst ` set dl"
    "(p, d) \<in> set dl \<Longrightarrow> e \<noteq> Tick \<Longrightarrow> (p, d) \<in> set dl'"
    "(p, d) \<in> set dl \<Longrightarrow> e = Tick \<Longrightarrow> if d = 1 then p \<in> set R' else (p, d - 1) \<in> set dl'"
proof -
  have pos: "0 < d" if "(p, d) \<in> set dl" for p d using assms(2) that by auto
  have tk: "set (due dl) \<union> fst ` set (tick_sleepers dl) = fst ` set dl"
    using pos by (force simp: due_def tick_sleepers_def)
  have pk: "set (park_ring m R) \<union> fst ` set (park_sleepers m R dl) = set R \<union> fst ` set dl" if "R \<noteq> []" for m
    using that by (cases R) (auto simp: park_ring_def park_sleepers_def set_sleep_insert)
  consider
    (t) "e = Tick" "R' = woken R (due dl)" "dl' = tick_sleepers dl"
    | (q) "e = Tick" "R' = rotate1 (woken R (due dl))" "dl' = tick_sleepers dl"
    | (p) m where "e = Park m" "R \<noteq> []" "R' = park_ring m R" "dl' = park_sleepers m R dl"
    | (x) a where "e = Exit" "R = a # R'" "dl' = dl"
    using assms(1) by (rule queue_stepE)
  note step = this
  show all: "set R' \<union> fst ` set dl' = set R \<union> fst ` set dl" if "e \<noteq> Exit"
    using step
  proof cases
    case t
    then show ?thesis using tk by (simp only: set_woken Un_assoc)
  next
    case q
    then show ?thesis using tk by (simp only: set_rotate1 set_woken Un_assoc)
  next
    case (p m)
    then show ?thesis using pk [OF p(2), of m] by blast
  next
    case x
    then show ?thesis using that by blast
  qed
  show "set R' \<union> fst ` set dl' \<subseteq> set R \<union> fst ` set dl"
  proof (cases "e = Exit")
    case True
    from step show ?thesis
    proof cases
      case x
      then show ?thesis by auto
    qed (use True in blast)+
  next
    case False
    then show ?thesis using all by blast
  qed
  show "(p, d) \<in> set dl'" if "(p, d) \<in> set dl" "e \<noteq> Tick"
    using step that by cases (simp_all add: park_sleepers_def set_sleep_insert)
  show "if d = 1 then p \<in> set R' else (p, d - 1) \<in> set dl'" if pd: "(p, d) \<in> set dl" and e: "e = Tick"
  proof -
    have 1: "p \<in> set (due dl)" if "d = 1" using pd that by (force simp: due_def)
    have 2: "(p, d - 1) \<in> set (tick_sleepers dl)" if "d \<noteq> 1"
      using pd that pos [of p d] by (force simp: tick_sleepers_def)
    show ?thesis using step e 1 2 by cases simp_all
  qed
qed

text \<open>What holds after any number of steps.\<close>

lemma run_refines:
  assumes "sched_run A V me evs st st'" "sched_inv st R S D"
  shows "\<exists>R' S' D'. sched_inv st' R' S' D' \<and> set R' \<union> set S' \<subseteq> set R \<union> set S
    \<and> (Exit \<notin> set evs \<longrightarrow> set R' \<union> set S' = set R \<union> set S)
    \<and> (\<forall>(p, d) \<in> set (sleepers st S). (count_list evs Tick < d \<longrightarrow> (p, d - count_list evs Tick) \<in> set (sleepers st' S'))
         \<and> (evs \<noteq> [] \<and> last evs = Tick \<and> count_list evs Tick = d \<longrightarrow> p \<in> set R'))"
  using assms
proof (induction rule: sched_run.induct)
  case (run_none st)
  then show ?case by (intro exI [of _ R] exI [of _ S] exI [of _ D]) auto
next
  case (run_step evs st st1 e st')
  obtain R1 S1 D1 where 1: "sched_inv st1 R1 S1 D1" "set R1 \<union> set S1 \<subseteq> set R \<union> set S"
    "Exit \<notin> set evs \<longrightarrow> set R1 \<union> set S1 = set R \<union> set S"
    "\<And>p d. (p, d) \<in> set (sleepers st S) \<Longrightarrow> count_list evs Tick < d \<Longrightarrow> (p, d - count_list evs Tick) \<in> set (sleepers st1 S1)"
    using run_step.IH [OF run_step.prems] by fast
  obtain R' S' D' where 2: "sched_inv st' R' S' D'" "queue_step e (R1, sleepers st1 S1, D1) (R', sleepers st' S', D')"
    using step_refines [OF run_step.hyps(2) 1(1)] by blast
  have pos: "\<forall>x \<in> set (sleepers st1 S1). 0 < snd x" using sched_inv_deadlines [OF 1(1)] by auto
  note q = queue_step_threads [OF 2(2) pos, unfolded fst_sleepers]
  have dl: "(count_list (evs @ [e]) Tick < d \<longrightarrow> (p, d - count_list (evs @ [e]) Tick) \<in> set (sleepers st' S'))
      \<and> (evs @ [e] \<noteq> [] \<and> last (evs @ [e]) = Tick \<and> count_list (evs @ [e]) Tick = d \<longrightarrow> p \<in> set R')"
    if pd: "(p, d) \<in> set (sleepers st S)" for p d
  proof (cases "e = Tick")
    case True
    let ?n = "count_list evs Tick"
    have n: "count_list (evs @ [e]) Tick = Suc ?n" using True by simp
    have st: "if d - ?n = 1 then p \<in> set R' else (p, d - ?n - 1) \<in> set (sleepers st' S')" if "?n < d"
      using q(4) [OF 1(4) [OF pd that] True] .
    have "(p, d - Suc ?n) \<in> set (sleepers st' S')" if "Suc ?n < d"
    proof -
      have "?n < d" "d - ?n \<noteq> 1" "d - ?n - 1 = d - Suc ?n" using that by linarith+
      then show ?thesis using st by simp
    qed
    moreover have "p \<in> set R'" if "Suc ?n = d" using st that by auto
    ultimately show ?thesis unfolding n by blast
  next
    case False
    then have n: "count_list (evs @ [e]) Tick = count_list evs Tick" by simp
    show ?thesis unfolding n using q(3) [OF 1(4) [OF pd] False] False by simp
  qed
  have "set R' \<union> set S' \<subseteq> set R \<union> set S" using q(1) 1(2) by blast
  moreover have "Exit \<notin> set (evs @ [e]) \<longrightarrow> set R' \<union> set S' = set R \<union> set S" using q(2) 1(3) by auto
  ultimately show ?case using 2(1) dl by (intro exI [of _ R'] exI [of _ S'] exI [of _ D']) auto
qed

section \<open>An example\<close>

definition example_task :: "u32 \<Rightarrow> u32 \<Rightarrow> u32 \<Rightarrow> u32 \<Rightarrow> task" where
  "example_task n p r b = \<lparr>t_next = n, t_previous = p, remaining_ticks = r, t_pcb = b + 0x100, t_ms = b + 0x200\<rparr>"

text \<open>
  The idle task at 0x1000, a ring of the tasks at 0x2000 and 0x3000 of which the first runs, its last
  tick, and a sleeper at 0x4000 whose time comes at the next tick.
\<close>

definition example_sched :: sched_state where
  "example_sched = \<lparr>
     s_tasks = [0x1000 \<mapsto> example_task 0 0 20 0x1000, 0x2000 \<mapsto> example_task 0x3000 0x3000 1 0x2000,
       0x3000 \<mapsto> example_task 0x2000 0x2000 5 0x3000, 0x4000 \<mapsto> example_task 0 0 1 0x4000],
     s_ms = (\<lambda>p. if p \<in> {0x1200, 0x2200, 0x3200, 0x4200} then Some \<lparr>ss = 0x10, esp = p + 0x10000\<rparr> else None),
     s_pcbs = (\<lambda>p. if p \<in> {0x1100, 0x2100, 0x3100, 0x4100}
        then Some \<lparr>tgid = 1, tid = 1, priority = 10, p_mm_info = 0x5000, p_vfs_info = 0\<rparr> else None),
     s_mm_infos = [0x5000 \<mapsto> \<lparr>page_dir = 0x6000, kernel_info = 0\<rparr>],
     current_task = 0x2000, switching = False, switched_task = 0, sleeping_task = 0x4000, doomed_task = 0,
     idle_task = 0x1000, next_tid = 5, itr_enabled = False, s_sys = undefined\<rparr>"

lemma example_sched_inv: "sched_inv example_sched [0x2000, 0x3000] [0x4000] []"
  by (simp add: sched_inv_def queues_def ring_def data_ok_def example_sched_def example_task_def inj_on_def nx_def pv_def rm_def domIff)

lemma example_sleepers: "sleepers example_sched [0x4000] = [(0x4000, 1)]"
  by (simp add: sleepers_def example_sched_def example_task_def rm_def)

lemma example_running: "running example_sched = 0x2000" "idle_task example_sched = 0x1000"
  by (simp_all add: running_def example_sched_def)

section \<open>Properties\<close>

text \<open>
  C26. The timer interrupt: whatever the scheduler's state, the threads whose delay ends with this tick,
  and only they, are put in the ring after the running thread, every other sleeper has one tick less
  to wait, and the processor passes to the next thread of the ring exactly when the running one has
  used up its quantum or the idle task runs and a thread is awake; the thread that stops is resumed
  later where it stopped, and nobody else's context or address space changes. The doomed threads are
  gone afterwards, if there are none or their memory can be released.
\<close>

theorem irq0_handler_correct:
  assumes "sched_inv st R S D" "D = [] \<or> (\<exists>st1. cleanup_doomed_tasks A V me st = Some (Inr st1))"
  shows "\<exists>out st' R' dl. irq0_handler A V me ss0 esp0 st = Some (Inr (out, st'))
    \<and> R' = (if end_of_quantum st then rotate1 (woken R (due (sleepers st S))) else woken R (due (sleepers st S)))
    \<and> dl = tick_sleepers (sleepers st S)
    \<and> sched_inv st' R' (map fst dl) [] \<and> sleepers st' (map fst dl) = dl
    \<and> handed_over ss0 esp0 st (next_thread st R') (threads st R S []) out st'"
proof -
  have "tick_ring st R S = (if end_of_quantum st then rotate1 (woken R (due (sleepers st S))) else woken R (due (sleepers st S)))"
    by (simp add: tick_ring_def)
  then show ?thesis using irq0_run [OF assms, of ss0 esp0] by simp
qed

theorem irq0_handler_correct_witness:
  "\<exists>out st'. irq0_handler 16 0 7 0x10 0x8000 example_sched = Some (Inr (out, st'))
    \<and> sched_inv st' [0x4000, 0x3000, 0x2000] [] [] \<and> snd out = (0x10, 0x14200)"
proof -
  have e: "end_of_quantum example_sched"
    by (simp add: end_of_quantum_def example_sched_def example_task_def rm_def)
  have s: "saved example_sched 0x4000 = (0x10, 0x14200)"
    by (simp add: saved_def example_sched_def example_task_def)
  show ?thesis
    using irq0_handler_correct [OF example_sched_inv, where A = 16 and V = 0 and me = 7 and ?ss0.0 = "0x10" and ?esp0.0 = "0x8000"] e s
    by (auto simp: example_sleepers example_running due_def tick_sleepers_def handed_over_def next_thread_def)
qed

text \<open>
  C27. The interrupt behind \<open>sched_sleep\<close> and \<open>sched_yield\<close>: with 0 the running thread goes to the end of the
  ring, otherwise it leaves the ring and is inserted among the sleepers with that many ticks to wait,
  whatever the waits of the others, which it does not change; the processor passes to the next thread
  of the ring, or to the idle task when there is none, and the thread is resumed later where it stopped.
\<close>

theorem int50_handler_correct:
  assumes "sched_inv st (a # xs) S D"
  shows "\<exists>out st' R' dl. int50_handler ms0 ss0 esp0 st = Some (Inr (out, st'))
    \<and> R' = (if ms0 = 0 then xs @ [a] else xs)
    \<and> dl = (if ms0 = 0 then sleepers st S else sleep_insert a (unat ms0) (sleepers st S))
    \<and> sched_inv st' R' (map fst dl) D \<and> sleepers st' (map fst dl) = dl
    \<and> handed_over ss0 esp0 st (next_thread st R') (threads st (a # xs) S D) out st'"
  using int50_run [OF assms, of ms0 ss0 esp0] by (cases "ms0 = 0") (simp_all add: park_ring_def park_sleepers_def)

theorem int50_handler_correct_witness:
  "\<exists>out st'. int50_handler 3 0x10 0x8000 example_sched = Some (Inr (out, st'))
    \<and> sched_inv st' [0x3000] [0x4000, 0x2000] [] \<and> sleepers st' [0x4000, 0x2000] = [(0x4000, 1), (0x2000, 3)]"
  using int50_handler_correct [OF example_sched_inv, where ?ms0.0 = 3 and ?ss0.0 = "0x10" and ?esp0.0 = "0x8000"]
  by (auto simp: example_sleepers sleep_insert_def)

text \<open>
  C28. The interrupt behind \<open>sched_exit\<close>: the running thread leaves the ring for the list of threads to
  clean up, and the processor passes to the next thread of the ring or to the idle task; no sleeper
  and no other thread is affected.
\<close>

theorem int51_handler_correct:
  assumes "sched_inv st (a # xs) S D"
  shows "\<exists>out st'. int51_handler ss0 esp0 st = Inr (out, st') \<and> sched_inv st' xs S (a # D)
    \<and> sleepers st' S = sleepers st S
    \<and> handed_over ss0 esp0 st (next_thread st xs) (threads st (a # xs) S D) out st'"
  by (rule int51_run [OF assms])

theorem int51_handler_correct_witness:
  "\<exists>out st'. int51_handler 0x10 0x8000 example_sched = Inr (out, st') \<and> sched_inv st' [0x3000] [0x4000] [0x2000]"
  using int51_handler_correct [OF example_sched_inv, where ?ss0.0 = "0x10" and ?esp0.0 = "0x8000"] by blast



text \<open>
  C30. A sleeping thread sleeps exactly as long as it asked for: whatever the threads do meanwhile, it is
  among the sleepers, with what remains of its delay, until as many ticks have passed as it had to
  wait, and the last of these ticks puts it in the ring.
\<close>

theorem sched_sleep_exact:
  assumes "sched_run A V me evs st st'" "sched_inv st R S D" "(p, d) \<in> set (sleepers st S)"
  shows "\<exists>R' S' D'. sched_inv st' R' S' D'
    \<and> (count_list evs Tick < d \<longrightarrow> (p, d - count_list evs Tick) \<in> set (sleepers st' S'))
    \<and> (evs \<noteq> [] \<and> last evs = Tick \<and> count_list evs Tick = d \<longrightarrow> p \<in> set R')"
  using run_refines [OF assms(1,2)] assms(3) by blast

theorem sched_sleep_exact_witness:
  "\<exists>st' R' S' D'. sched_run 16 0 7 [Tick] example_sched st' \<and> sched_inv st' R' S' D' \<and> 0x4000 \<in> set R'"
proof -
  obtain out st' where "irq0_handler 16 0 7 0 0 example_sched = Some (Inr (out, st'))"
    using irq0_run [OF example_sched_inv] by blast
  then have "sched_run 16 0 7 ([] @ [Tick]) example_sched st'" by (rule run_step [OF run_none step_tick])
  then have r: "sched_run 16 0 7 [Tick] example_sched st'" by simp
  from sched_sleep_exact [OF r example_sched_inv, of "0x4000" 1] r show ?thesis by (auto simp: example_sleepers)
qed

end
