(* ===== verification/StackSpec.thy ===== *)
theory StackSpec
  imports Stack
begin

text \<open>
  What the allocation and release of kernel stacks do to the slots, the free pages and the address
  space.
\<close>

section \<open>Slots\<close>

lemma bit_test: "bitfield AND push_bit i 1 \<noteq> push_bit i 1 \<longleftrightarrow> \<not> bit bitfield i" if "i < 32" for bitfield :: u32
proof -
  have "bit (bitfield AND push_bit i 1) n = bit (push_bit i 1 :: u32) n \<longleftrightarrow> n \<noteq> i \<or> bit bitfield i" for n
    using that by (auto simp: bit_simps)
  then show ?thesis using that by (metis bit_eqI possible_bit_word)
qed

lemma find_free_bit_loop_eq:
  assumes "i \<le> j" "j < 32" "\<not> bit bitfield j" "\<And>k. i \<le> k \<Longrightarrow> k < j \<Longrightarrow> bit bitfield k"
  shows "find_free_bit_loop bitfield i = Inr (int j)"
  using assms
proof (induction "j - i" arbitrary: i)
  case 0
  then have "i = j" by simp
  then show ?case using 0 unfolding find_free_bit_loop.simps [of bitfield i] Let_def by (simp only: bit_test) simp
next
  case (Suc n)
  then have "i < j" "i < 32" by simp_all
  then have "bit bitfield i" using Suc.prems(4) by simp
  then have "find_free_bit_loop bitfield i = find_free_bit_loop bitfield (i + 1)"
    using \<open>i < 32\<close> bit_test [of i bitfield] unfolding find_free_bit_loop.simps [of bitfield i] Let_def by simp
  also have "\<dots> = Inr (int j)" by (rule Suc.hyps(1)) (use Suc \<open>i < j\<close> in auto)
  finally show ?case .
qed

lemma all_bits_u32: "b = 0xFFFFFFFF \<longleftrightarrow> (\<forall>i < 32. bit b i)" for b :: u32
proof -
  have "(0xFFFFFFFF :: u32) = - 1" by simp
  then show ?thesis by (simp add: bit_eq_iff)
qed

lemma find_free_bit_eq:
  "find_free_bit b = (if \<exists>i < 32. \<not> bit b i then Inr (int (LEAST i. \<not> bit b i)) else Inr (- 1))"
proof (cases "\<exists>i < 32. \<not> bit b i")
  case True
  then obtain i where i: "i < 32" "\<not> bit b i" by blast
  have l: "\<not> bit b (LEAST i. \<not> bit b i)" by (rule LeastI [of _ i]) (rule i(2))
  have "(LEAST i. \<not> bit b i) \<le> i" by (rule Least_le) (rule i(2))
  then have "find_free_bit_loop b 0 = Inr (int (LEAST i. \<not> bit b i))"
    using i(1) l not_less_Least by (intro find_free_bit_loop_eq) auto
  then show ?thesis using True all_bits_u32 [of b] by (simp add: find_free_bit_def)
qed (simp add: find_free_bit_def all_bits_u32)

text \<open>The slot \<open>s\<close> is taken when its bit is set.\<close>

definition slot_used :: "u32 list \<Rightarrow> nat \<Rightarrow> bool" where
  "slot_used bitmaps s \<longleftrightarrow> bit (bitmaps ! (s div 32)) (s mod 32)"

definition mark_slot :: "u32 list \<Rightarrow> nat \<Rightarrow> u32 list" where
  "mark_slot bitmaps s = bitmaps[s div 32 := bitmaps ! (s div 32) OR push_bit (s mod 32) 1]"

lemma mark_slot_used:
  assumes "s < 32 * length bitmaps"
  shows "slot_used (mark_slot bitmaps s) r \<longleftrightarrow> r = s \<or> slot_used bitmaps r" "length (mark_slot bitmaps s) = length bitmaps"
proof -
  have l: "s div 32 < length bitmaps" using assms by (simp add: less_mult_imp_div_less mult.commute)
  have e: "r = s \<longleftrightarrow> r div 32 = s div 32 \<and> r mod 32 = s mod 32" by (metis div_mod_decomp)
  have "bit (push_bit (s mod 32) 1 :: u32) n \<longleftrightarrow> n = s mod 32" for n
    by (auto simp: bit_simps)
  then show "slot_used (mark_slot bitmaps s) r \<longleftrightarrow> r = s \<or> slot_used bitmaps r"
    using l e by (cases "r div 32 = s div 32") (auto simp: slot_used_def mark_slot_def bit_or_iff)
qed (simp add: mark_slot_def)

lemma find_slot_found:
  assumes "32 * i \<le> s" "s < 32 * (i + n)" "i + n \<le> length bitmaps" "\<not> slot_used bitmaps s"
    "\<And>r. 32 * i \<le> r \<Longrightarrow> r < s \<Longrightarrow> slot_used bitmaps r"
  shows "find_slot bitmaps i n = Inr (s div 32, int (s mod 32), mark_slot bitmaps s)"
  using assms
proof (induction n arbitrary: i)
  case (Suc n)
  have i: "i < length bitmaps" using Suc.prems by simp
  show ?case
  proof (cases "s < 32 * (i + 1)")
    case True
    have d: "s div 32 = i" using True Suc.prems(1) by (intro div_nat_eqI) auto
    let ?b = "bitmaps ! i"
    have nb: "\<not> bit ?b (s mod 32)" using Suc.prems(4) d by (simp add: slot_used_def)
    have sm: "s = 32 * i + s mod 32" using mult_div_mod_eq [of 32 s] by (simp only: d)
    have below: "bit ?b k" if "k < s mod 32" for k
    proof -
      have "(32 * i + k) div 32 = i" "(32 * i + k) mod 32 = k" using that mod_less_divisor [of 32 s] by simp_all
      moreover have "slot_used bitmaps (32 * i + k)" by (rule Suc.prems(5)) (use sm that in linarith)+
      ultimately show ?thesis by (simp add: slot_used_def)
    qed
    have "(LEAST k. \<not> bit ?b k) = s mod 32"
      by (rule Least_equality) (use nb below in \<open>auto simp: not_less [symmetric]\<close>)
    then have "find_free_bit ?b = Inr (int (s mod 32))"
      using nb unfolding find_free_bit_eq by (auto intro: exI [of _ "s mod 32"])
    then show ?thesis using i d by (simp add: mark_slot_def)
  next
    case False
    have "bit (bitmaps ! i) k" if "k < 32" for k
    proof -
      have "slot_used bitmaps (32 * i + k)" using Suc.prems(5) [of "32 * i + k"] False that by simp
      then show ?thesis using that by (simp add: slot_used_def)
    qed
    then have "find_free_bit (bitmaps ! i) = Inr (- 1)" unfolding find_free_bit_eq by auto
    moreover have "find_slot bitmaps (i + 1) n = Inr (s div 32, int (s mod 32), mark_slot bitmaps s)"
      by (rule Suc.IH) (use False Suc.prems in auto)
    ultimately show ?thesis using i by simp
  qed
qed simp

lemma find_slot_full:
  assumes "i + n \<le> length bitmaps" "\<And>r. 32 * i \<le> r \<Longrightarrow> r < 32 * (i + n) \<Longrightarrow> slot_used bitmaps r"
  shows "find_slot bitmaps i n = Inr (i + n, - 1, bitmaps)"
  using assms
proof (induction n arbitrary: i)
  case (Suc n)
  have "bit (bitmaps ! i) k" if "k < 32" for k
    using Suc.prems(2) [of "32 * i + k"] that by (simp add: slot_used_def)
  then have "find_free_bit (bitmaps ! i) = Inr (- 1)" unfolding find_free_bit_eq by auto
  moreover have "find_slot bitmaps (Suc i) n = Inr (Suc i + n, - 1, bitmaps)"
    by (rule Suc.IH) (use Suc.prems in auto)
  ultimately show ?case using Suc.prems(1) by simp
qed simp

section \<open>Pages\<close>

lemma free_pages_run:
  assumes "mm_ok V tid mm ps" "\<And>p. p \<in> set qs \<Longrightarrow> usable mm p" "distinct (qs @ ps)"
  shows "\<exists>mm'. free_pages V tid qs mm = Inr mm' \<and> mm_ok V tid mm' (rev qs @ ps)"
  using assms
proof (induction qs arbitrary: mm ps)
  case (Cons q qs)
  obtain m1 where m1: "mm_free_physical_page V tid mm q = Inr m1" "mm_ok V tid m1 (q # ps)"
      "table_frame m1 = table_frame mm"
    using free_page [OF Cons.prems(1), of q] Cons.prems(2,3) by auto
  have "\<exists>mm'. free_pages V tid qs m1 = Inr mm' \<and> mm_ok V tid mm' (rev qs @ q # ps)"
    by (rule Cons.IH [OF m1(2)]) (use Cons.prems(2,3) m1(3) in \<open>auto simp: usable_def\<close>)
  then show ?case using m1(1) by auto
qed simp

lemma alloc_stack_pages_run:
  assumes "mm_ok V tid mm ps" "n \<le> length ps"
  shows "\<exists>mm'. alloc_stack_pages V tid n acc mm = Inr (Some (acc @ take n ps), mm') \<and> mm_ok V tid mm' (drop n ps)
    \<and> mm_mutex mm' = mm_mutex mm \<and> table_frame mm' = table_frame mm
    \<and> (\<forall>va. dir_ix va \<noteq> 1023 \<longrightarrow> va_unused mm va \<longrightarrow> va_unused mm' va)
    \<and> (\<forall>va. frame va \<noteq> V \<longrightarrow> translate mm' va = translate mm va)"
  using assms
proof (induction n arbitrary: mm ps acc)
  case (Suc n)
  then obtain p qs where ps: "ps = p # qs" by (cases ps) auto
  have ok: "mm_ok V tid mm (p # qs)" using Suc.prems ps by simp
  obtain m1 where m1: "mm_alloc_physical_page V tid True mm = Inr (p, m1)" "mm_ok V tid m1 qs"
      "table_frame m1 = table_frame mm" "mm_mutex m1 = mm_mutex mm"
    using alloc_page [OF ok, of True] by blast
  have p: "p \<noteq> 0" using mm_ok_usable [OF ok, of p] by (simp add: usable_def)
  have un: "va_unused m1 va" if "va_unused mm va" "dir_ix va \<noteq> 1023" for va
    using alloc_unused [OF ok that m1(1)] .
  have tr: "translate m1 va = translate mm va" if "frame va \<noteq> V" for va using alloc_translate [OF ok that m1(1)] .
  obtain m2 where "alloc_stack_pages V tid n (acc @ [p]) m1 = Inr (Some ((acc @ [p]) @ take n qs), m2)"
      "mm_ok V tid m2 (drop n qs)" "mm_mutex m2 = mm_mutex m1" "table_frame m2 = table_frame m1"
      "\<forall>va. dir_ix va \<noteq> 1023 \<longrightarrow> va_unused m1 va \<longrightarrow> va_unused m2 va"
      "\<forall>va. frame va \<noteq> V \<longrightarrow> translate m2 va = translate m1 va"
    using Suc.IH [OF m1(2), of "acc @ [p]"] Suc.prems(2) ps by auto
  then show ?case using m1 p un tr by (simp add: ps)
qed simp

lemma alloc_stack_pages_fail:
  assumes "mm_ok V tid mm ps" "length ps < n" "\<And>p. p \<in> set acc \<Longrightarrow> usable mm p" "distinct (acc @ ps)"
  shows "\<exists>mm'. alloc_stack_pages V tid n acc mm = Inr (None, mm') \<and> mm_ok V tid mm' (rev (acc @ ps))"
  using assms
proof (induction ps arbitrary: mm n acc)
  case Nil
  then obtain k where n: "n = Suc k" by (cases n) auto
  have "mm_alloc_physical_page V tid True mm = Inr (0, mm)" by (rule alloc_none [OF Nil.prems(1)])
  moreover have "\<exists>mm'. free_pages V tid acc mm = Inr mm' \<and> mm_ok V tid mm' (rev acc @ [])"
    by (rule free_pages_run [OF Nil.prems(1)]) (use Nil.prems in auto)
  ultimately show ?case by (auto simp: n)
next
  case (Cons p qs)
  then obtain k where n: "n = Suc k" by (cases n) auto
  obtain m1 where m1: "mm_alloc_physical_page V tid True mm = Inr (p, m1)" "mm_ok V tid m1 qs"
      "table_frame m1 = table_frame mm" "mm_mutex m1 = mm_mutex mm"
    using alloc_page [OF Cons.prems(1), of True] by blast
  have us: "usable mm p" using mm_ok_usable [OF Cons.prems(1), of p] by simp
  have "\<exists>mm'. alloc_stack_pages V tid k (acc @ [p]) m1 = Inr (None, mm') \<and> mm_ok V tid mm' (rev ((acc @ [p]) @ qs))"
    by (rule Cons.IH [OF m1(2)]) (use Cons.prems(2-4) us m1(3) n in \<open>auto simp: usable_def\<close>)
  then show ?case using m1(1) us by (auto simp: n usable_def)
qed

text \<open>What a page of a stack needs to be mapped.\<close>

definition va_ready :: "u32 \<Rightarrow> mm_state \<Rightarrow> u32 \<Rightarrow> bool" where
  "va_ready V mm va \<longleftrightarrow> va_unused mm va \<and> va \<noteq> 0 \<and> dir_ix va \<noteq> 1023 \<and> frame va \<noteq> V"

lemma map_stack_pages_run:
  fixes top :: u32
  defines "va \<equiv> \<lambda>i. top - 0x1000 * of_nat i"
  assumes "mm_ok V tid mm ps" "mtx_lock (mm_mutex mm) = 0" "length qs \<le> length ps"
    and "\<And>k. k < length qs \<Longrightarrow> va_ready V mm (va (i + k))"
    and "\<And>k l. k < l \<Longrightarrow> l < length qs \<Longrightarrow> frame (va (i + k)) \<noteq> frame (va (i + l))"
    and "\<And>p. p \<in> set qs \<Longrightarrow> usable mm p \<and> p \<notin> set ps"
  shows "\<exists>mm' rest. map_stack_pages V tid all top i qs mm = Inr (True, mm') \<and> mm_ok V tid mm' rest \<and> set rest \<subseteq> set ps
    \<and> mm_mutex mm' = mm_mutex mm
    \<and> (\<forall>k < length qs. translate mm' (va (i + k)) = Inr (qs ! k + (va (i + k) AND 0xFFF)))
    \<and> (\<forall>x. dir_ix x \<noteq> 1023 \<longrightarrow> frame x \<noteq> V \<longrightarrow> (\<forall>k < length qs. frame x \<noteq> frame (va (i + k))) \<longrightarrow>
         translate mm' x = translate mm x)
    \<and> (\<forall>f. table_frame mm' f \<longrightarrow> table_frame mm f \<or> f \<in> set ps)"
  using assms(2-)
proof (induction qs arbitrary: mm ps i)
  case (Cons q qs)
  have r: "va_ready V mm (va i)" using Cons.prems(4) [of 0] by simp
  have us: "usable mm q" "q \<notin> set ps" using Cons.prems(6) by simp_all
  have q: "q \<noteq> 0" "frame q = q" using us usable_frame by (auto simp: usable_def)
  have "ps \<noteq> []" using Cons.prems(3) by auto
  then obtain m1 where m1: "mm_map_page V tid mm q (va i) = Inr (0, m1)"
      "mm_ok V tid m1 (if present (pde mm (dir_ix (va i))) then ps else tl ps)"
      "translate m1 (va i) = Inr (q + (va i AND 0xFFF))"
      "\<And>x. dir_ix x \<noteq> 1023 \<Longrightarrow> frame x \<noteq> frame (va i) \<Longrightarrow> frame x \<noteq> V \<Longrightarrow> translate m1 x = translate mm x"
      "mm_mutex m1 = mm_mutex mm"
      "\<And>x. dir_ix x \<noteq> 1023 \<Longrightarrow> frame x \<noteq> frame (va i) \<Longrightarrow> va_unused mm x \<Longrightarrow> va_unused m1 x"
      "\<And>f. table_frame m1 f \<Longrightarrow> table_frame mm f \<or> f \<in> set ps"
    using map_page_step [OF Cons.prems(1,2) q(1), of "va i"] r q(2) unfolding va_ready_def by auto
  define ps1 where "ps1 = (if present (pde mm (dir_ix (va i))) then ps else tl ps)"
  have sub: "set ps1 \<subseteq> set ps" using \<open>ps \<noteq> []\<close> by (auto simp: ps1_def list.set_sel)
  have ne: "frame (va (i + Suc k)) \<noteq> frame (va i)" if "k < length qs" for k
    using Cons.prems(5) [of 0 "Suc k"] that by auto
  have rs: "va_ready V mm (va (i + Suc k))" if "k < length qs" for k using Cons.prems(4) [of "Suc k"] that by simp
  have "\<exists>mm' rest. map_stack_pages V tid all top (i + 1) qs m1 = Inr (True, mm') \<and> mm_ok V tid mm' rest \<and> set rest \<subseteq> set ps1
    \<and> mm_mutex mm' = mm_mutex m1
    \<and> (\<forall>k < length qs. translate mm' (va (i + 1 + k)) = Inr (qs ! k + (va (i + 1 + k) AND 0xFFF)))
    \<and> (\<forall>x. dir_ix x \<noteq> 1023 \<longrightarrow> frame x \<noteq> V \<longrightarrow> (\<forall>k < length qs. frame x \<noteq> frame (va (i + 1 + k))) \<longrightarrow>
         translate mm' x = translate m1 x)
    \<and> (\<forall>f. table_frame mm' f \<longrightarrow> table_frame m1 f \<or> f \<in> set ps1)"
  proof (rule Cons.IH)
    show "mm_ok V tid m1 ps1" using m1(2) by (simp add: ps1_def)
    show "mtx_lock (mm_mutex m1) = 0" using m1(5) Cons.prems(2) by simp
    show "length qs \<le> length ps1" using Cons.prems(3) by (auto simp: ps1_def)
    show "va_ready V m1 (va (i + 1 + k))" if "k < length qs" for k
      using rs [OF that] m1(6) ne [OF that] by (simp add: va_ready_def)
    show "frame (va (i + 1 + k)) \<noteq> frame (va (i + 1 + l))" if "k < l" "l < length qs" for k l
      using Cons.prems(5) [of "Suc k" "Suc l"] that by simp
    show "usable m1 p \<and> p \<notin> set ps1" if "p \<in> set qs" for p
      using Cons.prems(6) [of p] that sub m1(7) by (auto simp: usable_def)
  qed
  then obtain m2 rest where m2: "map_stack_pages V tid all top (i + 1) qs m1 = Inr (True, m2)" "mm_ok V tid m2 rest" "set rest \<subseteq> set ps1"
      "mm_mutex m2 = mm_mutex m1"
      "\<And>k. k < length qs \<Longrightarrow> translate m2 (va (i + 1 + k)) = Inr (qs ! k + (va (i + 1 + k) AND 0xFFF))"
      "\<And>x. dir_ix x \<noteq> 1023 \<Longrightarrow> frame x \<noteq> V \<Longrightarrow> (\<And>k. k < length qs \<Longrightarrow> frame x \<noteq> frame (va (i + 1 + k))) \<Longrightarrow>
         translate m2 x = translate m1 x"
      "\<And>f. table_frame m2 f \<Longrightarrow> table_frame m1 f \<or> f \<in> set ps1"
    by blast
  have "map_stack_pages V tid all top i (q # qs) mm = Inr (True, m2)" using m1(1) m2(1) by (simp add: va_def)
  moreover have "translate m2 (va (i + k)) = Inr ((q # qs) ! k + (va (i + k) AND 0xFFF))" if "k < length (q # qs)" for k
  proof (cases k)
    case 0
    have "translate m2 (va i) = translate m1 (va i)"
      by (rule m2(6)) (use r ne in \<open>auto simp: va_ready_def dest: sym\<close>)
    then show ?thesis using m1(3) 0 by simp
  next
    case (Suc l)
    then show ?thesis using m2(5) [of l] that by simp
  qed
  moreover have "translate m2 x = translate mm x"
    if "dir_ix x \<noteq> 1023" "frame x \<noteq> V" "\<forall>k < length (q # qs). frame x \<noteq> frame (va (i + k))" for x
  proof -
    have "frame x \<noteq> frame (va (i + 1 + k))" if "k < length qs" for k using \<open>\<forall>k < _. _\<close> that by auto
    then have "translate m2 x = translate m1 x" using m2(6) \<open>dir_ix x \<noteq> 1023\<close> \<open>frame x \<noteq> V\<close> by blast
    moreover have "frame x \<noteq> frame (va i)" using that(3) by auto
    ultimately show ?thesis using m1(4) that(1,2) by simp
  qed
  moreover have "table_frame mm f \<or> f \<in> set ps" if "table_frame m2 f" for f
    using m2(7) [OF that] m1(7) [of f] sub by blast
  moreover have "set rest \<subseteq> set ps" "mm_mutex m2 = mm_mutex mm" using m2(3,4) m1(5) sub by auto
  ultimately show ?case using m2(2) by (intro exI [of _ m2] exI [of _ rest]) simp
qed (auto simp: mm_ok_def)

text \<open>Writing to a page that is not a page table leaves the address space as it is.\<close>

lemma vwrite_data:
  assumes ok: "mm_ok V tid mm ps" and t: "translate mm va = Inr a" "\<not> table_frame mm (frame a)" and a: "a \<notin> set ps"
  shows "\<exists>mm'. vwrite mm va v = Inr mm' \<and> mm' = mm\<lparr>phys := (phys mm)(a := v)\<rparr> \<and> translate mm' = translate mm
    \<and> mm_ok V tid mm' ps \<and> table_frame mm' = table_frame mm"
proof -
  let ?m = "mm\<lparr>phys := (phys mm)(a := v)\<rparr>"
  have pg: "paging_ok mm" using ok by (simp add: mm_ok_def fp_ok_def)
  have dir: "phys ?m x = phys mm x" if "frame x = cr3 mm" for x
    using that t(2) paging_cr3(5) [OF pg] by auto
  have c: "cr3 ?m = cr3 mm" by simp
  note same = same_directory [OF pg c dir]
  have mm': "mm_ok V tid ?m ps"
    using ok a dir by (intro mm_ok_update(1) [OF ok]) (auto simp: mm_ok_def intro: free_chain_cong)
  have "translate ?m x = translate mm x" for x
  proof (cases "present (pde mm (dir_ix x))")
    case True
    have "table_frame mm (frame (pde mm (dir_ix x)))" using True ix_less by (auto simp: table_frame_def)
    then have "frame (pde mm (dir_ix x)) + 4 * tab_ix x \<noteq> a"
      using t(2) table_entry_frame [OF page_aligned_frame ix_less(2), of "pde mm (dir_ix x)" x] by auto
    then have "pte ?m (dir_ix x) (tab_ix x) = pte mm (dir_ix x) (tab_ix x)"
      using same(1) ix_less by (simp add: pte_def)
    then show ?thesis using same(1,2) ix_less by (simp add: translate_eq [OF pg] translate_eq)
  next
    case False
    then show ?thesis using same(1,2) ix_less by (simp add: translate_eq [OF pg] translate_eq)
  qed
  then show ?thesis using t(1) mm' same(3) by (simp add: vwrite_def fun_eq_iff)
qed

lemma translate_same_page:
  assumes "paging_ok mm" "translate mm va = Inr (f + (va AND 0xFFF))" "page_aligned f" "frame x = frame va"
  shows "translate mm x = Inr (f + (x AND 0xFFF))"
proof -
  have ix: "dir_ix x = dir_ix va" "tab_ix x = tab_ix va" using frame_page_ix [OF assms(4)] by simp_all
  have "frame (pte mm (dir_ix va) (tab_ix va)) + (va AND 0xFFF) = f + (va AND 0xFFF)"
    and p: "present (pde mm (dir_ix va))" "present (pte mm (dir_ix va) (tab_ix va))"
    using assms(2) unfolding translate_eq [OF assms(1)] by (auto split: if_splits)
  then have "frame (pte mm (dir_ix va) (tab_ix va)) = f" by simp
  then show ?thesis using p unfolding translate_eq [OF assms(1)] ix by simp
qed

section \<open>Stack addresses\<close>

text \<open>The lowest address of the stack in a slot.\<close>

definition stack_base :: "u32 \<Rightarrow> nat \<Rightarrow> u32" where
  "stack_base start s = start - of_nat s * 0x4000 - 0x4000"

definition stack_aligned :: "u32 \<Rightarrow> bool" where
  "stack_aligned p \<longleftrightarrow> p AND 0x3FFF = 0"

lemma mask14: "unat (x AND 0x3FFF) = unat x mod 0x4000" for x :: u32
proof -
  have "(0x3FFF :: u32) = mask 14" by (simp add: mask_eq_exp_minus_1)
  then have "x AND 0x3FFF = take_bit 14 x" by (simp add: take_bit_eq_mask)
  then have "unat (x AND 0x3FFF) = take_bit 14 (unat x)" by (simp add: unsigned_take_bit_eq)
  then show ?thesis by (simp add: take_bit_eq_mod)
qed

lemma bit_mask14: "bit (0x3FFF :: u32) n \<longleftrightarrow> n < 14"
proof -
  have "(0x3FFF :: u32) = mask 14" by (simp add: mask_eq_exp_minus_1)
  moreover have "bit (mask 14 :: u32) n \<longleftrightarrow> n < 14" by (simp only: bit_mask_iff possible_bit_word) auto
  ultimately show ?thesis by simp
qed

lemma stack_aligned_iff: "stack_aligned p \<longleftrightarrow> unat p mod 0x4000 = 0"
  by (metis mask14 stack_aligned_def unsigned_0 unsigned_eq_0_iff)

lemma stack_or:
  assumes "stack_aligned b" "unat c < 0x4000"
  shows "b OR c = b + c"
proof -
  have "b AND c = 0"
  proof -
    have "c AND 0x3FFF = c" using assms(2) mask14 [of c] by (simp add: word_eq_unat_iff)
    then have "b AND c = (b AND 0x3FFF) AND c" by (metis and.assoc and.commute)
    then show ?thesis using assms(1) by (simp add: stack_aligned_def)
  qed
  then show ?thesis using word_plus_and_or [of b c] by simp
qed

lemma stack_add:
  assumes "stack_aligned b" "unat c < 0x4000"
  shows "unat (b + c) = unat b + unat c"
proof -
  have "unat b mod 0x4000 = 0" using assms(1) by (simp add: stack_aligned_iff)
  then obtain k where k: "unat b = 0x4000 * k" by blast
  have "0x4000 * k < 4294967296" using k unat_u32_bound [of b] by linarith
  then have "unat b + 0x4000 \<le> 4294967296" using k by simp
  then show ?thesis using assms(2) by (subst unat_add_small) simp_all
qed

lemma stack_page:
  assumes "stack_aligned b" "k < 4" "unat c < 0x1000"
  shows "frame (b + 0x1000 * of_nat k + c) = b + 0x1000 * of_nat k" "(b + 0x1000 * of_nat k + c) AND 0xFFF = c"
    "page_aligned (b + 0x1000 * of_nat k)"
proof -
  have u: "unat (0x1000 * of_nat k :: u32) = 0x1000 * k"
    using assms(2) unat_mult_small [of "0x1000 :: u32" "of_nat k"] by (simp add: unat_of_nat)
  have b: "unat b mod 0x4000 = 0" using assms(1) by (simp add: stack_aligned_iff)
  then have b4: "unat b mod 0x1000 = 0" using mod_mod_cancel [of "0x1000" "0x4000" "unat b"] by simp
  have 1: "unat (b + 0x1000 * of_nat k) = unat b + 0x1000 * k"
    using stack_add [OF assms(1), of "0x1000 * of_nat k"] u assms(2) by simp
  then show pa: "page_aligned (b + 0x1000 * of_nat k)" using b4 by (simp add: page_aligned_iff)
  have c: "c < 0x1000" using assms(3) by (simp add: word_less_nat_alt)
  show f: "frame (b + 0x1000 * of_nat k + c) = b + 0x1000 * of_nat k" by (rule frame_add [OF pa c])
  have "unat (b + 0x1000 * of_nat k + c) = unat (b + 0x1000 * of_nat k) + unat c"
    using unat_page_add [OF pa c] by simp
  then have "unat ((b + 0x1000 * of_nat k + c) AND 0xFFF) = unat c"
    using off_mask(1) [of "b + 0x1000 * of_nat k + c"] 1 b4 assms(3) by (simp add: mod_add_eq [symmetric])
  then show "(b + 0x1000 * of_nat k + c) AND 0xFFF = c" by (simp add: word_eq_unat_iff)
qed

text \<open>Any stack pointer inside a stack leads to the same place.\<close>

lemma pcb_ptr_eq:
  assumes b: "stack_aligned b" and c: "unat c < 0x4000"
  shows "current_process_control_block_ptr (b + c) = b + 0x3FF8"
proof -
  have cm: "c AND 0x3FFF = c" using c mask14 [of c] by (simp add: word_eq_unat_iff)
  have n: "(0xFFFFC000 :: u32) = NOT 0x3FFF" by simp
  have "b = (b AND 0x3FFF) OR (b AND 0xFFFFC000)" unfolding n by (simp flip: bit.conj_disj_distrib)
  then have bm: "b AND 0xFFFFC000 = b" using b unfolding stack_aligned_def by (metis or.left_neutral)
  have "b AND 0xFFFFD000 = b"
    using bm and.assoc [of b "0xFFFFC000" "0xFFFFD000"] by simp
  moreover have "c AND 0xFFFFD000 = c AND 0x1000"
    using cm and.assoc [of c "0x3FFF" "0xFFFFD000"] by simp
  ultimately have 1: "(b OR c) AND 0xFFFFD000 = b OR (c AND 0x1000)" by (simp add: bit.conj_disj_distrib2)
  have a: "(c AND 0x1000) OR 0x1000 = 0x1000" by (simp only: word_ao_absorbs)
  have "(c AND 0x1000) OR 0x3FF8 = (c AND 0x1000) OR (0x1000 OR 0x3FF8)" by simp
  also have "\<dots> = ((c AND 0x1000) OR 0x1000) OR 0x3FF8" by (simp only: or.assoc)
  also have "\<dots> = 0x3FF8" unfolding a by simp
  finally have "(c AND 0x1000) OR 0x3FF8 = 0x3FF8" .
  then have "((b OR c) AND 0xFFFFD000) OR 0x3FF8 = b OR 0x3FF8" unfolding 1 by (simp add: or.assoc)
  then show ?thesis
    using stack_or [OF b c] stack_or [OF b, of "0x3FF8"] by (simp add: current_process_control_block_ptr_def)
qed

lemma stack_slot_eq:
  assumes s: "stack_aligned start" "(s + 1) * 0x4000 \<le> unat start" and c: "0 < unat c" "unat c < 0x4000"
  shows "stack_slot start (stack_base start s + c) = of_nat s"
proof -
  have s4: "s * 0x4000 + 0x4000 \<le> unat start" using s(2) by (simp add: algebra_simps)
  then have s32: "s * 0x4000 < 4294967296" using unat_u32_bound [of start] by linarith
  then have us: "unat (of_nat s * 0x4000 :: u32) = s * 0x4000"
    using unat_mult_small [of "of_nat s :: u32" "0x4000"] by (simp add: unat_of_nat)
  have d: "start - (stack_base start s + c) = of_nat s * 0x4000 + (0x4000 - c)"
    by (simp add: stack_base_def algebra_simps)
  have uc: "unat (0x4000 - c) = 0x4000 - unat c" using c by (subst unat_sub_small) simp_all
  have lt: "s * 0x4000 + (0x4000 - unat c) < 4294967296" using s4 unat_u32_bound [of start] by linarith
  have "unat (of_nat s * 0x4000 + (0x4000 - c)) = s * 0x4000 + (0x4000 - unat c)"
    using us uc lt by (subst unat_add_small) simp_all
  then have "unat (start - (stack_base start s + c)) = s * 0x4000 + (0x4000 - unat c)" by (simp only: d)
  moreover have "(s * 0x4000 + (0x4000 - unat c)) div 0x4000 = s"
    using c by (intro div_nat_eqI) simp_all
  moreover have "unat (of_nat s :: u32) = s" using s32 by (intro unat_of_nat_small) simp
  ultimately show ?thesis by (simp add: stack_slot_def word_eq_unat_iff unat_div_distrib)
qed

lemma stack_aligned_mult: "stack_aligned x \<longleftrightarrow> (\<exists>w. x = w * 0x4000)"
proof
  assume "stack_aligned x"
  then obtain k where k: "unat x = 0x4000 * k" unfolding stack_aligned_iff by blast
  have "x = of_nat (unat x)" by simp
  also have "\<dots> = of_nat k * 0x4000" unfolding k by simp
  finally show "\<exists>w. x = w * 0x4000" by blast
next
  assume "\<exists>w. x = w * 0x4000"
  then obtain w where "x = w * 0x4000" by blast
  then have "unat x = unat w * 0x4000 mod 4294967296" by (simp add: unat_word_ariths)
  then have "unat x mod 0x4000 = unat w * 0x4000 mod 0x4000" by (simp only: mod_mod_cancel) (simp add: mod_mod_cancel)
  then show "stack_aligned x" by (simp add: stack_aligned_iff)
qed

lemma stack_base_aligned: "stack_aligned start \<Longrightarrow> stack_aligned (stack_base start s)"
proof -
  assume "stack_aligned start"
  then obtain w where "start = w * 0x4000" by (auto simp: stack_aligned_mult)
  then have "stack_base start s = (w - of_nat s - 1) * 0x4000" by (simp add: stack_base_def algebra_simps)
  then show ?thesis unfolding stack_aligned_mult by (rule exI)
qed

lemma stack_page_va:
  fixes b :: u32
  assumes "k < 4"
  shows "b + 0x4000 - 0x1000 * of_nat (1 + k) = b + 0x1000 * of_nat (3 - k)"
proof -
  have "k = 0 \<or> k = 1 \<or> k = 2 \<or> k = 3" using assms by auto
  then show ?thesis by auto
qed

lemma stack_pages_apart:
  assumes "stack_aligned b" "j < 4" "k < 4" "j \<noteq> k"
  shows "frame (b + 0x1000 * of_nat j) \<noteq> frame (b + 0x1000 * of_nat k)"
proof -
  have f: "frame (b + 0x1000 * of_nat i) = b + 0x1000 * of_nat i" if "i < 4" for i
    using stack_page(1) [OF assms(1) that, of 0] by simp
  have "j = 0 \<or> j = 1 \<or> j = 2 \<or> j = 3" "k = 0 \<or> k = 1 \<or> k = 2 \<or> k = 3" using assms by auto
  then show ?thesis unfolding f [OF assms(2)] f [OF assms(3)] using assms(4) by auto
qed

text \<open>The four pages of a stack, mapped from the top down.\<close>

lemma map_stack:
  assumes ok: "mm_ok V tid mm ps" "mtx_lock (mm_mutex mm) = 0" "4 \<le> length ps" and b: "stack_aligned b"
    and qs: "length qs = 4" "\<And>p. p \<in> set qs \<Longrightarrow> usable mm p \<and> p \<notin> set ps"
    and ready: "\<And>k. k < 4 \<Longrightarrow> va_ready V mm (b + 0x1000 * of_nat k)"
  obtains mm' rest where "map_stack_pages V tid all (b + 0x4000) 1 qs mm = Inr (True, mm')" "mm_ok V tid mm' rest"
    "set rest \<subseteq> set ps"
    "\<And>k c. k < 4 \<Longrightarrow> unat c < 0x1000 \<Longrightarrow> translate mm' (b + 0x1000 * of_nat k + c) = Inr (qs ! (3 - k) + c)"
    "\<And>x. dir_ix x \<noteq> 1023 \<Longrightarrow> frame x \<noteq> V \<Longrightarrow> (\<And>k. k < 4 \<Longrightarrow> frame x \<noteq> b + 0x1000 * of_nat k) \<Longrightarrow> translate mm' x = translate mm x"
    "\<And>p. p \<in> set qs \<Longrightarrow> \<not> table_frame mm' p"
proof -
  define va where "va = (\<lambda>i. b + 0x4000 - 0x1000 * of_nat i)"
  have va: "va (1 + k) = b + 0x1000 * of_nat (3 - k)" if "k < 4" for k
    unfolding va_def using stack_page_va [OF that] .
  have fr: "frame (b + 0x1000 * of_nat k) = b + 0x1000 * of_nat k" if "k < 4" for k
    using stack_page(1) [OF b that, of 0] by simp
  have "\<exists>mm' rest. map_stack_pages V tid all (b + 0x4000) 1 qs mm = Inr (True, mm') \<and> mm_ok V tid mm' rest \<and> set rest \<subseteq> set ps
    \<and> mm_mutex mm' = mm_mutex mm
    \<and> (\<forall>k < length qs. translate mm' (va (1 + k)) = Inr (qs ! k + (va (1 + k) AND 0xFFF)))
    \<and> (\<forall>x. dir_ix x \<noteq> 1023 \<longrightarrow> frame x \<noteq> V \<longrightarrow> (\<forall>k < length qs. frame x \<noteq> frame (va (1 + k))) \<longrightarrow>
         translate mm' x = translate mm x)
    \<and> (\<forall>f. table_frame mm' f \<longrightarrow> table_frame mm f \<or> f \<in> set ps)"
    unfolding va_def
  proof (rule map_stack_pages_run)
    show "va_ready V mm (b + 0x4000 - 0x1000 * of_nat (1 + k))" if "k < length qs" for k
      unfolding stack_page_va [OF that [unfolded qs(1)]] by (rule ready) simp
    show "frame (b + 0x4000 - 0x1000 * of_nat (1 + k)) \<noteq> frame (b + 0x4000 - 0x1000 * of_nat (1 + l))"
      if "k < l" "l < length qs" for k l
    proof -
      have kl: "k < 4" "l < 4" using that qs(1) by simp_all
      show ?thesis unfolding stack_page_va [OF kl(1)] stack_page_va [OF kl(2)]
        by (rule stack_pages_apart [OF b]) (use kl that(1) in linarith)+
    qed
  qed (use ok qs in auto)
  then obtain mm' rest where m: "map_stack_pages V tid all (b + 0x4000) 1 qs mm = Inr (True, mm')" "mm_ok V tid mm' rest"
      "set rest \<subseteq> set ps" "\<And>k. k < 4 \<Longrightarrow> translate mm' (va (1 + k)) = Inr (qs ! k + (va (1 + k) AND 0xFFF))"
      "\<And>x. dir_ix x \<noteq> 1023 \<Longrightarrow> frame x \<noteq> V \<Longrightarrow> (\<And>k. k < 4 \<Longrightarrow> frame x \<noteq> frame (va (1 + k))) \<Longrightarrow> translate mm' x = translate mm x"
      "\<And>f. table_frame mm' f \<Longrightarrow> table_frame mm f \<or> f \<in> set ps"
    unfolding qs(1) by blast
  have pg: "paging_ok mm'" using m(2) by (simp add: mm_ok_def fp_ok_def)
  have "translate mm' (b + 0x1000 * of_nat k + c) = Inr (qs ! (3 - k) + c)" if k: "k < 4" and c: "unat c < 0x1000" for k c
  proof -
    have l: "3 - k < 4" and e: "3 - (3 - k) = k" using k by linarith+
    have t: "translate mm' (b + 0x1000 * of_nat k) = Inr (qs ! (3 - k) + (b + 0x1000 * of_nat k AND 0xFFF))"
      using m(4) [OF l] unfolding va [OF l] e .
    have "page_aligned (qs ! (3 - k))" using qs(2) [of "qs ! (3 - k)"] qs(1) l by (simp add: usable_def)
    moreover have "frame (b + 0x1000 * of_nat k + c) = frame (b + 0x1000 * of_nat k)"
      unfolding fr [OF k] by (rule stack_page(1) [OF b k c])
    ultimately show ?thesis
      using translate_same_page [OF pg t] stack_page(2) [OF b k c] by simp
  qed
  moreover have "translate mm' x = translate mm x"
    if "dir_ix x \<noteq> 1023" "frame x \<noteq> V" "\<And>k. k < 4 \<Longrightarrow> frame x \<noteq> b + 0x1000 * of_nat k" for x
  proof (rule m(5) [OF that(1,2)])
    fix k :: nat assume "k < 4"
    then have "3 - k < 4" by simp
    then show "frame x \<noteq> frame (va (1 + k))" unfolding va [OF \<open>k < 4\<close>] fr [OF \<open>3 - k < 4\<close>] by (rule that(3))
  qed
  moreover have "\<not> table_frame mm' p" if "p \<in> set qs" for p using qs(2) [OF that] m(6) [of p] by (auto simp: usable_def)
  ultimately show ?thesis using that m(1-3) by blast
qed

text \<open>The words the allocator leaves in the stack.\<close>

lemma stack_words:
  assumes mm: "mm_ok V tid mm rest" and b: "stack_aligned b"
    and tr: "\<And>k c. k < 4 \<Longrightarrow> unat c < 0x1000 \<Longrightarrow> translate mm (b + 0x1000 * of_nat k + c) = Inr (qs ! (3 - k) + c)"
    and qs: "length qs = 4" "distinct qs" "\<And>p. p \<in> set qs \<Longrightarrow> page_aligned p \<and> \<not> table_frame mm p"
  obtains mm' where
    "bindE (vwrite mm (b OR 0xC) 0xDEADBEEF) (\<lambda>mm. bindE (vwrite mm (b OR 0x3FF0) 0xDEADBEEF) (\<lambda>mm.
       bindE (vwrite mm (b OR 0x3FF8) v) (\<lambda>mm. Inr (b OR 0x3FF0, info, mm)))) = Inr (b + 0x3FF0, info, mm')"
    "mm_ok V tid mm' rest" "translate mm' = translate mm"
    "vread mm' (b + 0xC) = Inr 0xDEADBEEF" "vread mm' (b + 0x3FF0) = Inr 0xDEADBEEF" "vread mm' (b + 0x3FF8) = Inr v"
proof -
  let ?p = "qs ! 3" and ?q = "qs ! 0"
  have pq: "?p \<noteq> ?q" "page_aligned ?p" "page_aligned ?q" "\<not> table_frame mm ?p" "\<not> table_frame mm ?q"
    using qs nth_eq_iff_index_eq [OF qs(2), of 3 0] by simp_all
  have a: "b OR 0xC = b + 0x1000 * of_nat 0 + 0xC" "b OR 0x3FF0 = b + 0x1000 * of_nat 3 + 0xFF0"
      "b OR 0x3FF8 = b + 0x1000 * of_nat 3 + 0xFF8"
    using stack_or [OF b] by simp_all
  have t: "translate mm (b OR 0xC) = Inr (?p + 0xC)" "translate mm (b OR 0x3FF0) = Inr (?q + 0xFF0)"
      "translate mm (b OR 0x3FF8) = Inr (?q + 0xFF8)"
    unfolding a using tr [of 0 "0xC"] tr [of 3 "0xFF0"] tr [of 3 "0xFF8"] by simp_all
  have fr: "frame (x + c) = x" if "page_aligned x" "c < 0x1000" for x c by (rule frame_add [OF that])
  have c: "(0xC :: u32) < 0x1000" "(0xFF0 :: u32) < 0x1000" "(0xFF8 :: u32) < 0x1000" by simp_all
  have out: "x + c \<notin> set rest" if "page_aligned x" "c < 0x1000" "c \<noteq> 0" for x c
  proof
    assume "x + c \<in> set rest"
    then have "frame (x + c) = x + c" using mm_ok_usable [OF mm] usable_frame by blast
    then show False using fr [OF that(1,2)] that(3) by simp
  qed
  obtain m1 where m1: "vwrite mm (b OR 0xC) 0xDEADBEEF = Inr m1" "m1 = mm\<lparr>phys := (phys mm)(?p + 0xC := 0xDEADBEEF)\<rparr>"
      "translate m1 = translate mm" "mm_ok V tid m1 rest" "table_frame m1 = table_frame mm"
    using vwrite_data [OF mm t(1) _ out [OF pq(2) c(1)]] pq(4) fr [OF pq(2) c(1)] by auto
  have "translate m1 (b OR 0x3FF0) = Inr (?q + 0xFF0)" using t(2) m1(3) by simp
  then obtain m2 where m2: "vwrite m1 (b OR 0x3FF0) 0xDEADBEEF = Inr m2" "m2 = m1\<lparr>phys := (phys m1)(?q + 0xFF0 := 0xDEADBEEF)\<rparr>"
      "translate m2 = translate m1" "mm_ok V tid m2 rest" "table_frame m2 = table_frame m1"
    using vwrite_data [OF m1(4) _ _ out [OF pq(3) c(2)]] pq(5) fr [OF pq(3) c(2)] m1(5) by auto
  have "translate m2 (b OR 0x3FF8) = Inr (?q + 0xFF8)" using t(3) m1(3) m2(3) by simp
  then obtain m3 where m3: "vwrite m2 (b OR 0x3FF8) v = Inr m3" "m3 = m2\<lparr>phys := (phys m2)(?q + 0xFF8 := v)\<rparr>"
      "translate m3 = translate m2" "mm_ok V tid m3 rest"
    using vwrite_data [OF m2(4) _ _ out [OF pq(3) c(3)]] pq(5) fr [OF pq(3) c(3)] m1(5) m2(5) by auto
  have tt: "translate m3 = translate mm" using m1(3) m2(3) m3(3) by simp
  have ne: "?p + 0xC \<noteq> ?q + 0xFF0" "?p + 0xC \<noteq> ?q + 0xFF8" using fr pq(1-3) c by metis+
  have or: "b OR 0xC = b + 0xC" "b OR 0x3FF0 = b + 0x3FF0" "b OR 0x3FF8 = b + 0x3FF8" using stack_or [OF b] by simp_all
  have "phys m3 (?p + 0xC) = 0xDEADBEEF" "phys m3 (?q + 0xFF0) = 0xDEADBEEF" "phys m3 (?q + 0xFF8) = v"
    using ne by (simp_all add: m1(2) m2(2) m3(2))
  then have "vread m3 (b + 0xC) = Inr 0xDEADBEEF" "vread m3 (b + 0x3FF0) = Inr 0xDEADBEEF" "vread m3 (b + 0x3FF8) = Inr v"
    using t unfolding or vread_def tt by simp_all
  then show ?thesis using that [of m3] m1(1) m2(1) m3(1,4) tt or by simp
qed

section \<open>Release\<close>

lemma unmap_free_step:
  assumes ok: "fp_ok V mm" "mutex_ready tid (mm_mutex mm)" "mtx_lock (mm_mutex mm) = 0" and z: "\<not> table_frame mm 0"
    and va: "dir_ix va \<noteq> 1023" "dir_ix va \<noteq> dir_ix V"
    and mapped: "present (pde mm (dir_ix va))" "present (pte mm (dir_ix va) (tab_ix va))"
    and other: "\<exists>l < 1024. l \<noteq> tab_ix va \<and> present (pte mm (dir_ix va) l)"
  obtains m1 mm' where "mm_unmap_page V tid mm va = Inr (1, m1)" "mm_free_physical_page V tid m1 1 = Inr mm'"
    "fp_ok V mm'" "mm_mutex mm' = mm_mutex mm" "table_frame mm' = table_frame mm" "\<And>k. k < 1024 \<Longrightarrow> pde mm' k = pde mm k"
    "\<And>k l. k < 1024 \<Longrightarrow> l < 1024 \<Longrightarrow> present (pde mm k) \<Longrightarrow> k \<noteq> 1023 \<Longrightarrow> k \<noteq> dir_ix V \<Longrightarrow>
       pte mm' k l = (if k = dir_ix va \<and> l = tab_ix va then 2 else pte mm k l)"
    "first_free_page mm' = 1" "phys mm' 0 = first_free_page mm"
proof -
  define m1 where "m1 = mm\<lparr>phys := (phys mm)(frame (pde mm (dir_ix va)) + 4 * tab_ix va := 2)\<rparr>"
  have pg: "paging_ok mm" using ok(1) by (simp add: fp_ok_def)
  obtain m where m: "mm_unmap_page V tid mm va = Inr (1, m1)"
    using unmap_run [OF pg ok(2,3) va(1) mapped, of V, folded m1_def] other by (metis (no_types, lifting))
  note w = pte_write [OF pg ix_less(1) va(1) mapped(1) ix_less(2) [of va], where v = 2, folded m1_def]
  have fp1: "fp_ok V m1" using ok(1) w(1,2) ix_less by (simp add: fp_ok_def m1_def)
  have fe: "fpte V m1 = fpte V mm" using w(2) ix_less by (simp add: fpte_def)
  have f1: "frame 1 = 0" by (simp add: frame_def)
  have det: "detached V m1 1" using not_table_detached [OF fp1] w(3) z f1 by simp
  define mm' where "mm' = m1\<lparr>phys := (phys m1)(0 := first_free_page mm, fpte V mm := 0), first_free_page := 1\<rparr>"
  have fr: "mm_free_physical_page V tid m1 1 = Inr mm'"
    using free_effect [OF fp1 det] ok(2) by (simp add: f1 fe mm'_def) (simp add: m1_def)
  have nz: "fpte V mm \<noteq> 0"
    using det f1 fe fpte_frame(1) [OF fp1] unfolding detached_def by (metis frame_idem)
  have dir: "phys mm' a = phys m1 a" if "frame a = cr3 m1" for a
    using that det fpte_frame(2) [OF fp1] f1 fe frame_idem [of 1] by (auto simp: mm'_def detached_def)
  have c: "cr3 mm' = cr3 m1" by (simp add: mm'_def)
  have pg1: "paging_ok m1" using fp1 by (simp add: fp_ok_def)
  note same = same_directory [OF pg1 c dir]
  have pd: "pde mm' k = pde mm k" if "k < 1024" for k using same(1) w(2) that by simp
  have "fp_ok V mm'" using fp1 same(1,2) ix_less by (simp add: fp_ok_def mm'_def)
  moreover have "pte mm' k l = (if k = dir_ix va \<and> l = tab_ix va then 2 else pte mm k l)"
    if kl: "k < 1024" "l < 1024" "present (pde mm k)" "k \<noteq> 1023" "k \<noteq> dir_ix V" for k l
  proof -
    let ?a = "frame (pde mm k) + 4 * l"
    have "table_frame mm (frame (pde mm k))" using kl by (auto simp: table_frame_def)
    then have "frame ?a \<noteq> 0" using z kl by (auto simp: table_entry_frame)
    then have "?a \<noteq> 0" by (auto simp: frame_def)
    moreover have "?a \<noteq> fpte V mm"
    proof
      assume eq: "?a = fpte V mm"
      then have "frame (pde mm k) = frame (pde mm (dir_ix V))"
        using fpte_frame(1) [OF ok(1)] table_entry_frame [OF page_aligned_frame kl(2), of "pde mm k"] by simp
      then have "k = dir_ix V" using ok(1) kl ix_less by (auto simp: fp_ok_def paging_ok_def inj_on_def)
      with kl(5) show False by simp
    qed
    ultimately have "phys mm' ?a = phys m1 ?a" by (simp add: mm'_def)
    then have "pte mm' k l = pte m1 k l" using pd [OF kl(1)] w(2) [OF kl(1)] by (simp add: pte_def)
    then show ?thesis using w(4) [OF kl(1,3,2)] by simp
  qed
  ultimately show ?thesis
    using that m fr pd same(3) w(3) nz by (simp add: mm'_def) (simp add: m1_def)
qed

text \<open>The pages of a stack as \<open>mm_free_stack\<close> finds them, and the entries it leaves.\<close>

definition va_tabled :: "u32 \<Rightarrow> mm_state \<Rightarrow> u32 \<Rightarrow> bool" where
  "va_tabled V mm va \<longleftrightarrow> dir_ix va \<noteq> 1023 \<and> dir_ix va \<noteq> dir_ix V \<and> present (pde mm (dir_ix va))"

definition va_mapped :: "u32 \<Rightarrow> mm_state \<Rightarrow> u32 \<Rightarrow> bool" where
  "va_mapped V mm va \<longleftrightarrow> va_tabled V mm va \<and> present (pte mm (dir_ix va) (tab_ix va))"

lemma unmap_stack_run:
  fixes top :: u32
  defines "va \<equiv> \<lambda>i. top - 0x1000 * of_nat i"
  assumes "fp_ok V mm" "mutex_ready tid (mm_mutex mm)" "mtx_lock (mm_mutex mm) = 0" "\<not> table_frame mm 0"
    and "\<And>k. k < n \<Longrightarrow> va_mapped V mm (va (i + k))"
    and "\<And>k l. k < l \<Longrightarrow> l < n \<Longrightarrow> frame (va (i + k)) \<noteq> frame (va (i + l))"
    and "\<And>k. k < n \<Longrightarrow> \<exists>x. dir_ix x = dir_ix (va (i + k)) \<and> va_mapped V mm x \<and> (\<forall>l < n. frame x \<noteq> frame (va (i + l)))"
  shows "\<exists>mm'. unmap_stack_pages V tid top i n mm = Inr mm' \<and> fp_ok V mm' \<and> mm_mutex mm' = mm_mutex mm
    \<and> table_frame mm' = table_frame mm
    \<and> (\<forall>k < n. present (pde mm' (dir_ix (va (i + k)))) \<and> pte mm' (dir_ix (va (i + k))) (tab_ix (va (i + k))) = 2)
    \<and> (\<forall>x. va_tabled V mm x \<longrightarrow> (\<forall>k < n. frame x \<noteq> frame (va (i + k))) \<longrightarrow>
         pde mm' (dir_ix x) = pde mm (dir_ix x) \<and> pte mm' (dir_ix x) (tab_ix x) = pte mm (dir_ix x) (tab_ix x))
    \<and> (0 < n \<longrightarrow> first_free_page mm' = 1)
    \<and> (if n = 0 then phys mm' 0 = phys mm 0 \<and> first_free_page mm' = first_free_page mm
       else phys mm' 0 = (if n = 1 then first_free_page mm else 1))"
  using assms(2-)
proof (induction n arbitrary: mm i)
  case (Suc n)
  have v: "va_mapped V mm (va (i + k))" if "k < Suc n" for k using Suc.prems(5) that .
  have v0: "dir_ix (va i) \<noteq> 1023" "dir_ix (va i) \<noteq> dir_ix V" "present (pde mm (dir_ix (va i)))"
      "present (pte mm (dir_ix (va i)) (tab_ix (va i)))"
    using v [of 0] by (simp_all add: va_mapped_def va_tabled_def)
  obtain x where x: "dir_ix x = dir_ix (va i)" "va_mapped V mm x" "frame x \<noteq> frame (va i)"
    using Suc.prems(7) [of 0] by auto
  then have "tab_ix x \<noteq> tab_ix (va i)" using same_page_ix by blast
  then have oth: "\<exists>l < 1024. l \<noteq> tab_ix (va i) \<and> present (pte mm (dir_ix (va i)) l)"
    using x(1,2) ix_less(2) [of x] by (auto simp: va_mapped_def)
  obtain m1 m2 where s: "mm_unmap_page V tid mm (va i) = Inr (1, m1)" "mm_free_physical_page V tid m1 1 = Inr m2"
      "fp_ok V m2" "mm_mutex m2 = mm_mutex mm" "table_frame m2 = table_frame mm" "\<And>k. k < 1024 \<Longrightarrow> pde m2 k = pde mm k"
      "\<And>k l. k < 1024 \<Longrightarrow> l < 1024 \<Longrightarrow> present (pde mm k) \<Longrightarrow> k \<noteq> 1023 \<Longrightarrow> k \<noteq> dir_ix V \<Longrightarrow>
         pte m2 k l = (if k = dir_ix (va i) \<and> l = tab_ix (va i) then 2 else pte mm k l)"
      "first_free_page m2 = 1" "phys m2 0 = first_free_page mm"
    by (rule unmap_free_step [OF Suc.prems(1-4) v0 oth]) blast
  have keep: "pde m2 (dir_ix y) = pde mm (dir_ix y) \<and> pte m2 (dir_ix y) (tab_ix y) = pte mm (dir_ix y) (tab_ix y)"
    if "va_tabled V mm y" "frame y \<noteq> frame (va i)" for y
    using that s(6) [OF ix_less(1)] s(7) [OF ix_less, of y y] same_page_ix [of y "va i"] by (auto simp: va_tabled_def)
  then have mp: "va_mapped V m2 y" if "va_mapped V mm y" "frame y \<noteq> frame (va i)" for y
    using that by (simp add: va_mapped_def va_tabled_def)
  have apart: "frame (va (i + Suc k)) \<noteq> frame (va i)" if "k < n" for k using Suc.prems(6) [of 0 "Suc k"] that by auto
  have "\<exists>mm'. unmap_stack_pages V tid top (i + 1) n m2 = Inr mm' \<and> fp_ok V mm' \<and> mm_mutex mm' = mm_mutex m2
    \<and> table_frame mm' = table_frame m2
    \<and> (\<forall>k < n. present (pde mm' (dir_ix (va (i + 1 + k)))) \<and> pte mm' (dir_ix (va (i + 1 + k))) (tab_ix (va (i + 1 + k))) = 2)
    \<and> (\<forall>x. va_tabled V m2 x \<longrightarrow> (\<forall>k < n. frame x \<noteq> frame (va (i + 1 + k))) \<longrightarrow>
         pde mm' (dir_ix x) = pde m2 (dir_ix x) \<and> pte mm' (dir_ix x) (tab_ix x) = pte m2 (dir_ix x) (tab_ix x))
    \<and> (0 < n \<longrightarrow> first_free_page mm' = 1)
    \<and> (if n = 0 then phys mm' 0 = phys m2 0 \<and> first_free_page mm' = first_free_page m2
       else phys mm' 0 = (if n = 1 then first_free_page m2 else 1))"
  proof (rule Suc.IH)
    show "mutex_ready tid (mm_mutex m2)" "mtx_lock (mm_mutex m2) = 0" "\<not> table_frame m2 0"
      using Suc.prems(2-4) s(4,5) by simp_all
    show "va_mapped V m2 (va (i + 1 + k))" if "k < n" for k using mp [OF v [of "Suc k"]] apart [OF that] that by simp
    show "frame (va (i + 1 + k)) \<noteq> frame (va (i + 1 + l))" if "k < l" "l < n" for k l
      using Suc.prems(6) [of "Suc k" "Suc l"] that by simp
    show "\<exists>x. dir_ix x = dir_ix (va (i + 1 + k)) \<and> va_mapped V m2 x \<and> (\<forall>l < n. frame x \<noteq> frame (va (i + 1 + l)))" if k: "k < n" for k
    proof -
      obtain y where y: "dir_ix y = dir_ix (va (i + 1 + k))" "va_mapped V mm y" "\<forall>l < Suc n. frame y \<noteq> frame (va (i + l))"
        using Suc.prems(7) [of "Suc k"] k by auto
      have "va_mapped V m2 y" using mp [OF y(2)] y(3) [rule_format, of 0] by simp
      moreover have "\<forall>l < n. frame y \<noteq> frame (va (i + 1 + l))" using y(3) by auto
      ultimately show ?thesis using y(1) by blast
    qed
  qed (rule s(3))
  then obtain m3 where m3: "unmap_stack_pages V tid top (i + 1) n m2 = Inr m3" "fp_ok V m3" "mm_mutex m3 = mm_mutex m2"
      "table_frame m3 = table_frame m2"
      "\<And>k. k < n \<Longrightarrow> present (pde m3 (dir_ix (va (i + 1 + k)))) \<and> pte m3 (dir_ix (va (i + 1 + k))) (tab_ix (va (i + 1 + k))) = 2"
      "\<And>x. va_tabled V m2 x \<Longrightarrow> \<forall>k < n. frame x \<noteq> frame (va (i + 1 + k)) \<Longrightarrow>
         pde m3 (dir_ix x) = pde m2 (dir_ix x) \<and> pte m3 (dir_ix x) (tab_ix x) = pte m2 (dir_ix x) (tab_ix x)"
      "0 < n \<longrightarrow> first_free_page m3 = 1"
      "if n = 0 then phys m3 0 = phys m2 0 \<and> first_free_page m3 = first_free_page m2
       else phys m3 0 = (if n = 1 then first_free_page m2 else 1)"
    by blast
  have t2: "va_tabled V m2 y \<longleftrightarrow> va_tabled V mm y" for y using s(6) [OF ix_less(1), of y] by (simp add: va_tabled_def)
  have run: "unmap_stack_pages V tid top i (Suc n) mm = Inr m3" using s(1,2) m3(1) by (simp add: va_def)
  have gone: "present (pde m3 (dir_ix (va (i + k)))) \<and> pte m3 (dir_ix (va (i + k))) (tab_ix (va (i + k))) = 2" if k: "k < Suc n" for k
  proof (cases k)
    case 0
    have tv: "va_tabled V m2 (va i)" unfolding t2 using v0 by (simp add: va_tabled_def)
    have "\<forall>k < n. frame (va i) \<noteq> frame (va (i + 1 + k))" using apart by (metis add.assoc plus_1_eq_Suc)
    from m3(6) [OF tv this] show ?thesis
      using 0 s(6,7) ix_less v0 by simp
  next
    case (Suc l)
    then show ?thesis using m3(5) [of l] k by simp
  qed
  have kept: "pde m3 (dir_ix y) = pde mm (dir_ix y) \<and> pte m3 (dir_ix y) (tab_ix y) = pte mm (dir_ix y) (tab_ix y)"
    if y: "va_tabled V mm y" "\<forall>k < Suc n. frame y \<noteq> frame (va (i + k))" for y
  proof -
    have "frame y \<noteq> frame (va i)" using y(2) [rule_format, of 0] by simp
    moreover have "\<forall>k < n. frame y \<noteq> frame (va (i + 1 + k))" using y(2) by auto
    ultimately show ?thesis using m3(6) [of y] keep [OF y(1)] t2 y(1) by simp
  qed
  have ff: "first_free_page m3 = 1" using m3(7,8) s(8) by (cases "n = 0") auto
  have p0: "phys m3 0 = (if Suc n = 1 then first_free_page mm else 1)"
    using m3(8) s(8,9) by (cases "n = 0") (auto split: if_splits)
  show ?case
    using run m3(2) gone kept ff p0 m3(3,4) s(4,5) by (intro exI [of _ m3]) simp
qed simp

section \<open>Properties\<close>

lemma stacks_lock_free:
  assumes "stacks_semaphore info = 0"
  shows "stacks_lock tid info = Inr (info\<lparr>stacks_semaphore := tid\<rparr>)"
    "stacks_unlock (info\<lparr>stacks_semaphore := tid, stacks_bitmaps := bs\<rparr>) = info\<lparr>stacks_bitmaps := bs\<rparr>"
  using assms by (cases info; simp add: stacks_lock_def semaphore_acquire_def stacks_unlock_def semaphore_release_def)+

lemma stack_top_eq:
  "start - (32 * of_nat (s div 32) + of_int (int (s mod 32))) * 4 * 4096 = stack_base start s + 0x4000"
proof -
  have "32 * of_nat (s div 32) + of_int (int (s mod 32)) = (of_nat (32 * (s div 32) + s mod 32) :: u32)"
    by (simp only: of_nat_add of_nat_mult of_int_of_nat_eq of_nat_numeral)
  also have "32 * (s div 32) + s mod 32 = s" by simp
  finally have "32 * of_nat (s div 32) + of_int (int (s mod 32)) = (of_nat s :: u32)" .
  then show ?thesis by (simp add: stack_base_def)
qed

text \<open>The free list that \<open>mm_free_stack\<close> leaves: the page 1, which is followed by itself.\<close>

definition pages_lost :: "u32 \<Rightarrow> u32 \<Rightarrow> mm_state \<Rightarrow> bool" where
  "pages_lost V tid mm \<longleftrightarrow> fp_ok V mm \<and> mutex_ready tid (mm_mutex mm) \<and> \<not> table_frame mm 0
     \<and> first_free_page mm = 1 \<and> phys mm 0 = 1"

lemma lost_alloc:
  assumes "pages_lost V tid mm"
  shows "\<exists>mm'. mm_alloc_physical_page V tid False mm = Inr (1, mm') \<and> pages_lost V tid mm'"
proof -
  have l: "fp_ok V mm" "mutex_ready tid (mm_mutex mm)" "\<not> table_frame mm 0" "first_free_page mm = 1" "phys mm 0 = 1"
    using assms by (simp_all add: pages_lost_def)
  have f1: "frame 1 = 0" by (simp add: frame_def)
  have det: "detached V mm 1" using not_table_detached [OF l(1)] l(3) f1 by simp
  let ?m = "mm\<lparr>phys := (phys mm)(fpte V mm := 0), first_free_page := 1\<rparr>"
  have run: "mm_alloc_physical_page V tid False mm = Inr (1, ?m)"
    using alloc_effect [OF l(1,4) _ det l(2), of False] l(5) by (simp add: f1)
  have nz: "fpte V mm \<noteq> 0"
    using det f1 unfolding detached_def by (metis frame_idem)
  have "fp_ok V (mm\<lparr>phys := (phys mm)(fpte V mm := 0)\<rparr>)" "table_frame (mm\<lparr>phys := (phys mm)(fpte V mm := 0)\<rparr>) = table_frame mm"
    using MAP_effect_ok [OF l(1)] by simp_all
  then have "fp_ok V ?m" "table_frame ?m = table_frame mm"
    unfolding fp_ok_mutex by simp_all
  then show ?thesis using run l nz by (auto simp: pages_lost_def)
qed

definition clear_slot :: "u32 list \<Rightarrow> nat \<Rightarrow> u32 list" where
  "clear_slot bitmaps s = bitmaps[s div 32 := bitmaps ! (s div 32) AND NOT (push_bit (s mod 32) 1)]"

lemma clear_slot_used:
  assumes "s < 32 * length bitmaps"
  shows "slot_used (clear_slot bitmaps s) r \<longleftrightarrow> r \<noteq> s \<and> slot_used bitmaps r"
proof -
  have l: "s div 32 < length bitmaps" using assms by (simp add: less_mult_imp_div_less mult.commute)
  have e: "r = s \<longleftrightarrow> r div 32 = s div 32 \<and> r mod 32 = s mod 32" by (metis div_mod_decomp)
  have "bit (NOT (push_bit (s mod 32) 1) :: u32) n \<longleftrightarrow> n < 32 \<and> n \<noteq> s mod 32" for n
    by (auto simp: bit_simps)
  moreover have "r mod 32 < 32" by simp
  ultimately show ?thesis
    using l e by (cases "r div 32 = s div 32") (auto simp: slot_used_def clear_slot_def bit_and_iff)
qed

lemma mm_free_stack_run:
  assumes info: "stacks_semaphore info = 0" "stack_aligned (stacks_start info)"
    and slot: "s < 32 * length (stacks_bitmaps info)" "(s + 1) * 0x4000 \<le> unat (stacks_start info)"
    and sp: "b = stack_base (stacks_start info) s" "0 < unat c" "unat c < 0x4000"
  shows "mm_free_stack V tid (b + c) info mm =
    bindE (unmap_stack_pages V tid (b + 0x4000) 1 4 mm)
      (\<lambda>mm. Inr (info\<lparr>stacks_bitmaps := clear_slot (stacks_bitmaps info) s\<rparr>, mm))"
proof -
  have "s * 0x4000 + 0x4000 \<le> unat (stacks_start info)" using slot(2) by (simp add: algebra_simps)
  then have "s < 4294967296" using unat_u32_bound [of "stacks_start info"] by linarith
  then have us: "unat (of_nat s :: u32) = s" by (intro unat_of_nat_small) simp
  have sl: "stack_slot (stacks_start info) (b + c) = of_nat s" unfolding sp(1) by (rule stack_slot_eq [OF info(2) slot(2) sp(2,3)])
  have dm: "unat ((of_nat s :: u32) div 32) = s div 32" "unat ((of_nat s :: u32) mod 32) = s mod 32"
    by (simp_all only: unat_div_distrib unat_mod_distrib us) simp_all
  have top: "stacks_start info - (32 * (of_nat s div 32) + of_nat s mod 32) * 4 * 4096 = b + 0x4000"
    unfolding mult_div_mod_eq by (simp add: sp(1) stack_base_def)
  have l: "s div 32 < length (stacks_bitmaps info)" using slot(1) by (simp add: less_mult_imp_div_less mult.commute)
  show ?thesis
    unfolding mm_free_stack_def Let_def sl dm top stacks_lock_free(1) [OF info(1)] bindE_simps MM_STACK_PAGE_SIZE_def
    using l by (simp add: stacks_lock_free(2) [OF info(1)] clear_slot_def)
qed


text \<open>An example with eight free pages and no page table for the stacks.\<close>

definition example_stack_mm :: mm_state where
  "example_stack_mm = example_mm\<lparr>phys := (phys example_mm)(0x6000 := 0x7000, 0x7000 := 0xA000, 0xA000 := 0xB000,
     0xB000 := 0xC000, 0xC000 := 0xD000, 0xD000 := 0xE000)\<rparr>"

definition example_ring_info :: mm_ring_info where
  "example_ring_info = \<lparr>heap_semaphore = 0, heap_start = 0xC0020000, heap_end = 0xC0020000, stacks_semaphore = 0,
     stacks_start = 0xFFC00000, stacks_bitmaps_length = 1, stacks_bitmaps = [1]\<rparr>"

lemma example_stack_mm_ok:
  "mm_ok 0xC0010000 2 example_stack_mm [0x5000, 0x6000, 0x7000, 0xA000, 0xB000, 0xC000, 0xD000, 0xE000]"
proof (rule mm_ok_update(1) [OF example_mm_ok])
  show "free_chain (phys example_stack_mm) (first_free_page example_stack_mm)
      [0x5000, 0x6000, 0x7000, 0xA000, 0xB000, 0xC000, 0xD000, 0xE000]"
    by (simp add: example_stack_mm_def example_mm_def page_aligned_def frame_def)
  show "\<not> table_frame example_mm p" if "p \<in> set [0x5000, 0x6000, 0x7000, 0xA000, 0xB000, 0xC000, 0xD000, 0xE000]" for p
    using that example_table by fastforce
  show "phys example_stack_mm a = phys example_mm a" if "frame a = cr3 example_mm" for a
  proof -
    have "a \<notin> {0x6000, 0x7000, 0xA000, 0xB000, 0xC000, 0xD000}"
      using that by (auto simp: frame_def example_mm_def)
    then show ?thesis by (simp add: example_stack_mm_def)
  qed
qed (simp_all add: example_stack_mm_def)


text \<open>
  C24. When \<open>mm_alloc_stack\<close> cannot get four pages it returns 0, gives back those it had taken and
  leaves the slots alone; when every slot is taken the kernel panics, since the bitmap cannot grow.
\<close>

theorem mm_alloc_stack_errors:
  assumes mm: "mm_ok V tid mm ps" and info: "stacks_semaphore info = 0"
    "length (stacks_bitmaps info) = unat (stacks_bitmaps_length info)"
  shows "if length ps < 4
     then \<exists>mm'. mm_alloc_stack V tid pcb info mm = Inr (0, info, mm') \<and> mm_ok V tid mm' (rev ps)
     else (\<forall>r < 32 * length (stacks_bitmaps info). slot_used (stacks_bitmaps info) r) \<longrightarrow>
       mm_alloc_stack V tid pcb info mm = Inl (Panic ''not implemented: increase kernel_info->stacks_bitmaps'')"
proof (cases "length ps < 4")
  case True
  have "distinct ps" using mm by (simp add: mm_ok_def)
  then have "\<exists>mm'. alloc_stack_pages V tid 4 [] mm = Inr (None, mm') \<and> mm_ok V tid mm' (rev ([] @ ps))"
    using True by (intro alloc_stack_pages_fail [OF mm]) simp_all
  then show ?thesis using True by (auto simp: mm_alloc_stack_def MM_STACK_PAGE_SIZE_def)
next
  case False
  then obtain m1 where m1: "alloc_stack_pages V tid 4 [] mm = Inr (Some (take 4 ps), m1)"
    using alloc_stack_pages_run [OF mm, of 4 "[]"] by auto
  have "find_slot (stacks_bitmaps info) 0 (unat (stacks_bitmaps_length info)) = Inr (0 + unat (stacks_bitmaps_length info), - 1, stacks_bitmaps info)"
    if "\<forall>r < 32 * length (stacks_bitmaps info). slot_used (stacks_bitmaps info) r"
    using that info(2) by (intro find_slot_full) simp_all
  then show ?thesis
    using False m1 by (simp add: mm_alloc_stack_def MM_STACK_PAGE_SIZE_def stacks_lock_free(1) [OF info(1)])
qed

theorem mm_alloc_stack_errors_witness:
  "(\<exists>mm. mm_alloc_stack 0xC0010000 2 0xC0020100 example_ring_info example_mm = Inr (0, example_ring_info, mm)
      \<and> mm_ok 0xC0010000 2 mm [0x6000, 0x5000])
   \<and> mm_alloc_stack 0xC0010000 2 0xC0020100 (example_ring_info\<lparr>stacks_bitmaps := [0xFFFFFFFF]\<rparr>) example_stack_mm
       = Inl (Panic ''not implemented: increase kernel_info->stacks_bitmaps'')"
proof -
  let ?full = "example_ring_info\<lparr>stacks_bitmaps := [0xFFFFFFFF]\<rparr>"
  have "slot_used [0xFFFFFFFF] r" if "r < 32" for r
    using all_bits_u32 [of "0xFFFFFFFF"] that by (simp add: slot_used_def)
  then have "\<forall>r < 32 * length (stacks_bitmaps ?full). slot_used (stacks_bitmaps ?full) r" by simp
  then show ?thesis
    using mm_alloc_stack_errors [OF example_mm_ok, of example_ring_info "0xC0020100"]
      mm_alloc_stack_errors [OF example_stack_mm_ok, of ?full "0xC0020100"]
    by (simp add: example_ring_info_def)
qed

text \<open>
  C25. \<open>mm_free_stack\<close> finds the slot of a stack from any stack pointer inside it, unmaps its four
  pages and clears its bit and no other. But it hands \<open>mm_free_physical_page\<close> the truth value that
  \<open>mm_unmap_page\<close> returns: the free list becomes the page \<open>1\<close> followed by itself, so that all free memory
  is lost and every later allocation returns \<open>1\<close>. And the slot, although marked free, can never
  be mapped again.
\<close>

theorem mm_free_stack_loses_pages:
  assumes mm: "fp_ok V mm" "mutex_ready tid (mm_mutex mm)" "mtx_lock (mm_mutex mm) = 0" "\<not> table_frame mm 0"
    and info: "stacks_semaphore info = 0" "stack_aligned (stacks_start info)"
    and slot: "s < 32 * length (stacks_bitmaps info)" "(s + 1) * 0x4000 \<le> unat (stacks_start info)"
    and sp: "b = stack_base (stacks_start info) s" "0 < unat c" "unat c < 0x4000"
    and pages: "\<And>k. k < 4 \<Longrightarrow> va_mapped V mm (b + 0x1000 * of_nat k)"
      "\<And>k. k < 4 \<Longrightarrow> \<exists>x. dir_ix x = dir_ix (b + 0x1000 * of_nat k) \<and> va_mapped V mm x
         \<and> (\<forall>l < 4. frame x \<noteq> b + 0x1000 * of_nat l)"
  shows "\<exists>bs mm'. mm_free_stack V tid (b + c) info mm = Inr (info\<lparr>stacks_bitmaps := bs\<rparr>, mm')
    \<and> (\<forall>r. slot_used bs r \<longleftrightarrow> r \<noteq> s \<and> slot_used (stacks_bitmaps info) r)
    \<and> (\<forall>k < 4. translate mm' (b + 0x1000 * of_nat k) = Inl (BadAccess (b + 0x1000 * of_nat k)))
    \<and> pages_lost V tid mm'
    \<and> (\<forall>m. pages_lost V tid m \<longrightarrow> (\<exists>m'. mm_alloc_physical_page V tid False m = Inr (1, m') \<and> pages_lost V tid m'))
    \<and> (\<forall>k < 4. \<forall>p. p \<noteq> 0 \<longrightarrow> b + 0x1000 * of_nat k \<noteq> 0 \<longrightarrow>
         mm_map_page V tid mm' p (b + 0x1000 * of_nat k) = Inr (- 1, mm'))"
proof -
  have al: "stack_aligned b" unfolding sp(1) by (rule stack_base_aligned [OF info(2)])
  have fr: "frame (b + 0x1000 * of_nat k) = b + 0x1000 * of_nat k" if "k < 4" for k
    using stack_page(1) [OF al that, of 0] by simp
  define va where "va = (\<lambda>i. b + 0x4000 - 0x1000 * of_nat i)"
  have va: "va (1 + k) = b + 0x1000 * of_nat (3 - k)" if "k < 4" for k
    unfolding va_def by (rule stack_page_va [OF that])
  have "\<exists>mm'. unmap_stack_pages V tid (b + 0x4000) 1 4 mm = Inr mm' \<and> fp_ok V mm' \<and> mm_mutex mm' = mm_mutex mm
    \<and> table_frame mm' = table_frame mm
    \<and> (\<forall>k < 4. present (pde mm' (dir_ix (va (1 + k)))) \<and> pte mm' (dir_ix (va (1 + k))) (tab_ix (va (1 + k))) = 2)
    \<and> (\<forall>x. va_tabled V mm x \<longrightarrow> (\<forall>k < 4. frame x \<noteq> frame (va (1 + k))) \<longrightarrow>
         pde mm' (dir_ix x) = pde mm (dir_ix x) \<and> pte mm' (dir_ix x) (tab_ix x) = pte mm (dir_ix x) (tab_ix x))
    \<and> (0 < (4 :: nat) \<longrightarrow> first_free_page mm' = 1)
    \<and> (if (4 :: nat) = 0 then phys mm' 0 = phys mm 0 \<and> first_free_page mm' = first_free_page mm
       else phys mm' 0 = (if (4 :: nat) = 1 then first_free_page mm else 1))"
    unfolding va_def
  proof (rule unmap_stack_run [OF mm])
    fix k :: nat assume k: "k < 4"
    then have l: "3 - k < 4" by simp
    show "va_mapped V mm (b + 0x4000 - 0x1000 * of_nat (1 + k))"
      unfolding stack_page_va [OF k] by (rule pages(1) [OF l])
    obtain x where x: "dir_ix x = dir_ix (b + 0x1000 * of_nat (3 - k))" "va_mapped V mm x" "\<forall>l < 4. frame x \<noteq> b + 0x1000 * of_nat l"
      using pages(2) [OF l] by blast
    have "frame x \<noteq> frame (b + 0x4000 - 0x1000 * of_nat (1 + l))" if "l < 4" for l
    proof -
      have "3 - l < 4" by simp
      then show ?thesis unfolding stack_page_va [OF that] fr [OF \<open>3 - l < 4\<close>] using x(3) by blast
    qed
    then show "\<exists>x. dir_ix x = dir_ix (b + 0x4000 - 0x1000 * of_nat (1 + k)) \<and> va_mapped V mm x
        \<and> (\<forall>l < 4. frame x \<noteq> frame (b + 0x4000 - 0x1000 * of_nat (1 + l)))"
      unfolding stack_page_va [OF k] using x(1,2) by blast
  next
    fix k l :: nat assume kl: "k < l" "l < 4"
    then have k: "k < 4" by simp
    show "frame (b + 0x4000 - 0x1000 * of_nat (1 + k)) \<noteq> frame (b + 0x4000 - 0x1000 * of_nat (1 + l))"
      unfolding stack_page_va [OF k] stack_page_va [OF kl(2)]
      by (rule stack_pages_apart [OF al]) (use kl in linarith)+
  qed
  then obtain m1 where m1: "unmap_stack_pages V tid (b + 0x4000) 1 4 mm = Inr m1" "fp_ok V m1" "mm_mutex m1 = mm_mutex mm"
      "table_frame m1 = table_frame mm" "first_free_page m1 = 1" "phys m1 0 = 1"
      "\<And>k. k < 4 \<Longrightarrow> present (pde m1 (dir_ix (va (1 + k)))) \<and> pte m1 (dir_ix (va (1 + k))) (tab_ix (va (1 + k))) = 2"
    by auto
  have gone: "present (pde m1 (dir_ix (b + 0x1000 * of_nat k))) \<and>
      pte m1 (dir_ix (b + 0x1000 * of_nat k)) (tab_ix (b + 0x1000 * of_nat k)) = 2" if k: "k < 4" for k
  proof -
    have l: "3 - k < 4" and e: "3 - (3 - k) = k" using k by linarith+
    show ?thesis using m1(7) [OF l] unfolding va [OF l] e .
  qed
  have pg: "paging_ok m1" using m1(2) by (simp add: fp_ok_def)
  have unmapped: "translate m1 (b + 0x1000 * of_nat k) = Inl (BadAccess (b + 0x1000 * of_nat k))"
      and nomap: "p \<noteq> 0 \<Longrightarrow> b + 0x1000 * of_nat k \<noteq> 0 \<Longrightarrow> mm_map_page V tid m1 p (b + 0x1000 * of_nat k) = Inr (- 1, m1)"
    if "k < 4" for k p
    using gone [OF that] map_present [OF pg, of tid p "b + 0x1000 * of_nat k" V] mm(2) m1(3)
    by (simp_all add: translate_eq [OF pg] present_def)
  have lost: "pages_lost V tid m1" using m1 mm(2,4) by (simp add: pages_lost_def)
  have run: "mm_free_stack V tid (b + c) info mm = Inr (info\<lparr>stacks_bitmaps := clear_slot (stacks_bitmaps info) s\<rparr>, m1)"
    using mm_free_stack_run [OF info slot sp] m1(1) by simp
  have bits: "slot_used (clear_slot (stacks_bitmaps info) s) r \<longleftrightarrow> r \<noteq> s \<and> slot_used (stacks_bitmaps info) r" for r
    by (rule clear_slot_used [OF slot(1)])
  show ?thesis
    by (rule exI [of _ "clear_slot (stacks_bitmaps info) s"], rule exI [of _ m1])
      (simp add: run bits unmapped lost lost_alloc nomap)
qed

definition example_free_mm :: mm_state where
  "example_free_mm = example_mm\<lparr>phys := (phys example_mm)(0x3010 := 0xA003, 0x3014 := 0xB003, 0x3018 := 0xC003, 0x301C := 0xD003)\<rparr>"

lemma example_free_mm_ok: "mm_ok 0xC0010000 2 example_free_mm [0x5000, 0x6000]" "table_frame example_free_mm = table_frame example_mm"
proof -
  have "\<not> table_frame example_mm p" if "p \<in> set [0x5000, 0x6000]" for p using that example_table by fastforce
  moreover have "free_chain (phys example_free_mm) (first_free_page example_free_mm) [0x5000, 0x6000]"
    by (simp add: example_free_mm_def example_mm_def page_aligned_def frame_def)
  moreover have "phys example_free_mm a = phys example_mm a" if "frame a = cr3 example_mm" for a
  proof -
    have "a \<notin> {0x3010, 0x3014, 0x3018, 0x301C}" using that by (auto simp: frame_def example_mm_def)
    then show ?thesis by (simp add: example_free_mm_def)
  qed
  moreover have "cr3 example_free_mm = cr3 example_mm" "mm_freepage_pte example_free_mm = mm_freepage_pte example_mm"
      "mm_mutex example_free_mm = mm_mutex example_mm" "distinct [0x5000, 0x6000 :: u32]"
    by (simp_all add: example_free_mm_def)
  ultimately show "mm_ok 0xC0010000 2 example_free_mm [0x5000, 0x6000]" "table_frame example_free_mm = table_frame example_mm"
    using mm_ok_update [OF example_mm_ok, of example_free_mm "[0x5000, 0x6000]"] by blast+
qed

theorem mm_free_stack_loses_pages_witness:
  "\<exists>bs mm m. mm_free_stack 0xC0010000 2 0x407F00 (example_ring_info\<lparr>stacks_start := 0x408000\<rparr>) example_free_mm
       = Inr (example_ring_info\<lparr>stacks_start := 0x408000, stacks_bitmaps := bs\<rparr>, mm)
     \<and> \<not> slot_used bs 0 \<and> mm_alloc_physical_page 0xC0010000 2 False mm = Inr (1, m)
     \<and> mm_map_page 0xC0010000 2 mm 0x5000 0x404000 = Inr (- 1, mm)"
proof -
  let ?i = "example_ring_info\<lparr>stacks_start := 0x408000\<rparr>" and ?b = "0x404000 :: u32"
  have l: "(1 :: u32) < 1024" by (simp add: word_less_nat_alt)
  have mm: "fp_ok 0xC0010000 example_free_mm" "mutex_ready 2 (mm_mutex example_free_mm)" "mtx_lock (mm_mutex example_free_mm) = 0"
      "\<not> table_frame example_free_mm 0"
    using example_free_mm_ok example_table [of 0] by (auto simp: mm_ok_def) (simp add: example_free_mm_def example_mm_def)
  have i: "stacks_semaphore ?i = 0" "stack_aligned (stacks_start ?i)" "0 < 32 * length (stacks_bitmaps ?i)"
      "(0 + 1) * 0x4000 \<le> unat (stacks_start ?i)"
    by (simp_all add: example_ring_info_def stack_aligned_def)
  have b: "?b = stack_base (stacks_start ?i) 0" by (simp add: stack_base_def)
  have pd: "pde example_free_mm 1 = 0x3003"
    using example_pde [OF l] by (simp add: pde_def example_free_mm_def example_mm_def)
  have pt: "pte example_free_mm 1 j = phys example_free_mm (0x3000 + 4 * j)" for j
    unfolding pte_def pd by (simp add: frame_def)
  have mp: "va_mapped 0xC0010000 example_free_mm va" if "va \<in> {0x400000, 0x404000, 0x405000, 0x406000, 0x407000}" for va
    using that pd pt by (auto simp: va_mapped_def va_tabled_def present_def example_free_mm_def example_mm_def)
  have k4: "?b + 0x1000 * of_nat k \<in> {0x404000, 0x405000, 0x406000, 0x407000}" if "k < 4" for k
  proof -
    have "k = 0 \<or> k = 1 \<or> k = 2 \<or> k = 3" using that by auto
    then show ?thesis by auto
  qed
  have p1: "va_mapped 0xC0010000 example_free_mm (?b + 0x1000 * of_nat k)" if "k < 4" for k using mp k4 [OF that] by blast
  have p2: "\<exists>x. dir_ix x = dir_ix (?b + 0x1000 * of_nat k) \<and> va_mapped 0xC0010000 example_free_mm x
      \<and> (\<forall>l < 4. frame x \<noteq> ?b + 0x1000 * of_nat l)" if "k < 4" for k
  proof (intro exI conjI)
    show "dir_ix 0x400000 = dir_ix (?b + 0x1000 * of_nat k)" using k4 [OF that] by auto
    show "va_mapped 0xC0010000 example_free_mm 0x400000" by (rule mp) simp
    show "\<forall>l < 4. frame 0x400000 \<noteq> ?b + 0x1000 * of_nat l"
    proof (intro allI impI)
      fix l :: nat assume "l < 4"
      then show "frame 0x400000 \<noteq> ?b + 0x1000 * of_nat l" using k4 [of l] by (auto simp: frame_def)
    qed
  qed
  have "\<exists>bs mm'. mm_free_stack 0xC0010000 2 (?b + 0x3F00) ?i example_free_mm = Inr (?i\<lparr>stacks_bitmaps := bs\<rparr>, mm')
    \<and> (\<forall>r. slot_used bs r \<longleftrightarrow> r \<noteq> 0 \<and> slot_used (stacks_bitmaps ?i) r) \<and> pages_lost 0xC0010000 2 mm'
    \<and> (\<forall>m. pages_lost 0xC0010000 2 m \<longrightarrow>
         (\<exists>m'. mm_alloc_physical_page 0xC0010000 2 False m = Inr (1, m') \<and> pages_lost 0xC0010000 2 m'))
    \<and> (\<forall>k < 4. \<forall>p. p \<noteq> 0 \<longrightarrow> ?b + 0x1000 * of_nat k \<noteq> 0 \<longrightarrow>
         mm_map_page 0xC0010000 2 mm' p (?b + 0x1000 * of_nat k) = Inr (- 1, mm'))"
    using mm_free_stack_loses_pages [OF mm i b _ _ p1 p2, of "0x3F00"] by auto
  then obtain bs mm' where r: "mm_free_stack 0xC0010000 2 (?b + 0x3F00) ?i example_free_mm = Inr (?i\<lparr>stacks_bitmaps := bs\<rparr>, mm')"
    "\<not> slot_used bs 0" "\<exists>m. mm_alloc_physical_page 0xC0010000 2 False mm' = Inr (1, m)"
    "\<forall>k < 4. \<forall>p. p \<noteq> 0 \<longrightarrow> ?b + 0x1000 * of_nat k \<noteq> 0 \<longrightarrow>
         mm_map_page 0xC0010000 2 mm' p (?b + 0x1000 * of_nat k) = Inr (- 1, mm')"
    by blast
  then show ?thesis using r(4) [rule_format, of 0 "0x5000"] by auto
qed

end
