(* ===== verification/Tty.thy ===== *)
theory Tty
  imports KString
begin

text \<open>
  The text console of \<open>kernel/src/arch/i386/tty.c\<close>: the cursor, the colour and the screen memory of the
  VGA text mode, one 16-bit cell for each of the 25 * 80 characters, as bytes of the address space.
\<close>

section \<open>Colours and cells\<close>

datatype vga_color = VGA_COLOR_BLACK | VGA_COLOR_BLUE | VGA_COLOR_GREEN | VGA_COLOR_CYAN | VGA_COLOR_RED
  | VGA_COLOR_MAGENTA | VGA_COLOR_BROWN | VGA_COLOR_LIGHT_GREY | VGA_COLOR_DARK_GREY | VGA_COLOR_LIGHT_BLUE
  | VGA_COLOR_LIGHT_GREEN | VGA_COLOR_LIGHT_CYAN | VGA_COLOR_LIGHT_RED | VGA_COLOR_LIGHT_MAGENTA
  | VGA_COLOR_LIGHT_BROWN | VGA_COLOR_WHITE

fun color_code :: "vga_color \<Rightarrow> u32" where
  "color_code VGA_COLOR_BLACK = 0"
| "color_code VGA_COLOR_BLUE = 1"
| "color_code VGA_COLOR_GREEN = 2"
| "color_code VGA_COLOR_CYAN = 3"
| "color_code VGA_COLOR_RED = 4"
| "color_code VGA_COLOR_MAGENTA = 5"
| "color_code VGA_COLOR_BROWN = 6"
| "color_code VGA_COLOR_LIGHT_GREY = 7"
| "color_code VGA_COLOR_DARK_GREY = 8"
| "color_code VGA_COLOR_LIGHT_BLUE = 9"
| "color_code VGA_COLOR_LIGHT_GREEN = 10"
| "color_code VGA_COLOR_LIGHT_CYAN = 11"
| "color_code VGA_COLOR_LIGHT_RED = 12"
| "color_code VGA_COLOR_LIGHT_MAGENTA = 13"
| "color_code VGA_COLOR_LIGHT_BROWN = 14"
| "color_code VGA_COLOR_WHITE = 15"

definition vga_entry_color :: "vga_color \<Rightarrow> vga_color \<Rightarrow> u8" where
  "vga_entry_color fg bg = ucast (color_code fg OR push_bit 4 (color_code bg))"

definition vga_entry :: "u8 \<Rightarrow> u8 \<Rightarrow> u16" where
  "vga_entry uc color = ucast uc OR push_bit 8 (ucast color)"

definition VGA_WIDTH :: u32 where "VGA_WIDTH = 80"
definition VGA_HEIGHT :: u32 where "VGA_HEIGHT = 25"

section \<open>The console\<close>

record tty =
  terminal_row :: u32
  terminal_column :: u32
  terminal_color :: u8
  terminal_buffer :: u32
  tty_mem :: mem

definition load16 :: "mem \<Rightarrow> u32 \<Rightarrow> u16" where
  "load16 m p = ucast (m p) OR push_bit 8 (ucast (m (p + 1)))"

definition store16 :: "mem \<Rightarrow> u32 \<Rightarrow> u16 \<Rightarrow> mem" where
  "store16 m p v = m(p := ucast v, p + 1 := ucast (drop_bit 8 v))"

text \<open>\<open>terminal_buffer[index] = v\<close>\<close>

definition set_cell :: "u32 \<Rightarrow> u16 \<Rightarrow> tty \<Rightarrow> tty" where
  "set_cell index v st = st\<lparr>tty_mem := store16 (tty_mem st) (terminal_buffer st + 2 * index) v\<rparr>"

definition clear_line :: "u32 \<Rightarrow> tty \<Rightarrow> tty" where
  "clear_line y st = fold (\<lambda>x st. set_cell (y * VGA_WIDTH + of_nat x) (vga_entry 32 (terminal_color st)) st)
     [0..<unat VGA_WIDTH] st"

definition terminal_initialize :: "tty \<Rightarrow> tty" where
  "terminal_initialize st =
     (let st = st\<lparr>terminal_row := 0, terminal_column := 0,
                 terminal_color := vga_entry_color VGA_COLOR_GREEN VGA_COLOR_BLACK,
                 terminal_buffer := 0xB8000 + 0xC0000000\<rparr>
      in fold (\<lambda>y st. clear_line (of_nat y) st) [0..<unat VGA_HEIGHT] st)"

definition terminal_setcolor :: "u8 \<Rightarrow> tty \<Rightarrow> tty" where
  "terminal_setcolor color st = st\<lparr>terminal_color := color\<rparr>"

definition terminal_putentryat :: "u8 \<Rightarrow> u8 \<Rightarrow> u32 \<Rightarrow> u32 \<Rightarrow> tty \<Rightarrow> tty" where
  "terminal_putentryat c color x y st = set_cell (y * VGA_WIDTH + x) (vga_entry c color) st"

definition scroll_up :: "tty \<Rightarrow> tty" where
  "scroll_up st =
     (let st = st\<lparr>terminal_row := VGA_HEIGHT - 1\<rparr>;
          st = st\<lparr>tty_mem := snd (memcpy (tty_mem st) (terminal_buffer st) (terminal_buffer st + 2 * VGA_WIDTH)
                                   (2 * (VGA_HEIGHT - 1) * VGA_WIDTH))\<rparr>
      in clear_line (VGA_HEIGHT - 1) st)"

text \<open>The column advances only when \<open>c\<close> is not a line feed (10), whose test comes first.\<close>

definition terminal_putchar :: "u8 \<Rightarrow> tty \<Rightarrow> tty" where
  "terminal_putchar c st =
     (let st = (if c \<noteq> 10 then terminal_putentryat c (terminal_color st) (terminal_column st) (terminal_row st) st else st);
          st = (if c = 10 then st else st\<lparr>terminal_column := terminal_column st + 1\<rparr>)
      in if c = 10 \<or> terminal_column st = VGA_WIDTH then
           let st = st\<lparr>terminal_column := 0\<rparr>;
               st = st\<lparr>terminal_row := terminal_row st + 1\<rparr>
           in if terminal_row st = VGA_HEIGHT then scroll_up st else st
         else st)"

function terminal_write_loop :: "u32 \<Rightarrow> u32 \<Rightarrow> u32 \<Rightarrow> tty \<Rightarrow> tty" where
  "terminal_write_loop data sz i st =
     (if i < sz then terminal_write_loop data sz (i + 1) (terminal_putchar (tty_mem st (data + i)) st) else st)"
  by pat_completeness auto
termination
  by (relation "measure (\<lambda>(data, sz, i, st). unat sz - unat i)") (auto simp: unat_plus_one word_less_nat_alt)

definition terminal_write :: "u32 \<Rightarrow> u32 \<Rightarrow> tty \<Rightarrow> tty" where
  "terminal_write data sz st = terminal_write_loop data sz 0 st"

definition terminal_writestring :: "u32 \<Rightarrow> tty \<Rightarrow> tty option" where
  "terminal_writestring data st = map_option (\<lambda>n. terminal_write data n st) (strlen (tty_mem st) data)"

declare terminal_write_loop.simps [simp del]

section \<open>The screen\<close>

text \<open>The cells of the screen, line after line, and the bytes they are made of.\<close>

definition screen :: "tty \<Rightarrow> u16 list" where
  "screen st = map (\<lambda>i. load16 (tty_mem st) (terminal_buffer st + of_nat (2 * i))) [0..<2000]"

definition on_screen :: "tty \<Rightarrow> u32 \<Rightarrow> bool" where
  "on_screen st a \<longleftrightarrow> unat (a - terminal_buffer st) < 4000"

definition tty_ok :: "tty \<Rightarrow> bool" where
  "tty_ok st \<longleftrightarrow> unat (terminal_row st) < 25 \<and> unat (terminal_column st) < 80"

text \<open>The console as the user sees it: cells, line and column of the cursor, colour.\<close>

type_synonym console = "u16 list \<times> nat \<times> nat \<times> u8"

definition console :: "tty \<Rightarrow> console" where
  "console st = (screen st, unat (terminal_row st), unat (terminal_column st), terminal_color st)"

text \<open>Typing a character on a console of 25 lines of 80 columns, which scrolls at its end.\<close>

fun type_char :: "u8 \<Rightarrow> console \<Rightarrow> console" where
  "type_char c (cells, row, col, color) =
     (let cells = (if c = 10 then cells else cells[80 * row + col := vga_entry c color])
      in if c = 10 \<or> col = 79 then
           if row = 24 then (drop 80 cells @ replicate 80 (vga_entry 32 color), 24, 0, color)
           else (cells, row + 1, 0, color)
         else (cells, row, col + 1, color))"

lemma length_screen [simp]: "length (screen st) = 2000"
  by (simp add: screen_def)

lemma screen_nth: "i < 2000 \<Longrightarrow> screen st ! i = load16 (tty_mem st) (terminal_buffer st + of_nat (2 * i))"
  by (simp add: screen_def)

section \<open>Cells in memory\<close>

lemma load16_bytes: "ucast (ucast v :: u8) OR push_bit 8 (ucast (ucast (drop_bit 8 v) :: u8)) = v" for v :: u16
proof (rule bit_word_eqI)
  fix n assume n: "n < LENGTH(16)"
  then consider "n < 8" | "8 \<le> n" "n < 16" by force
  then show "bit (ucast (ucast v :: u8) OR push_bit 8 (ucast (ucast (drop_bit 8 v) :: u8)) :: u16) n = bit v n"
    by cases (auto simp: bit_simps)
qed

lemma load16_store16: "load16 (store16 m p v) p = v"
  by (simp add: load16_def store16_def load16_bytes)

lemma offset_inj: "i < 4000 \<Longrightarrow> j < 4000 \<Longrightarrow> (b :: u32) + of_nat i = b + of_nat j \<longleftrightarrow> i = j"
  by (simp add: of_nat_u32_inj)

lemma load16_store16_cell:
  assumes "i < 2000" "j < 2000"
  shows "load16 (store16 m (b + of_nat (2 * i)) v) (b + of_nat (2 * j)) = (if i = j then v else load16 m (b + of_nat (2 * j)))"
proof (cases "i = j")
  case True
  then show ?thesis by (simp only: load16_store16) simp
next
  case False
  have s: "b + of_nat (2 * k) + 1 = b + of_nat (2 * k + 1)" for k by simp
  have "2 * i \<noteq> 2 * j" "2 * i + 1 \<noteq> 2 * j" "2 * i \<noteq> 2 * j + 1" "2 * i + 1 \<noteq> 2 * j + 1" using False by arith+
  moreover have "2 * k + 1 < 4000" "2 * k < 4000" if "k < 2000" for k :: nat using that by simp_all
  ultimately have "b + of_nat (2 * j) \<noteq> b + of_nat (2 * i)" "b + of_nat (2 * j) \<noteq> b + of_nat (2 * i + 1)"
      "b + of_nat (2 * j + 1) \<noteq> b + of_nat (2 * i)" "b + of_nat (2 * j + 1) \<noteq> b + of_nat (2 * i + 1)"
    using assms by (simp_all only: offset_inj not_False_eq_True)
  then show ?thesis using False by (simp only: load16_def store16_def s) simp
qed

lemma set_cell_screen:
  assumes "i < 2000"
  shows "screen (set_cell (of_nat i) v st) = (screen st)[i := v]"
proof (rule nth_equalityI)
  fix j assume j: "j < length (screen (set_cell (of_nat i) v st))"
  have "2 * of_nat i = (of_nat (2 * i) :: u32)" by simp
  then show "screen (set_cell (of_nat i) v st) ! j = (screen st)[i := v] ! j"
    using assms j load16_store16_cell [of i j "tty_mem st" "terminal_buffer st" v]
    by (auto simp: screen_nth set_cell_def nth_list_update simp del: of_nat_mult)
qed simp

lemma set_cell_fields [simp]:
  "terminal_row (set_cell i v st) = terminal_row st" "terminal_column (set_cell i v st) = terminal_column st"
  "terminal_color (set_cell i v st) = terminal_color st" "terminal_buffer (set_cell i v st) = terminal_buffer st"
  by (simp_all add: set_cell_def)

text \<open>Nothing outside the screen is written.\<close>

definition same_outside :: "tty \<Rightarrow> tty \<Rightarrow> bool" where
  "same_outside st st' \<longleftrightarrow> terminal_buffer st' = terminal_buffer st
     \<and> (\<forall>a. \<not> on_screen st a \<longrightarrow> tty_mem st' a = tty_mem st a)"

lemma same_outside_refl [simp]: "same_outside st st"
  by (simp add: same_outside_def)

lemma same_outside_trans: "same_outside st st1 \<Longrightarrow> same_outside st1 st2 \<Longrightarrow> same_outside st st2"
  by (simp add: same_outside_def on_screen_def)

lemma on_screen_offset: "k < 4000 \<Longrightarrow> on_screen st (terminal_buffer st + of_nat k)"
  by (simp add: on_screen_def unat_of_nat)

lemma set_cell_outside:
  assumes "i < 2000"
  shows "same_outside st (set_cell (of_nat i) v st)"
proof -
  have i: "2 * i < 4000" "2 * i + 1 < 4000" using assms by simp_all
  have e: "2 * of_nat i = (of_nat (2 * i) :: u32)" "terminal_buffer st + of_nat (2 * i) + 1 = terminal_buffer st + of_nat (2 * i + 1)"
    by simp_all
  have "a \<noteq> terminal_buffer st + of_nat (2 * i)" "a \<noteq> terminal_buffer st + of_nat (2 * i + 1)"
    if "\<not> on_screen st a" for a
    using that on_screen_offset [OF i(1), of st] on_screen_offset [OF i(2), of st] by metis+
  then show ?thesis unfolding same_outside_def set_cell_def store16_def e by simp
qed

section \<open>Lines\<close>

lemma cell_index: "(of_nat y :: u32) * VGA_WIDTH + of_nat x = of_nat (80 * y + x)"
  by (simp add: VGA_WIDTH_def)

lemma unat_VGA [simp]: "unat VGA_WIDTH = 80" "unat VGA_HEIGHT = 25"
  by (simp_all add: VGA_WIDTH_def VGA_HEIGHT_def)

lemma line_index: "y < 25 \<Longrightarrow> x < 80 \<Longrightarrow> 80 * y + x < (2000::nat)"
  by linarith

text \<open>The fields other than the bytes of the screen.\<close>

definition same_cursor :: "tty \<Rightarrow> tty \<Rightarrow> bool" where
  "same_cursor st st' \<longleftrightarrow> terminal_row st' = terminal_row st \<and> terminal_column st' = terminal_column st
     \<and> terminal_color st' = terminal_color st"

lemma clear_prefix:
  fixes st :: tty
  assumes "y < 25" "n \<le> 80"
  defines "st' \<equiv> fold (\<lambda>x st. set_cell (of_nat y * VGA_WIDTH + of_nat x) (vga_entry 32 (terminal_color st)) st) [0..<n] st"
  shows "screen st' = take (80 * y) (screen st) @ replicate n (vga_entry 32 (terminal_color st)) @ drop (80 * y + n) (screen st)
    \<and> same_cursor st st' \<and> same_outside st st'"
  using assms(2) unfolding st'_def
proof (induction n)
  case 0
  then show ?case by (simp add: same_cursor_def)
next
  case (Suc n)
  let ?f = "\<lambda>x st. set_cell (of_nat y * VGA_WIDTH + of_nat x) (vga_entry 32 (terminal_color st)) st"
  let ?s = "fold ?f [0..<n] st" and ?v = "vga_entry 32 (terminal_color st)"
  have ih: "screen ?s = take (80 * y) (screen st) @ replicate n ?v @ drop (80 * y + n) (screen st)"
      "same_cursor st ?s" "same_outside st ?s" using Suc by simp_all
  have i: "80 * y + n < 2000" using assms(1) Suc.prems by linarith
  have f: "fold ?f [0..<Suc n] st = set_cell (of_nat (80 * y + n)) ?v ?s"
    using ih(2) by (simp add: cell_index same_cursor_def del: of_nat_add of_nat_mult)
  have "drop (80 * y + n) (screen st) = screen st ! (80 * y + n) # drop (Suc (80 * y + n)) (screen st)"
    using i by (intro Cons_nth_drop_Suc [symmetric]) simp
  then have "(screen ?s)[80 * y + n := ?v] = take (80 * y) (screen st) @ replicate (Suc n) ?v @ drop (80 * y + Suc n) (screen st)"
    using i unfolding ih(1) by (simp add: list_update_append replicate_append_same [symmetric])
  then show ?case
    unfolding f set_cell_screen [OF i]
    using ih(2,3) same_outside_trans [OF ih(3) set_cell_outside [OF i]] by (simp add: same_cursor_def)
qed

lemma clear_line_screen:
  assumes "y < 25"
  shows "screen (clear_line (of_nat y) st) = take (80 * y) (screen st) @ replicate 80 (vga_entry 32 (terminal_color st)) @ drop (80 * y + 80) (screen st)"
    and "same_cursor st (clear_line (of_nat y) st)" and "same_outside st (clear_line (of_nat y) st)"
  using clear_prefix [OF assms, of 80 st] by (simp_all add: clear_line_def)

section \<open>Scrolling\<close>

text \<open>
  The regions of the \<open>memcpy\<close> overlap; copying upwards from the lower address still gives the right
  bytes.
\<close>

lemma scroll_bytes:
  "snd (memcpy m b (b + 2 * VGA_WIDTH) (2 * (VGA_HEIGHT - 1) * VGA_WIDTH)) = (\<lambda>a. if a - b < 3840 then m (b + 160 + (a - b)) else m a)"
proof -
  have "b - (b + 160) = (- 160 :: u32)" by simp
  then have "(3840 :: u32) \<le> b - (b + 160)" by simp
  then show ?thesis by (simp add: memcpy_def memcpy_loop_eq VGA_WIDTH_def VGA_HEIGHT_def)
qed

lemma scroll_up_screen:
  "screen (scroll_up st) = drop 80 (screen st) @ replicate 80 (vga_entry 32 (terminal_color st))"
  "terminal_row (scroll_up st) = 24" "terminal_column (scroll_up st) = terminal_column st"
  "terminal_color (scroll_up st) = terminal_color st" "same_outside st (scroll_up st)"
proof -
  define m1 where "m1 = snd (memcpy (tty_mem st) (terminal_buffer st) (terminal_buffer st + 2 * VGA_WIDTH) (2 * (VGA_HEIGHT - 1) * VGA_WIDTH))"
  have m1: "m1 = (\<lambda>a. if a - terminal_buffer st < 3840 then tty_mem st (terminal_buffer st + 160 + (a - terminal_buffer st)) else tty_mem st a)"
    unfolding m1_def by (rule scroll_bytes)
  define s1 where "s1 = st\<lparr>terminal_row := 24, tty_mem := m1\<rparr>"
  have run: "scroll_up st = clear_line (of_nat 24) s1"
    by (simp add: scroll_up_def s1_def m1_def VGA_HEIGHT_def VGA_WIDTH_def)
  have m: "tty_mem s1 (terminal_buffer st + of_nat k) = tty_mem st (terminal_buffer st + of_nat (k + 160))" if "k < 3840" for k
  proof -
    have "(of_nat k :: u32) < 3840" using that by (simp add: word_less_nat_alt unat_of_nat)
    then show ?thesis by (simp add: s1_def m1 add_ac)
  qed
  have "screen s1 ! i = screen st ! (i + 80)" if "i < 1920" for i
  proof -
    have k: "2 * i < 3840" "2 * i + 1 < 3840" using that by simp_all
    have b: "terminal_buffer s1 = terminal_buffer st" by (simp add: s1_def)
    have p: "terminal_buffer st + of_nat j + 1 = terminal_buffer st + of_nat (j + 1)" for j by simp
    have e: "2 * i + 160 = 2 * (i + 80)" "2 * i + 1 + 160 = 2 * (i + 80) + 1" by simp_all
    have "i < 2000" "i + 80 < 2000" using that by simp_all
    then show ?thesis
      unfolding screen_nth [OF \<open>i < 2000\<close>] screen_nth [OF \<open>i + 80 < 2000\<close>] load16_def b p m [OF k(1)] m [OF k(2)] e by simp
  qed
  then have t: "take 1920 (screen s1) = drop 80 (screen st)"
    by (intro nth_equalityI) (simp_all add: add.commute)
  note c = clear_line_screen [of 24 s1]
  show "screen (scroll_up st) = drop 80 (screen st) @ replicate 80 (vga_entry 32 (terminal_color st))"
    using c(1) t unfolding run by (simp add: s1_def)
  show "terminal_row (scroll_up st) = 24" "terminal_column (scroll_up st) = terminal_column st"
    "terminal_color (scroll_up st) = terminal_color st"
    using c(2) unfolding run same_cursor_def by (simp_all add: s1_def)
  have "same_outside st s1"
    by (auto simp: same_outside_def on_screen_def s1_def m1 word_less_nat_alt)
  then show "same_outside st (scroll_up st)"
    using c(3) unfolding run by (auto intro: same_outside_trans)
qed

section \<open>Characters\<close>

lemma putchar_run:
  assumes ok: "tty_ok st"
  shows "console (terminal_putchar c st) = type_char c (console st)" and "tty_ok (terminal_putchar c st)"
    and "same_outside st (terminal_putchar c st)"
proof -
  let ?r = "unat (terminal_row st)" and ?k = "unat (terminal_column st)"
  have rk: "?r < 25" "?k < 80" using ok by (simp_all add: tty_ok_def)
  note i = line_index [OF rk]
  have w: "terminal_row st * VGA_WIDTH + terminal_column st = of_nat (80 * ?r + ?k)"
    using cell_index [of ?r ?k] by simp
  define s1 where "s1 = (if c = 10 then st else set_cell (of_nat (80 * ?r + ?k)) (vga_entry c (terminal_color st)) st)"
  have s1: "terminal_row s1 = terminal_row st" "terminal_column s1 = terminal_column st" "terminal_color s1 = terminal_color st"
      "same_outside st s1" "screen s1 = (if c = 10 then screen st else (screen st)[80 * ?r + ?k := vga_entry c (terminal_color st)])"
    using set_cell_outside [OF i] set_cell_screen [OF i] by (simp_all add: s1_def)
  have uc: "unat (terminal_column st + 1) = ?k + 1" "unat (terminal_row st + 1) = ?r + 1"
    using rk by (simp_all add: unat_add_small)
  have ends: "terminal_column st + 1 = VGA_WIDTH \<longleftrightarrow> ?k = 79" "terminal_row st + 1 = VGA_HEIGHT \<longleftrightarrow> ?r = 24"
    unfolding word_eq_unat_iff uc by simp_all
  define nl where "nl \<longleftrightarrow> c = 10 \<or> ?k = 79"
  define s2 where "s2 = s1\<lparr>terminal_column := 0, terminal_row := terminal_row st + 1\<rparr>"
  have run: "terminal_putchar c st =
      (if nl then if ?r = 24 then scroll_up s2 else s2 else s1\<lparr>terminal_column := terminal_column st + 1\<rparr>)"
    using s1(1,2) ends by (simp add: terminal_putchar_def terminal_putentryat_def w s1_def s2_def nl_def Let_def)
  have scr: "screen (s1\<lparr>terminal_column := x\<rparr>) = screen s1" "screen s2 = screen s1" for x
    by (simp_all add: screen_def s2_def)
  have so: "same_outside st (s1\<lparr>terminal_column := x\<rparr>)" "same_outside st s2" for x
    using s1(4) by (simp_all add: same_outside_def s2_def)
  have f2: "terminal_column s2 = 0" "terminal_color s2 = terminal_color st" "terminal_row s2 = terminal_row st + 1"
    using s1(3) by (simp_all add: s2_def)
  show "console (terminal_putchar c st) = type_char c (console st)"
    using s1 scr f2 uc scroll_up_screen [of s2] unfolding run by (auto simp: console_def nl_def)
  show "tty_ok (terminal_putchar c st)"
    using s1(1,2) f2 uc rk scroll_up_screen [of s2] unfolding run by (auto simp: tty_ok_def nl_def)
  show "same_outside st (terminal_putchar c st)"
    using so same_outside_trans [OF so(2) scroll_up_screen(5)] unfolding run by auto
qed

lemma putchar_fold:
  assumes "tty_ok st"
  shows "console (fold terminal_putchar cs st) = fold type_char cs (console st) \<and> tty_ok (fold terminal_putchar cs st)
    \<and> same_outside st (fold terminal_putchar cs st)"
  using assms
proof (induction cs arbitrary: st)
  case (Cons c cs)
  note 1 = putchar_run [OF Cons.prems, of c]
  show ?case using Cons.IH [OF 1(2)] 1(1,3) by (auto intro: same_outside_trans)
qed simp

text \<open>A text outside the screen is read as it was, whatever has been written of it.\<close>

lemma write_loop_fold:
  assumes "tty_ok st" "unat sz = unat i + length cs" "\<And>k. k < length cs \<Longrightarrow> \<not> on_screen st (data + i + of_nat k)"
    "\<And>k. k < length cs \<Longrightarrow> tty_mem st (data + i + of_nat k) = cs ! k"
  shows "terminal_write_loop data sz i st = fold terminal_putchar cs st"
  using assms
proof (induction cs arbitrary: i st)
  case Nil
  then have "\<not> i < sz" by (simp add: word_less_nat_alt)
  then show ?case by (subst terminal_write_loop.simps) simp
next
  case (Cons c cs)
  have less: "i < sz" using Cons.prems(2) by (simp add: word_less_nat_alt)
  have c: "tty_mem st (data + i) = c" using Cons.prems(4) [of 0] by simp
  note 1 = putchar_run [OF Cons.prems(1), of c]
  have k: "data + (i + 1) + of_nat k = data + i + of_nat (Suc k)" for k by (simp add: algebra_simps)
  have "terminal_write_loop data sz (i + 1) (terminal_putchar c st) = fold terminal_putchar cs (terminal_putchar c st)"
  proof (rule Cons.IH [OF 1(2)])
    show "unat sz = unat (i + 1) + length cs" using Cons.prems(2) unat_plus_one [OF less] by simp
    fix k assume kl: "k < length cs"
    then have "\<not> on_screen st (data + i + of_nat (Suc k))" "tty_mem st (data + i + of_nat (Suc k)) = cs ! k"
      using Cons.prems(3) [of "Suc k"] Cons.prems(4) [of "Suc k"] by simp_all
    then show "\<not> on_screen (terminal_putchar c st) (data + (i + 1) + of_nat k)"
      "tty_mem (terminal_putchar c st) (data + (i + 1) + of_nat k) = cs ! k"
      using 1(3) unfolding k by (simp_all add: same_outside_def on_screen_def)
  qed
  then show ?case using less c by (subst terminal_write_loop.simps) simp
qed


section \<open>Initialisation\<close>

lemma clear_lines:
  assumes "n \<le> 25"
  shows "screen (fold (\<lambda>y st. clear_line (of_nat y) st) [0..<n] st) = replicate (80 * n) (vga_entry 32 (terminal_color st)) @ drop (80 * n) (screen st)
    \<and> same_cursor st (fold (\<lambda>y st. clear_line (of_nat y) st) [0..<n] st)
    \<and> same_outside st (fold (\<lambda>y st. clear_line (of_nat y) st) [0..<n] st)"
  using assms
proof (induction n)
  case 0
  then show ?case by (simp add: same_cursor_def)
next
  case (Suc n)
  let ?s = "fold (\<lambda>y st. clear_line (of_nat y) st) [0..<n] st" and ?v = "vga_entry 32 (terminal_color st)"
  have ih: "screen ?s = replicate (80 * n) ?v @ drop (80 * n) (screen st)" "same_cursor st ?s" "same_outside st ?s"
    using Suc by simp_all
  have n: "n < 25" "80 * n + 80 = 80 * Suc n" using Suc.prems by simp_all
  note c = clear_line_screen [OF n(1), of ?s]
  have "screen (clear_line (of_nat n) ?s) = replicate (80 * n) ?v @ replicate 80 ?v @ drop (80 * Suc n) (screen st)"
    using c(1) ih(1,2) n by (simp add: same_cursor_def)
  also have "replicate (80 * n) ?v @ replicate 80 ?v @ drop (80 * Suc n) (screen st) = replicate (80 * Suc n) ?v @ drop (80 * Suc n) (screen st)"
    using replicate_add [of "80 * n" 80 ?v] n(2) by (simp add: add.commute)
  finally show ?case
    using ih(2,3) c(2,3) same_outside_trans by (auto simp: same_cursor_def)
qed

lemma initialize_run:
  "tty_ok (terminal_initialize st)" "terminal_buffer (terminal_initialize st) = 0xC00B8000"
  "console (terminal_initialize st) = (replicate 2000 (vga_entry 32 2), 0, 0, 2)"
  "unat (a - 0xC00B8000) \<ge> 4000 \<Longrightarrow> tty_mem (terminal_initialize st) a = tty_mem st a"
proof -
  let ?s = "st\<lparr>terminal_row := 0, terminal_column := 0, terminal_color := vga_entry_color VGA_COLOR_GREEN VGA_COLOR_BLACK,
      terminal_buffer := 0xC00B8000\<rparr>"
  have run: "terminal_initialize st = fold (\<lambda>y st. clear_line (of_nat y) st) [0..<25] ?s"
    by (simp add: terminal_initialize_def)
  have g: "vga_entry_color VGA_COLOR_GREEN VGA_COLOR_BLACK = 2" by (simp add: vga_entry_color_def)
  note c = clear_lines [of 25 ?s, folded run]
  show "tty_ok (terminal_initialize st)" "terminal_buffer (terminal_initialize st) = 0xC00B8000"
    "console (terminal_initialize st) = (replicate 2000 (vga_entry 32 2), 0, 0, 2)"
    using c g by (simp_all add: tty_ok_def console_def same_cursor_def same_outside_def)
  show "tty_mem (terminal_initialize st) a = tty_mem st a" if "unat (a - 0xC00B8000) \<ge> 4000"
    using c that by (simp add: same_outside_def on_screen_def)
qed

section \<open>Properties\<close>

text \<open>
  C32. Whatever is written, and however often, the cursor of the console stays on the screen of 25 lines
  of 80 columns, the buffer stays where it is and no byte outside the 4000 bytes of the screen changes;
  the console starts with a blank screen and the cursor at its top left corner.
\<close>

theorem terminal_stays_on_screen:
  "tty_ok (fold terminal_putchar cs (terminal_initialize st))
    \<and> terminal_buffer (fold terminal_putchar cs (terminal_initialize st)) = 0xC00B8000
    \<and> (unat (a - 0xC00B8000) < 4000 \<or> tty_mem (fold terminal_putchar cs (terminal_initialize st)) a = tty_mem st a)
    \<and> console (terminal_initialize st) = (replicate 2000 (vga_entry 32 2), 0, 0, 2)"
  using putchar_fold [OF initialize_run(1) [of st], of cs] initialize_run(2,3) [of st] initialize_run(4) [of a st]
  by (cases "unat (a - 0xC00B8000) < 4000") (simp_all add: same_outside_def on_screen_def)

text \<open>
  C31. \<open>terminal_putchar\<close> types a character as on a console of 25 lines of 80 columns: the character
  appears at the cursor with the current colour, a line feed or the end of a line takes the cursor to
  the next line, and at the end of the screen all lines move up by one and the last one is blank,
  although the \<open>memcpy\<close> that moves them has overlapping arguments. Nothing else is written.
\<close>

theorem terminal_putchar_correct:
  assumes "tty_ok st"
  shows "console (terminal_putchar c st) = type_char c (console st) \<and> tty_ok (terminal_putchar c st)
    \<and> same_outside st (terminal_putchar c st)"
  using putchar_run [OF assms] by blast

theorem terminal_putchar_correct_witness:
  "console (terminal_putchar 65 (terminal_initialize \<lparr>terminal_row = 3, terminal_column = 9, terminal_color = 7,
      terminal_buffer = 0, tty_mem = (\<lambda>_. 0)\<rparr>)) = ((replicate 2000 (vga_entry 32 2))[0 := vga_entry 65 2], 0, 1, 2)"
  using terminal_putchar_correct [OF initialize_run(1), where c = 65] by (simp add: initialize_run)

end
