(* ===== verification/Arith64.thy ===== *)
theory Arith64
  imports Prelude "HOL-Library.Signed_Division"
begin

text \<open>
  The 64-bit division routines of \<open>libk/src/arch/i386/arithmetic.c\<close>, which the compiler calls
  for \<open>/\<close> and \<open>%\<close> on 64-bit operands. A signed operand is a \<open>64 word\<close> read with \<open>sint\<close>;
  a division by zero and a quotient that does not fit the \<open>DIVL\<close> instruction are the
  \<open>#DE\<close> exception.
\<close>

section \<open>The routines\<close>

text \<open>
  \<open>divl\<close>: the x86 instruction divides the 64-bit value EDX:EAX by a 32-bit operand and traps
  when the operand is zero or when the quotient does not fit 32 bits.
\<close>

definition divl :: "u64 \<Rightarrow> u32 \<Rightarrow> u32 result" where
  "divl n d =
     (let n1 = ucast (drop_bit 32 n) :: u32;
          n0 = ucast n :: u32
      in if d = 0 then Inl DivideError
         else let q = (push_bit 32 (ucast n1) + ucast n0 :: u64) div ucast d
              in if q < 4294967296 then Inr (ucast q) else Inl DivideError)"

text \<open>One test of \<open>nlz\<close>: \<open>if (x <= bound) { n += k; x <<= k; }\<close>.\<close>

definition nlz_stage :: "u32 \<Rightarrow> nat \<Rightarrow> nat \<times> u32 \<Rightarrow> nat \<times> u32" where
  "nlz_stage bound k s =
     (case s of (n, x) \<Rightarrow> if x \<le> bound then (n + k, push_bit k x) else (n, x))"

definition nlz :: "u32 \<Rightarrow> nat" where
  "nlz x =
     (let s = (0, x);
          s = nlz_stage 0x0000FFFF 16 s;
          s = nlz_stage 0x00FFFFFF 8 s;
          s = nlz_stage 0x0FFFFFFF 4 s;
          s = nlz_stage 0x3FFFFFFF 2 s
      in if snd s \<le> 0x7FFFFFFF then fst s + 1 else fst s)"

definition udiv64 :: "u64 \<Rightarrow> u64 \<Rightarrow> u64 result" where
  "udiv64 n d =
     (if drop_bit 32 d = 0 then
        let b = 4294967296 :: u64;
            n1 = ucast (drop_bit 32 n) :: u32;
            n0 = ucast n :: u32;
            d0 = ucast d :: u32
        in if d0 = 0 then Inl DivideError
           else bindE (divl (b * ucast (n1 mod d0) + ucast n0) d0)
                  (\<lambda>q. Inr (ucast q + b * ucast (n1 div d0)))
      else if n < d then Inr 0
      else
        let d1 = ucast (drop_bit 32 d) :: u32;
            s = nlz d1
        in bindE (divl (drop_bit 1 n) (ucast (drop_bit 32 (push_bit s d))))
             (\<lambda>q0. let q = ucast (drop_bit (31 - s) q0) :: u64
                   in Inr (if n - (q - 1) * d < d then q - 1 else q)))"

text \<open>\<open>umod64\<close> returns a \<open>uint32_t\<close>: the remainder is truncated to 32 bits.\<close>

definition umod64 :: "u64 \<Rightarrow> u64 \<Rightarrow> u32 result" where
  "umod64 n d = bindE (udiv64 n d) (\<lambda>q. Inr (ucast (n - d * q)))"

definition sdiv64 :: "u64 \<Rightarrow> u64 \<Rightarrow> u64 result" where
  "sdiv64 n d =
     (let n_abs = (if 0 \<le> sint n then n else - n);
          d_abs = (if 0 \<le> sint d then d else - d)
      in bindE (udiv64 n_abs d_abs)
           (\<lambda>q_abs. Inr (if (sint n < 0) = (sint d < 0) then q_abs else - q_abs)))"

text \<open>\<open>smod64\<close> returns an \<open>int32_t\<close>, so it too keeps the low 32 bits only.\<close>

definition smod64 :: "u64 \<Rightarrow> u64 \<Rightarrow> u32 result" where
  "smod64 n d = bindE (sdiv64 n d) (\<lambda>q. Inr (ucast (n - d * q)))"

text \<open>The entry points the compiler calls: the 32-bit remainders are widened again.\<close>

definition divdi3 :: "u64 \<Rightarrow> u64 \<Rightarrow> u64 result" where
  "divdi3 n d = sdiv64 n d"

definition moddi3 :: "u64 \<Rightarrow> u64 \<Rightarrow> u64 result" where
  "moddi3 n d = bindE (smod64 n d) (\<lambda>r. Inr (scast r))"

definition udivdi3 :: "u64 \<Rightarrow> u64 \<Rightarrow> u64 result" where
  "udivdi3 n d = udiv64 n d"

definition umoddi3 :: "u64 \<Rightarrow> u64 \<Rightarrow> u64 result" where
  "umoddi3 n d = bindE (umod64 n d) (\<lambda>r. Inr (ucast r))"

section \<open>The DIVL instruction\<close>

lemma join_halves: "(push_bit 32 (ucast (ucast (drop_bit 32 n) :: u32)) + ucast (ucast n :: u32) :: u64) = n"
proof -
  have lo: "unat (ucast (ucast n :: u32) :: u64) = unat n mod 4294967296"
    by (simp add: word_nat)
  have hi: "unat (push_bit 32 (ucast (ucast (drop_bit 32 n) :: u32)) :: u64)
      = 4294967296 * (unat n div 4294967296)"
  proof -
    have "unat n div 4294967296 < 4294967296"
      using unat_u64_bound [of n] by (simp add: less_mult_imp_div_less)
    then show ?thesis by (simp add: word_nat)
  qed
  have "unat (push_bit 32 (ucast (ucast (drop_bit 32 n) :: u32)) :: u64)
      + unat (ucast (ucast n :: u32) :: u64) = unat n"
    by (simp only: lo hi) simp
  then show ?thesis
    by (simp add: word_eq_unat_iff unat_add_small)
qed

lemma divl_eq:
  "divl n d = (if d = 0 \<or> unat n div unat d \<ge> 4294967296 then Inl DivideError
               else Inr (ucast (n div ucast d)))"
proof -
  have "(n div ucast d < 4294967296) = (unat n div unat d < 4294967296)"
    by (simp add: word_less_nat_alt word_nat)
  then show ?thesis
    by (auto simp: divl_def Let_def join_halves)
qed

lemma divl_ok:
  assumes "d \<noteq> 0" and "unat n div unat d < 4294967296"
  shows "\<exists>q. divl n d = Inr q \<and> unat q = unat n div unat d"
  using assms by (simp add: divl_eq word_nat)

section \<open>Counting leading zeros\<close>

lemma nlz_stage_ok:
  assumes s: "nlz_stage bound k (n, x) = (n', x')"
    and bound: "unat bound + 1 = 2 ^ (32 - k)" and k: "k \<le> 16"
    and low: "2 ^ (32 - 2 * k) \<le> unat x"
  shows "n \<le> n' \<and> n' \<le> n + k \<and> unat x' = unat x * 2 ^ (n' - n) \<and> 2 ^ (32 - k) \<le> unat x'"
proof (cases "x \<le> bound")
  case True
  then have less: "unat x < 2 ^ (32 - k)"
    using bound by (simp add: word_le_nat_alt)
  have "unat x * 2 ^ k < 2 ^ (32 - k) * 2 ^ k"
    using less by simp
  also have "\<dots> = 2 ^ 32"
    using k by (simp flip: power_add)
  finally have "unat (push_bit k x) = unat x * 2 ^ k"
    by (simp add: word_nat)
  moreover have "2 ^ (32 - 2 * k) * 2 ^ k \<le> unat x * 2 ^ k"
    using low by simp
  moreover have "(2::nat) ^ (32 - 2 * k) * 2 ^ k = 2 ^ (32 - k)"
    using k by (simp flip: power_add)
  ultimately show ?thesis
    using True s by (auto simp: nlz_stage_def)
next
  case False
  then have "2 ^ (32 - k) \<le> unat x"
    using bound by (simp add: word_le_nat_alt)
  then show ?thesis
    using False s by (simp add: nlz_stage_def)
qed

lemma nlz_normalises:
  assumes "x \<noteq> 0"
  shows "nlz x \<le> 31 \<and> 2147483648 \<le> unat x * 2 ^ nlz x \<and> unat x * 2 ^ nlz x < 4294967296"
proof -
  obtain n1 x1 where s1: "nlz_stage 0x0000FFFF 16 (0, x) = (n1, x1)" by fastforce
  obtain n2 x2 where s2: "nlz_stage 0x00FFFFFF 8 (n1, x1) = (n2, x2)" by fastforce
  obtain n3 x3 where s3: "nlz_stage 0x0FFFFFFF 4 (n2, x2) = (n3, x3)" by fastforce
  obtain n4 x4 where s4: "nlz_stage 0x3FFFFFFF 2 (n3, x3) = (n4, x4)" by fastforce
  obtain n5 x5 where s5: "nlz_stage 0x7FFFFFFF 1 (n4, x4) = (n5, x5)" by fastforce
  have "1 \<le> unat x" using assms by (simp add: Suc_leI unat_gt_0)
  then have r1: "n1 \<le> 16 \<and> unat x1 = unat x * 2 ^ n1 \<and> 65536 \<le> unat x1"
    using nlz_stage_ok [OF s1] by simp
  then have r2: "n1 \<le> n2 \<and> n2 \<le> n1 + 8 \<and> unat x2 = unat x1 * 2 ^ (n2 - n1) \<and> 16777216 \<le> unat x2"
    using nlz_stage_ok [OF s2] by simp
  then have r3: "n2 \<le> n3 \<and> n3 \<le> n2 + 4 \<and> unat x3 = unat x2 * 2 ^ (n3 - n2) \<and> 268435456 \<le> unat x3"
    using nlz_stage_ok [OF s3] by simp
  then have r4: "n3 \<le> n4 \<and> n4 \<le> n3 + 2 \<and> unat x4 = unat x3 * 2 ^ (n4 - n3) \<and> 1073741824 \<le> unat x4"
    using nlz_stage_ok [OF s4] by simp
  then have r5: "n4 \<le> n5 \<and> n5 \<le> n4 + 1 \<and> unat x5 = unat x4 * 2 ^ (n5 - n4) \<and> 2147483648 \<le> unat x5"
    using nlz_stage_ok [OF s5] by simp
  have "nlz x = n5"
    using s1 s2 s3 s4 s5 by (auto simp: nlz_def nlz_stage_def split: if_splits)
  moreover have "unat x5 = unat x * 2 ^ n5"
  proof -
    have "unat x5 = unat x * 2 ^ (n1 + (n2 - n1) + (n3 - n2) + (n4 - n3) + (n5 - n4))"
      using r1 r2 r3 r4 r5 by (simp only: power_add mult.assoc)
    also have "n1 + (n2 - n1) + (n3 - n2) + (n4 - n3) + (n5 - n4) = n5"
      using r2 r3 r4 r5 by linarith
    finally show ?thesis .
  qed
  moreover have "n5 \<le> 31"
    using r1 r2 r3 r4 r5 by linarith
  ultimately show ?thesis
    using r5 unat_u32_bound [of x5] by metis
qed

section \<open>Unsigned division\<close>

text \<open>
  The arithmetic behind the branch for \<open>d \<ge> 2^32\<close>: dividing by \<open>d\<close> with its low \<open>32 - s\<close>
  bits cleared overestimates the quotient by at most one.
\<close>

lemma cleared_divisor:
  fixes d s :: nat
  assumes "s \<le> 31"
  shows "d * 2 ^ s div 2 ^ 32 = d div 2 ^ (32 - s)"
proof -
  have "32 = (32 - s) + s" using assms by simp
  then have "(2::nat) ^ 32 = 2 ^ (32 - s) * 2 ^ s" by (metis power_add)
  moreover have "d * 2 ^ s div (2 ^ (32 - s) * 2 ^ s) = d div 2 ^ (32 - s)" by simp
  ultimately show ?thesis by metis
qed

lemma estimate_quotient:
  fixes n d s :: nat
  assumes s: "s \<le> 31" and lo: "2 ^ (63 - s) \<le> d" and n: "n < 2 ^ 64"
  defines "dd \<equiv> d div 2 ^ (32 - s) * 2 ^ (32 - s)"
  shows "n div d \<le> n div dd" and "n div dd \<le> n div d + 1"
proof -
  have "63 - s = 31 + (32 - s)" using s by simp
  then have split: "(2::nat) ^ (63 - s) = 2 ^ 31 * 2 ^ (32 - s)" by (simp only: power_add)
  have dd_le: "dd \<le> d" by (simp add: dd_def)
  have "2 ^ (63 - s) div 2 ^ (32 - s) \<le> d div 2 ^ (32 - s)"
    using lo by (rule div_le_mono)
  then have dd_lo: "2 ^ (63 - s) \<le> dd"
    by (simp add: split dd_def)
  moreover have "(0::nat) < 2 ^ (63 - s)" by simp
  ultimately have dd_pos: "0 < dd" by linarith
  show "n div d \<le> n div dd" by (rule div_le_mono2 [OF dd_pos dd_le])
  let ?k = "n div d"
  have gap: "d - dd \<le> 2 ^ (32 - s) - 1"
  proof -
    have "d - dd = d mod 2 ^ (32 - s)" by (simp add: dd_def minus_div_mult_eq_mod)
    moreover have "d mod 2 ^ (32 - s) < 2 ^ (32 - s)" by simp
    ultimately show ?thesis by linarith
  qed
  have "?k < 2 ^ (s + 1)"
  proof (rule less_mult_imp_div_less)
    have "(2::nat) ^ (s + 1) * 2 ^ (63 - s) = 2 ^ 64" using s by (simp flip: power_add)
    then show "n < 2 ^ (s + 1) * d" using n mult_le_mono2 [OF lo, of "2 ^ (s + 1)"] by linarith
  qed
  then have "(?k + 1) * (d - dd) \<le> 2 ^ (s + 1) * (2 ^ (32 - s) - 1)"
    using gap by (intro mult_le_mono) simp_all
  also have "\<dots> = 2 ^ 33 - 2 ^ (s + 1)"
  proof -
    have "(s + 1) + (32 - s) = 33" using s by simp
    then have "(2::nat) ^ (s + 1) * 2 ^ (32 - s) = 2 ^ 33" by (simp only: flip: power_add)
    then show ?thesis by (simp only: diff_mult_distrib2 mult_1_right)
  qed
  also have "\<dots> \<le> 2 ^ (63 - s)"
  proof (cases "s = 31")
    case False
    then have "(2::nat) ^ 33 \<le> 2 ^ (63 - s)" using s by (intro power_increasing) auto
    then show ?thesis by linarith
  qed simp
  finally have "(?k + 1) * (d - dd) \<le> dd" using dd_lo by linarith
  then have "(?k + 1) * d \<le> (?k + 2) * dd"
    using dd_le by (simp add: diff_mult_distrib2)
  moreover have "n < (?k + 1) * d"
    using dividend_less_div_times [of d n] dd_le dd_pos by simp
  ultimately have "n < (?k + 2) * dd" by linarith
  then show "n div dd \<le> ?k + 1" by (simp add: less_mult_imp_div_less flip: less_Suc_eq_le)
qed

lemma schoolbook_step:
  fixes n d b :: nat
  assumes "0 < d" and "0 < b"
  shows "n div d = (b * (n div b mod d) + n mod b) div d + b * (n div b div d)"
    and "(b * (n div b mod d) + n mod b) div d < b"
proof -
  let ?n1 = "n div b"
  have "n = b * ?n1 + n mod b" by simp
  also have "b * ?n1 = b * (?n1 mod d) + d * (b * (?n1 div d))"
    by (metis add.commute add_mult_distrib2 div_mult_mod_eq mult.assoc mult.commute)
  finally have "n = (b * (?n1 mod d) + n mod b) + d * (b * (?n1 div d))" by simp
  then have "n div d = ((b * (?n1 mod d) + n mod b) + d * (b * (?n1 div d))) div d" by metis
  then show "n div d = (b * (?n1 mod d) + n mod b) div d + b * (?n1 div d)"
    using assms by simp
  have "b * (?n1 mod d) + n mod b < b * (?n1 mod d) + b" using assms by simp
  also have "\<dots> = b * (?n1 mod d + 1)" by simp
  also have "\<dots> \<le> b * d" using assms by (intro mult_le_mono2) (simp add: Suc_leI)
  finally show "(b * (?n1 mod d) + n mod b) div d < b" by (rule less_mult_imp_div_less)
qed

lemma high_half_zero_iff: "drop_bit 32 (d :: u64) = 0 \<longleftrightarrow> unat d < 4294967296"
  by (simp add: word_eq_unat_iff unat_drop_bit_div div_eq_0_iff)

lemma unat_times_base: "unat (4294967296 * ucast (y :: u32) :: u64) = 4294967296 * unat y"
  using unat_u32_bound [of y] by (subst unat_mult_small) simp_all

lemma unat_high_half: "unat (ucast (drop_bit 32 (n :: u64)) :: u32) = unat n div 4294967296"
proof -
  have "unat n div 4294967296 < 4294967296"
    by (rule less_mult_imp_div_less) (use unat_u64_bound [of n] in simp)
  then show ?thesis by (simp add: word_nat)
qed

lemma unat_low_half: "unat (ucast (n :: u64) :: u32) = unat n mod 4294967296"
  by (simp add: word_nat)

lemma udiv64_small_divisor:
  assumes d: "d \<noteq> 0" and small: "drop_bit 32 d = 0"
  shows "udiv64 n d = Inr (n div d)"
proof -
  define B :: nat where "B = 4294967296"
  define d0 :: u32 where "d0 = ucast d"
  define n1 :: u32 where "n1 = ucast (drop_bit 32 n)"
  define n0 :: u32 where "n0 = ucast n"
  have dB: "unat d < B" using small by (simp add: high_half_zero_iff B_def)
  have d0: "unat d0 = unat d"
    using dB by (simp add: d0_def unat_low_half B_def)
  have n1: "unat n1 = unat n div B" by (simp only: n1_def unat_high_half B_def)
  have n0: "unat n0 = unat n mod B" by (simp only: n0_def unat_low_half B_def)
  have d_pos: "0 < unat d" using d by (simp add: unat_gt_0)
  then have d0_nz: "d0 \<noteq> 0" using d0 by auto
  have B_pos: "0 < B" by (simp add: B_def)
  note quot = schoolbook_step(1) [OF d_pos B_pos, of "unat n"]
  note fits = schoolbook_step(2) [OF d_pos B_pos, of "unat n"]
  let ?x = "4294967296 * ucast (n1 mod d0) + ucast n0 :: u64"
  have m: "unat (4294967296 * ucast (n1 mod d0) :: u64) = B * (unat n div B mod unat d)"
    by (simp only: unat_times_base unat_mod_distrib n1 d0 B_def)
  have "unat n div B mod unat d + 1 \<le> B"
    using mod_less_divisor [OF d_pos, of "unat n div B"] dB by linarith
  then have "B * (unat n div B mod unat d + 1) \<le> B * B" by (rule mult_le_mono2)
  then have "B * (unat n div B mod unat d) + unat n mod B < B * B"
    using mod_less_divisor [OF B_pos, of "unat n"] by (simp only: add_mult_distrib2)
  then have x: "unat ?x = B * (unat n div B mod unat d) + unat n mod B"
    using unat_add_small [of "4294967296 * ucast (n1 mod d0)" "ucast n0 :: u64"]
    by (simp add: m n0 B_def)
  obtain q where q: "divl ?x d0 = Inr q" and uq: "unat q = unat ?x div unat d"
    using divl_ok [OF d0_nz, of ?x] fits by (auto simp: d0 x B_def)
  have h: "unat (4294967296 * ucast (n1 div d0) :: u64) = B * (unat n div B div unat d)"
    by (simp only: unat_times_base unat_div_distrib n1 d0 B_def)
  have "unat q + B * (unat n div B div unat d) = unat n div unat d"
    using quot by (simp only: uq x)
  moreover have "unat n div unat d < 18446744073709551616"
    using div_le_dividend unat_u64_bound by (rule le_less_trans)
  ultimately have "unat (ucast q + 4294967296 * ucast (n1 div d0) :: u64) = unat n div unat d"
    using unat_add_small [of "ucast q :: u64" "4294967296 * ucast (n1 div d0)"] by (simp add: h)
  then have "ucast q + 4294967296 * ucast (n1 div d0) = n div d"
    by (simp add: word_eq_unat_iff unat_div_distrib)
  then show ?thesis
    using small q d0_nz by (simp add: udiv64_def Let_def flip: d0_def n1_def n0_def)
qed

lemma normalised_divisor:
  fixes d :: u64
  assumes large: "4294967296 \<le> unat d" and s: "s = nlz (ucast (drop_bit 32 d))"
  shows "s \<le> 31" and "2 ^ (63 - s) \<le> unat d"
    and "unat (ucast (drop_bit 32 (push_bit s d)) :: u32) = unat d div 2 ^ (32 - s)"
    and "2147483648 \<le> unat d div 2 ^ (32 - s)"
proof -
  define B :: nat where "B = 4294967296"
  define d1 where "d1 = unat d div B"
  have B_pos: "0 < B" by (simp add: B_def)
  have d1: "unat (ucast (drop_bit 32 d) :: u32) = d1"
    by (simp only: d1_def unat_high_half B_def)
  have "B div B \<le> d1" unfolding d1_def using large by (intro div_le_mono) (simp add: B_def)
  then have "(ucast (drop_bit 32 d) :: u32) \<noteq> 0"
    using d1 by (auto simp: B_def)
  then have norm: "s \<le> 31" "2147483648 \<le> d1 * 2 ^ s" "d1 * 2 ^ s < B"
    using nlz_normalises [of "ucast (drop_bit 32 d)"] by (simp_all add: s d1 B_def)
  show "s \<le> 31" by (rule norm(1))
  have "32 = (32 - s) + s" using norm(1) by simp
  then have "(2::nat) ^ 32 = 2 ^ (32 - s) * 2 ^ s" by (metis power_add)
  moreover have "(2::nat) ^ 32 = B" by (simp add: B_def)
  ultimately have Bs: "B = 2 ^ (32 - s) * 2 ^ s" by metis
  have "d1 * 2 ^ s < 2 ^ (32 - s) * 2 ^ s" using norm(3) by (simp only: Bs)
  then have "d1 < 2 ^ (32 - s)" by simp
  then have "(d1 + 1) * B \<le> 2 ^ (32 - s) * B" by (intro mult_le_mono1) simp
  moreover have "unat d < (d1 + 1) * B"
    using dividend_less_div_times [OF B_pos, of "unat d"] by (simp add: d1_def)
  ultimately have "unat d < 2 ^ (32 - s) * B" by linarith
  then have "unat d * 2 ^ s < 2 ^ (32 - s) * B * 2 ^ s" by simp
  also have "\<dots> = B * B" by (simp only: Bs mult_ac)
  finally have fit: "unat d * 2 ^ s < B * B" .
  moreover have "(2::nat) ^ LENGTH(64) = B * B" by (simp add: B_def)
  ultimately have shifted: "unat (push_bit s d) = unat d * 2 ^ s"
    by (simp only: unat_push_bit_mod mod_less)
  have "(2::nat) ^ 32 = 4294967296" by simp
  then show high: "unat (ucast (drop_bit 32 (push_bit s d)) :: u32) = unat d div 2 ^ (32 - s)"
    using cleared_divisor [OF norm(1), of "unat d"] by (simp only: unat_high_half shifted)
  have d1_le: "d1 * B \<le> unat d" by (simp add: d1_def)
  have "2147483648 * 2 ^ (32 - s) \<le> d1 * 2 ^ s * 2 ^ (32 - s)"
    using norm(2) by (rule mult_le_mono1)
  also have "\<dots> = d1 * B" by (simp only: Bs mult_ac)
  finally have big: "2147483648 * 2 ^ (32 - s) \<le> unat d" using d1_le by linarith
  have "63 - s = 31 + (32 - s)" using norm(1) by simp
  then have "(2::nat) ^ (63 - s) = 2 ^ 31 * 2 ^ (32 - s)" by (simp only: power_add)
  moreover have "(2::nat) ^ 31 = 2147483648" by simp
  ultimately have "(2::nat) ^ (63 - s) = 2147483648 * 2 ^ (32 - s)" by (simp only:)
  then show "2 ^ (63 - s) \<le> unat d" using big by simp
  show "2147483648 \<le> unat d div 2 ^ (32 - s)"
    using div_le_mono [OF big, of "2 ^ (32 - s)"] by simp
qed

lemma correct_estimate:
  fixes n d q :: u64
  assumes d: "0 < unat d" "unat d \<le> unat n"
    and q: "unat q = unat n div unat d \<or> unat q = unat n div unat d + 1"
  shows "(if n - (q - 1) * d < d then q - 1 else q) = n div d"
proof -
  define k where "k = unat n div unat d"
  have k: "1 \<le> k" "k * unat d \<le> unat n" "unat n < (k + 1) * unat d"
    using d dividend_less_div_times [of "unat d" "unat n"]
    by (simp_all add: k_def Suc_leI div_greater_zero_iff)
  have q1: "unat (q - 1) = unat q - 1"
    using q k(1) by (subst unat_sub_small) (auto simp: k_def)
  have q1_le: "unat (q - 1) \<le> k" using q q1 by (auto simp: k_def)
  then have "unat (q - 1) * unat d \<le> unat n"
    using k(2) mult_le_mono1 le_trans by blast
  then have prod: "unat ((q - 1) * d) = unat (q - 1) * unat d"
    by (simp add: unat_mult_small le_less_trans [OF _ unat_u64_bound])
  then have rest: "unat (n - (q - 1) * d) = unat n - unat (q - 1) * unat d"
    using \<open>unat (q - 1) * unat d \<le> unat n\<close> by (simp add: unat_sub_small)
  show ?thesis
  proof (cases "unat q = k")
    case True
    then have "unat (q - 1) * unat d + unat d \<le> unat n"
      using q1 k by (metis add.commute le_add_diff_inverse2 mult_Suc plus_1_eq_Suc)
    then have "\<not> n - (q - 1) * d < d" by (simp add: word_less_nat_alt rest)
    then show ?thesis using True by (simp add: word_eq_unat_iff unat_div_distrib k_def)
  next
    case False
    then have "unat (q - 1) = k" using q q1 by (simp add: k_def)
    then have "n - (q - 1) * d < d"
      using k by (simp add: word_less_nat_alt rest less_diff_conv2)
    then show ?thesis
      using \<open>unat (q - 1) = k\<close> by (simp add: word_eq_unat_iff unat_div_distrib k_def)
  qed
qed

lemma udiv64_large_divisor:
  assumes large: "4294967296 \<le> unat d" and le: "unat d \<le> unat n"
  shows "udiv64 n d = Inr (n div d)"
proof -
  define s where "s = nlz (ucast (drop_bit 32 d))"
  define v :: u32 where "v = ucast (drop_bit 32 (push_bit s d))"
  note norm = normalised_divisor [OF large s_def]
  have v: "unat v = unat d div 2 ^ (32 - s)" by (simp only: v_def norm(3))
  have v_big: "2147483648 \<le> unat v" by (simp only: v norm(4))
  then have v_nz: "v \<noteq> 0" by auto
  have "unat n div 2 < 4294967296 * 2147483648"
    by (rule less_mult_imp_div_less) simp
  then have "unat n div 2 < 4294967296 * unat v"
    using mult_le_mono2 [OF v_big, of 4294967296] by linarith
  then have "unat n div 2 div unat v < 4294967296" by (rule less_mult_imp_div_less)
  then obtain q0 where q0: "divl (drop_bit 1 n) v = Inr q0"
      and uq0: "unat q0 = unat n div 2 div unat v"
    using divl_ok [of v "drop_bit 1 n"] v_nz by (auto simp: unat_drop_bit_div)
  have "32 - s = Suc (31 - s)" using norm(1) by simp
  then have two: "2 * unat v * 2 ^ (31 - s) = unat v * 2 ^ (32 - s)" by simp
  let ?q = "ucast (drop_bit (31 - s) q0) :: u64"
  have "unat ?q = unat n div (unat v * 2 ^ (32 - s))"
    by (simp add: unat_drop_bit_div uq0 div_mult2_eq flip: two)
  then have "unat ?q = unat n div (unat d div 2 ^ (32 - s) * 2 ^ (32 - s))"
    by (simp only: v)
  then have "unat ?q = unat n div unat d \<or> unat ?q = unat n div unat d + 1"
    using estimate_quotient [OF norm(1,2), of "unat n"] by fastforce
  then have res: "(if n - (?q - 1) * d < d then ?q - 1 else ?q) = n div d"
    using large le by (intro correct_estimate) simp_all
  have "drop_bit 32 d \<noteq> 0" using large by (simp add: high_half_zero_iff)
  moreover have "\<not> n < d" using le by (simp add: word_less_nat_alt)
  ultimately show ?thesis
    using q0 by (simp only: udiv64_def Let_def if_False res bindE_simps flip: s_def v_def)
qed

lemma udiv64_eq: "udiv64 n d = (if d = 0 then Inl DivideError else Inr (n div d))"
proof (cases "d = 0")
  case True
  then show ?thesis by (simp add: udiv64_def Let_def)
next
  case False
  show ?thesis
  proof (cases "drop_bit 32 d = 0")
    case True
    with False show ?thesis by (simp add: udiv64_small_divisor)
  next
    case large: False
    show ?thesis
    proof (cases "n < d")
      case True
      then have "unat n div unat d = 0" by (simp add: word_less_nat_alt)
      then have "n div d = 0" by (simp add: word_eq_unat_iff unat_div_distrib)
      with True large False show ?thesis by (simp add: udiv64_def)
    next
      case le: False
      then have "udiv64 n d = Inr (n div d)"
        using large by (intro udiv64_large_divisor) (simp_all add: high_half_zero_iff word_less_nat_alt)
      with False show ?thesis by simp
    qed
  qed
qed

lemma umod64_eq: "umod64 n d = (if d = 0 then Inl DivideError else Inr (ucast (n mod d)))"
  by (simp add: umod64_def udiv64_eq minus_mult_div_eq_mod)

section \<open>Signed division\<close>

lemma abs_word: "(if 0 \<le> sint n then n else - n) = word_of_int \<bar>sint (n :: u64)\<bar>"
  by simp

lemma uint_abs_word: "uint (word_of_int \<bar>sint (n :: u64)\<bar> :: u64) = \<bar>sint n\<bar>"
proof -
  have "\<bar>sint n\<bar> < 2 ^ 64" using sint_greater_eq [of n] sint_lt [of n] by simp
  then show ?thesis by (simp add: unsigned_of_int take_bit_eq_mod)
qed

lemma sdiv64_eq:
  "sdiv64 n d = (if d = 0 then Inl DivideError else Inr (word_of_int (sint n sdiv sint d)))"
proof (cases "d = 0")
  case True
  then show ?thesis by (simp add: sdiv64_def udiv64_eq Let_def)
next
  case False
  then have nz: "word_of_int \<bar>sint d\<bar> \<noteq> (0 :: u64)"
    using uint_abs_word [of d] by (metis abs_eq_0 signed_eq_0_iff unsigned_0)
  have q: "(word_of_int \<bar>sint n\<bar> div word_of_int \<bar>sint d\<bar> :: u64) = word_of_int (\<bar>sint n\<bar> div \<bar>sint d\<bar>)"
    by (metis uint_abs_word uint_div_distrib word_of_int_uint)
  have "(if (sint n < 0) = (sint d < 0) then word_of_int (\<bar>sint n\<bar> div \<bar>sint d\<bar>)
      else - word_of_int (\<bar>sint n\<bar> div \<bar>sint d\<bar>)) = (word_of_int (sint n sdiv sint d) :: u64)"
    by (auto simp: signed_divide_int_def sgn_if)
  then show ?thesis
    using False nz
    by (simp add: sdiv64_def Let_def abs_word udiv64_eq q del: of_int_abs split: if_splits)
qed

lemma smod64_eq:
  "smod64 n d = (if d = 0 then Inl DivideError else Inr (ucast (word_of_int (sint n smod sint d) :: u64)))"
proof -
  have "n - d * word_of_int (sint n sdiv sint d) = word_of_int (sint n - sint d * (sint n sdiv sint d))"
    by simp
  then show ?thesis by (simp add: smod64_def sdiv64_eq minus_mult_sdiv_eq_smod)
qed

lemma scast_ucast_of_int: "scast (ucast (word_of_int r :: u64) :: u32) = (word_of_int (signed_take_bit 31 r) :: u64)"
  by (rule bit_word_eqI) (auto simp: bit_simps min_def)

section \<open>The entry points\<close>

text \<open>
  C1. Unsigned 64-bit division is exact: for every dividend and every divisor \<open>__udivdi3\<close>
  returns the quotient, the \<open>DIVL\<close> instruction never traps inside it, and the only fault is
  the divide error of a zero divisor.
\<close>

theorem udivdi3_correct:
  "udivdi3 n d = (if d = 0 then Inl DivideError else Inr (n div d))"
  by (simp add: udivdi3_def udiv64_eq)

text \<open>
  C2. Signed 64-bit division truncates towards zero, with the wrap-around of
  two's complement in the one case (the minimum divided by minus one) that overflows.
\<close>

theorem divdi3_correct:
  "divdi3 n d = (if d = 0 then Inl DivideError else Inr (word_of_int (sint n sdiv sint d)))"
  by (simp add: divdi3_def sdiv64_eq)

text \<open>
  C3. The unsigned 64-bit remainder is right exactly when it fits 32 bits: \<open>umod64\<close> returns
  a \<open>uint32_t\<close>, so \<open>__umoddi3\<close> loses the high half of a larger remainder.
\<close>

theorem umoddi3_exact_iff:
  assumes "d \<noteq> 0"
  shows "umoddi3 n d = Inr (n mod d) \<longleftrightarrow> unat n mod unat d < 4294967296"
proof -
  have "umoddi3 n d = Inr (ucast (ucast (n mod d) :: u32))"
    using assms by (simp add: umoddi3_def umod64_eq)
  moreover have "unat (ucast (ucast (n mod d) :: u32) :: u64) = unat n mod unat d mod 4294967296"
    by (simp add: unat_low_half unat_mod_distrib)
  ultimately show ?thesis
    by (auto simp: word_eq_unat_iff unat_mod_distrib)
qed

theorem umoddi3_exact_iff_witness:
  "umoddi3 18446744073709551615 8589934592 \<noteq> Inr (18446744073709551615 mod 8589934592)
   \<and> umoddi3 1000000000007 1000 = Inr 7"
  using umoddi3_exact_iff [of 8589934592 18446744073709551615]
    umoddi3_exact_iff [of 1000 1000000000007] by simp

text \<open>
  The signed 64-bit remainder is right exactly when it fits an \<open>int32_t\<close>, the type
  \<open>smod64\<close> returns.
\<close>

theorem moddi3_exact_iff:
  assumes "d \<noteq> 0"
  shows "moddi3 n d = Inr (word_of_int (sint n smod sint d))
     \<longleftrightarrow> - 2147483648 \<le> sint n smod sint d \<and> sint n smod sint d < 2147483648"
proof -
  let ?r = "sint n smod sint d"
  have eq: "moddi3 n d = Inr (word_of_int (signed_take_bit 31 ?r))"
    using assms by (simp add: moddi3_def smod64_eq scast_ucast_of_int)
  have "0 \<le> \<bar>sint n\<bar> mod \<bar>sint d\<bar>" and "\<bar>sint n\<bar> mod \<bar>sint d\<bar> \<le> \<bar>sint n\<bar>"
    using assms pos_mod_sign [of "\<bar>sint d\<bar>" "\<bar>sint n\<bar>"]
    by (simp_all add: zmod_le_nonneg_dividend signed_eq_0_iff)
  moreover have "\<bar>sgn a * m\<bar> \<le> m" if "0 \<le> m" for a m :: int
    using that by (simp add: sgn_if)
  ultimately have "\<bar>?r\<bar> \<le> \<bar>sint n\<bar>"
    unfolding signed_modulo_int_def by (meson order_trans)
  then have range: "- (2 ^ 63) \<le> ?r" "?r \<le> 2 ^ 63"
    using sint_greater_eq [of n] sint_lt [of n] by simp_all
  have inj: "signed_take_bit 31 ?r = ?r" if "(word_of_int (signed_take_bit 31 ?r) :: u64) = word_of_int ?r"
  proof -
    have "take_bit 64 (signed_take_bit 31 ?r) = take_bit 64 ?r"
      using that by (simp add: word_of_int_eq_iff)
    moreover have "- (2 ^ 31) \<le> signed_take_bit 31 ?r" "signed_take_bit 31 ?r < 2 ^ 31"
      by (rule signed_take_bit_int_greater_eq_minus_exp, rule signed_take_bit_int_less_exp)
    ultimately have "(2 ^ 64 :: int) dvd (signed_take_bit 31 ?r - ?r)"
      by (simp add: take_bit_eq_mod mod_eq_dvd_iff)
    then obtain k where k: "signed_take_bit 31 ?r - ?r = 2 ^ 64 * k" by (rule dvdE)
    have "k < 1 \<and> - 1 < k"
      using k range \<open>- (2 ^ 31) \<le> signed_take_bit 31 ?r\<close> \<open>signed_take_bit 31 ?r < 2 ^ 31\<close>
      by (intro conjI) simp_all
    then show ?thesis using k by simp
  qed
  have "signed_take_bit 31 ?r = ?r \<longleftrightarrow> - 2147483648 \<le> ?r \<and> ?r < 2147483648"
    by (subst signed_take_bit_int_eq_self_iff) simp
  then show ?thesis using inj by (auto simp: eq)
qed

theorem moddi3_exact_iff_witness:
  "moddi3 (- 7) 2 = Inr (- 1)
   \<and> moddi3 4294967295 8589934592 \<noteq> Inr 4294967295"
  using moddi3_exact_iff [of 2 "- 7"] moddi3_exact_iff [of 8589934592 4294967295]
  by (simp add: signed_modulo_int_def)

end
