(* ===== verification/Printf.thy ===== *)
theory Printf
  imports Tty Arith64
begin

text \<open>
  \<open>printf\<close> of \<open>libk/src/all/stdio/printf.c\<close>, which writes to the console: the conversion of numbers, the
  conversions of a format string and the fetching of its arguments.
\<close>

section \<open>Numbers\<close>

definition LOWER_DIGITS :: "u8 list" where "LOWER_DIGITS = map of_char ''0123456789abcdef''"
definition UPPER_DIGITS :: "u8 list" where "UPPER_DIGITS = map of_char ''0123456789ABCDEF''"
definition MAX_NUMBER_LENGTH :: nat where "MAX_NUMBER_LENGTH = 22"

text \<open>
  The characters written to \<open>reversed\<close> so far; their number is \<open>written\<close>. The array has room for
  \<open>MAX_NUMBER_LENGTH\<close> of them.
\<close>

function printf_digits :: "u64 \<Rightarrow> u16 \<Rightarrow> u8 list \<Rightarrow> u8 list \<Rightarrow> u8 list result" where
  "printf_digits remain base digits reversed =
     (if remain \<noteq> 0 then
        if length reversed > MAX_NUMBER_LENGTH then Inl (Panic ''Buffer too small in printf_u'')
        else if base = 0 then Inl DivideError
        else if length reversed = MAX_NUMBER_LENGTH then Inl (BadAccess (of_nat (length reversed)))
        else let d = ucast (remain mod ucast base) :: u16
             in printf_digits (remain div ucast base) base digits (reversed @ [digits ! unat d])
      else Inr reversed)"
  by pat_completeness auto
termination
  by (relation "measure (\<lambda>(remain, base, digits, reversed). 23 - length reversed)") (auto simp: MAX_NUMBER_LENGTH_def)

declare printf_digits.simps [simp del]

definition printf_u :: "u64 \<Rightarrow> u16 \<Rightarrow> bool \<Rightarrow> tty \<Rightarrow> (int \<times> tty) result" where
  "printf_u i base uppercase st =
     (if base > 16 then Inl (Panic ''Base is bigger than 16'')
      else
        let digits = if uppercase then UPPER_DIGITS else LOWER_DIGITS
        in if i = 0 then Inr (1, terminal_putchar (digits ! 0) st)
           else bindE (printf_digits i base digits [])
                  (\<lambda>reversed. Inr (int (length reversed), fold terminal_putchar (rev reversed) st)))"

section \<open>Arguments\<close>

text \<open>The argument list: the 32-bit words of the stack; a \<open>uintmax_t\<close> takes two, the low one first.\<close>

fun va_arg32 :: "u32 list \<Rightarrow> (u32 \<times> u32 list) result" where
  "va_arg32 [] = Inl (BadAccess 0)"
| "va_arg32 (a # params) = Inr (a, params)"

fun va_arg64 :: "u32 list \<Rightarrow> (u64 \<times> u32 list) result" where
  "va_arg64 (lo # hi # params) = Inr (ucast lo OR push_bit 32 (ucast hi), params)"
| "va_arg64 params = Inl (BadAccess 0)"

section \<open>Conversions\<close>

text \<open>
  The body of the \<open>switch\<close> for the character after a per cent sign: what is added to \<open>written\<close>, the rest
  of the arguments and the console.
\<close>

definition printf_conv :: "u8 \<Rightarrow> u32 list \<Rightarrow> tty \<Rightarrow> (int \<times> u32 list \<times> tty) result option" where
  "printf_conv c params st =
     (if c = of_char CHR ''%'' then Some (Inr (1, params, terminal_putchar (of_char CHR ''%'') st))
      else if c = of_char CHR ''c'' then
        Some (bindE (va_arg32 params) (\<lambda>(a, params). Inr (1, params, terminal_putchar (ucast a) st)))
      else if c = of_char CHR ''s'' then
        (case va_arg32 params of
           Inl e \<Rightarrow> Some (Inl e)
         | Inr (str, params) \<Rightarrow>
             map_option (\<lambda>len. Inr (uint len, params, terminal_write str len st)) (strlen (tty_mem st) str))
      else if c = of_char CHR ''x'' \<or> c = of_char CHR ''X'' then
        Some (bindE (va_arg32 params) (\<lambda>(i, params).
              bindE (printf_u (ucast i) 16 (c = of_char CHR ''X'') st) (\<lambda>(n, st). Inr (n, params, st))))
      else if c = of_char CHR ''o'' then
        Some (bindE (va_arg32 params) (\<lambda>(i, params).
              bindE (printf_u (ucast i) 8 True st) (\<lambda>(n, st). Inr (n, params, st))))
      else if c = of_char CHR ''u'' then
        Some (bindE (va_arg32 params) (\<lambda>(i, params).
              bindE (printf_u (ucast i) 10 True st) (\<lambda>(n, st). Inr (n, params, st))))
      else if c = of_char CHR ''J'' then
        Some (bindE (va_arg64 params) (\<lambda>(i, params).
              bindE (printf_u i 16 True st) (\<lambda>(n, st). Inr (n, params, st))))
      else if c = 0 then Some (Inl (Panic ''Unexpected end of format string''))
      else Some (Inl (Panic ''Unknown format'')))"

text \<open>The count of characters is an unbounded integer here; in C a count above \<open>INT_MAX\<close> is undefined.\<close>

partial_function (option) printf_loop :: "u32 \<Rightarrow> u32 list \<Rightarrow> int \<Rightarrow> tty \<Rightarrow> (int \<times> tty) result option" where
  "printf_loop format params written st =
     (if tty_mem st format \<noteq> 0 then
        if tty_mem st format = of_char CHR ''%'' then
          (case printf_conv (tty_mem st (format + 1)) params st of
             None \<Rightarrow> None
           | Some (Inl e) \<Rightarrow> Some (Inl e)
           | Some (Inr (n, params, st)) \<Rightarrow> printf_loop (format + 2) params (written + n) st)
        else printf_loop (format + 1) params (written + 1) (terminal_putchar (tty_mem st format) st)
      else Some (Inr (written, st)))"

definition printf :: "u32 \<Rightarrow> u32 list \<Rightarrow> tty \<Rightarrow> (int \<times> tty) result option" where
  "printf format params st = printf_loop format params 0 st"

section \<open>The digits of a number\<close>

function to_digits :: "nat \<Rightarrow> nat \<Rightarrow> nat list" where
  "to_digits b n = (if b < 2 \<or> n < b then [n] else to_digits b (n div b) @ [n mod b])"
  by pat_completeness auto
termination
  by (relation "measure snd") auto

declare to_digits.simps [simp del]

definition of_digits :: "nat \<Rightarrow> nat list \<Rightarrow> nat" where
  "of_digits b ds = foldl (\<lambda>v d. v * b + d) 0 ds"

definition numeral_text :: "bool \<Rightarrow> nat \<Rightarrow> nat \<Rightarrow> u8 list" where
  "numeral_text uppercase b n = map ((!) (if uppercase then UPPER_DIGITS else LOWER_DIGITS)) (to_digits b n)"

lemma of_digits_snoc [simp]: "of_digits b (ds @ [d]) = of_digits b ds * b + d"
  by (simp add: of_digits_def)

lemma to_digits_value: "of_digits b (to_digits b n) = n"
proof (induction b n rule: to_digits.induct)
  case (1 b n)
  then show ?case by (subst to_digits.simps) (simp add: of_digits_def)
qed

lemma to_digits_less: "2 \<le> b \<Longrightarrow> d \<in> set (to_digits b n) \<Longrightarrow> d < b"
proof (induction b n rule: to_digits.induct)
  case (1 b n)
  show ?case
  proof (cases "n < b")
    case True
    then show ?thesis using "1.prems" by (subst (asm) to_digits.simps) simp
  next
    case False
    then have "to_digits b n = to_digits b (n div b) @ [n mod b]" using "1.prems"(1) by (subst to_digits.simps) simp
    then show ?thesis using 1 False by auto
  qed
qed

lemma to_digits_length:
  assumes "2 \<le> b" "n < b ^ k" "0 < k"
  shows "length (to_digits b n) \<le> k"
  using assms
proof (induction k arbitrary: n)
  case (Suc k)
  show ?case
  proof (cases "n < b")
    case True
    then show ?thesis by (subst to_digits.simps) simp
  next
    case False
    then have "0 < k" using Suc.prems by (cases k) simp_all
    moreover have "n div b < b ^ k" using Suc.prems by (simp add: div_less_iff_less_mult mult.commute)
    ultimately have "length (to_digits b (n div b)) \<le> k" using Suc by simp
    then show ?thesis using False Suc.prems(1) by (subst to_digits.simps) simp
  qed
qed simp

lemma to_digits_head: "hd (to_digits b n) = 0 \<Longrightarrow> n = 0"
proof (induction b n rule: to_digits.induct)
  case (1 b n)
  show ?case
  proof (cases "b < 2 \<or> n < b")
    case True
    then show ?thesis using "1.prems" by (subst (asm) to_digits.simps) simp
  next
    case False
    have ne: "to_digits b m \<noteq> []" for m by (subst to_digits.simps) simp
    have "to_digits b n = to_digits b (n div b) @ [n mod b]" using False by (subst to_digits.simps) simp
    then have "hd (to_digits b (n div b)) = 0" using "1.prems" ne by simp
    then have "n div b = 0" using 1 False by blast
    then show ?thesis using False by (auto simp: div_eq_0_iff)
  qed
qed

section \<open>What the conversion loop computes\<close>

lemma base_word:
  assumes "unat (base :: u16) \<noteq> 0"
  shows "unat (ucast base :: u64) = unat base" "unat (remain mod ucast base :: u64) = unat remain mod unat base"
    "unat (remain div ucast base :: u64) = unat remain div unat base"
  by (simp_all add: unat_ucast_widen unat_mod_distrib unat_div_distrib)

lemma printf_digits_run:
  assumes b: "2 \<le> unat base" "unat base \<le> 16" and n: "unat remain < unat base ^ k" and k: "length reversed + k \<le> 22"
  shows "printf_digits remain base digits reversed =
    Inr (reversed @ (if remain = 0 then [] else rev (map ((!) digits) (to_digits (unat base) (unat remain)))))"
  using n k
proof (induction k arbitrary: remain reversed)
  case 0
  then have "remain = 0" by (simp add: unat_eq_zero)
  then show ?case by (subst printf_digits.simps) simp
next
  case (Suc k)
  have b0: "unat base \<noteq> 0" "base \<noteq> 0" using b by auto
  note w = base_word(1) [OF b0(1)] base_word(2,3) [OF b0(1), of remain]
  show ?case
  proof (cases "remain = 0")
    case True
    then show ?thesis by (subst printf_digits.simps) simp
  next
    case False
    let ?q = "remain div ucast base" and ?d = "ucast (remain mod ucast base) :: u16"
    have "unat remain mod unat base < unat base" using b by (intro mod_less_divisor) simp
    then have "unat remain mod unat base < 65536" using b(2) by linarith
    then have d: "unat ?d = unat remain mod unat base" by (simp only: unat_ucast_mod w) simp
    have "unat ?q < unat base ^ k" using Suc.prems(1) b by (simp add: w div_less_iff_less_mult mult.commute)
    moreover have "length (reversed @ [digits ! unat ?d]) + k \<le> 22" using Suc.prems(2) by simp
    ultimately have ih: "printf_digits ?q base digits (reversed @ [digits ! unat ?d]) =
        Inr ((reversed @ [digits ! unat ?d]) @ (if ?q = 0 then [] else rev (map ((!) digits) (to_digits (unat base) (unat ?q)))))"
      by (rule Suc.IH)
    have q0: "?q = 0 \<longleftrightarrow> unat remain < unat base"
      using b by (simp add: word_eq_unat_iff w div_eq_0_iff)
    have "to_digits (unat base) (unat remain) =
        (if unat remain < unat base then [unat remain] else to_digits (unat base) (unat ?q) @ [unat remain mod unat base])"
      using b by (subst to_digits.simps) (simp add: w)
    moreover have "printf_digits remain base digits reversed = printf_digits ?q base digits (reversed @ [digits ! unat ?d])"
      using False b0(2) Suc.prems(2) by (subst printf_digits.simps) (simp add: MAX_NUMBER_LENGTH_def)
    ultimately show ?thesis using ih False q0 d by (cases "unat remain < unat base") simp_all
  qed
qed

text \<open>A number of more than \<open>MAX_NUMBER_LENGTH\<close> digits.\<close>

lemma printf_digits_overrun:
  assumes b: "2 \<le> unat base" and n: "unat base ^ k \<le> unat remain" and k: "length reversed + k = 22"
  shows "printf_digits remain base digits reversed = Inl (BadAccess 22)"
  using n k
proof (induction k arbitrary: remain reversed)
  case 0
  then have "remain \<noteq> 0" "base \<noteq> 0" using b by auto
  then show ?case using 0 by (subst printf_digits.simps) (simp add: MAX_NUMBER_LENGTH_def)
next
  case (Suc k)
  have b0: "unat base \<noteq> 0" "base \<noteq> 0" using b by auto
  have "0 < unat base ^ Suc k" using b by simp
  then have r: "remain \<noteq> 0" using Suc.prems(1) by auto
  have "unat base ^ k \<le> unat (remain div ucast base)"
    unfolding base_word(3) [OF b0(1)] using Suc.prems(1) b by (simp add: less_eq_div_iff_mult_less_eq mult.commute)
  then have "printf_digits (remain div ucast base) base digits (reversed @ [x]) = Inl (BadAccess 22)" for x
    using Suc.prems(2) by (intro Suc.IH) simp_all
  then show ?case using r b0(2) Suc.prems(2) by (subst printf_digits.simps) (simp add: MAX_NUMBER_LENGTH_def)
qed

lemma printf_u_run:
  fixes uppercase :: bool and i :: u64 and base :: u16
  assumes b: "2 \<le> unat base" "unat base \<le> 16" and n: "unat i < unat base ^ 22"
  defines "out \<equiv> numeral_text uppercase (unat base) (unat i)"
  shows "printf_u i base uppercase st = Inr (int (length out), fold terminal_putchar out st)"
proof -
  have nb: "\<not> base > 16" using b by (simp add: word_less_nat_alt)
  have z: "to_digits (unat base) 0 = [0]" using b by (subst to_digits.simps) simp
  show ?thesis
    using printf_digits_run [OF b n, of "[]"] nb z
    by (auto simp: printf_u_def out_def numeral_text_def Let_def rev_map)
qed

lemma fits_22:
  assumes "8 \<le> unat (base :: u16)"
  shows "unat (i :: u64) < unat base ^ 22"
proof -
  have "unat i < 18446744073709551616" by (rule unat_u64_bound)
  also have "\<dots> < (8::nat) ^ 22" by simp
  also have "(8::nat) ^ 22 \<le> unat base ^ 22" using assms by (rule power_mono) simp
  finally show ?thesis .
qed

section \<open>What a format prints\<close>

text \<open>A string in memory that writing on the screen does not change.\<close>

definition text_at :: "tty \<Rightarrow> u32 \<Rightarrow> u8 list \<Rightarrow> bool" where
  "text_at st p s \<longleftrightarrow> str_at (tty_mem st) p s \<and> (\<forall>k \<le> length s. \<not> on_screen st (p + of_nat k))"

definition per_cent :: u8 where "per_cent = of_char CHR ''%''"

text \<open>
  The text that a format and its arguments stand for, or the reason why there is none. The argument of
  \<open>%s\<close> is the address of a string.
\<close>

inductive renders :: "tty \<Rightarrow> u8 list \<Rightarrow> u32 list \<Rightarrow> string + u8 list \<Rightarrow> bool" for st where
  renders_end: "renders st [] params (Inr [])"
| renders_char: "c \<noteq> per_cent \<Longrightarrow> renders st f params r \<Longrightarrow> renders st (c # f) params (map_sum id ((#) c) r)"
| renders_per_cent: "renders st f params r \<Longrightarrow> renders st (per_cent # per_cent # f) params (map_sum id ((#) per_cent) r)"
| renders_c: "renders st f params r \<Longrightarrow>
    renders st (per_cent # of_char CHR ''c'' # f) (a # params) (map_sum id ((#) (ucast a)) r)"
| renders_s: "text_at st p s \<Longrightarrow> renders st f params r \<Longrightarrow>
    renders st (per_cent # of_char CHR ''s'' # f) (p # params) (map_sum id ((@) s) r)"
| renders_x: "renders st f params r \<Longrightarrow>
    renders st (per_cent # of_char CHR ''x'' # f) (a # params) (map_sum id ((@) (numeral_text False 16 (unat a))) r)"
| renders_X: "renders st f params r \<Longrightarrow>
    renders st (per_cent # of_char CHR ''X'' # f) (a # params) (map_sum id ((@) (numeral_text True 16 (unat a))) r)"
| renders_o: "renders st f params r \<Longrightarrow>
    renders st (per_cent # of_char CHR ''o'' # f) (a # params) (map_sum id ((@) (numeral_text True 8 (unat a))) r)"
| renders_u: "renders st f params r \<Longrightarrow>
    renders st (per_cent # of_char CHR ''u'' # f) (a # params) (map_sum id ((@) (numeral_text True 10 (unat a))) r)"
| renders_J: "renders st f params r \<Longrightarrow>
    renders st (per_cent # of_char CHR ''J'' # f) (lo # hi # params)
      (map_sum id ((@) (numeral_text True 16 (unat lo + 2 ^ 32 * unat hi))) r)"
| renders_cut: "renders st [per_cent] params (Inl ''Unexpected end of format string'')"
| renders_unknown: "c \<notin> of_char ` set ''%csxXouJ'' \<Longrightarrow> renders st (per_cent # c # f) params (Inl ''Unknown format'')"

lemma per_cent_37: "per_cent = 37"
  by (simp add: per_cent_def)

lemma text_at_same:
  assumes "same_outside st st'" "text_at st p s"
  shows "text_at st' p s"
proof -
  have "str_at (tty_mem st') p s = str_at (tty_mem st) p s"
    by (rule str_at_cong) (use assms in \<open>simp add: text_at_def same_outside_def\<close>)
  then show ?thesis using assms by (simp add: text_at_def same_outside_def on_screen_def)
qed

lemma text_at_Cons:
  assumes "text_at st p (c # s)"
  shows "tty_mem st p = c" "c \<noteq> 0" "text_at st (p + 1) s"
proof -
  show "tty_mem st p = c" "c \<noteq> 0" using assms by (simp_all add: text_at_def)
  have "\<not> on_screen st (p + 1 + of_nat k)" if "k \<le> length s" for k
  proof -
    have "p + 1 + of_nat k = p + of_nat (Suc k)" by simp
    then show ?thesis using assms that unfolding text_at_def by (metis Suc_le_mono length_Cons)
  qed
  then show "text_at st (p + 1) s" using assms by (simp add: text_at_def)
qed

lemma text_at_Cons2:
  assumes "text_at st p (c # d # s)"
  shows "tty_mem st p = c" "c \<noteq> 0" "tty_mem st (p + 1) = d" "text_at st (p + 2) s"
proof -
  note 1 = text_at_Cons [OF assms] and 2 = text_at_Cons [OF text_at_Cons(3) [OF assms]]
  have e: "p + 1 + 1 = p + (2 :: u32)" by simp
  show "text_at st (p + 2) s" using 2(3) unfolding e .
  show "tty_mem st p = c" "c \<noteq> 0" "tty_mem st (p + 1) = d" using 1 2(1) by simp_all
qed

lemma text_at_Nil: "text_at st p [] \<Longrightarrow> tty_mem st p = 0"
  by (simp add: text_at_def)

lemma terminal_write_text:
  assumes "tty_ok st" "text_at st p s"
  shows "strlen (tty_mem st) p = Some (of_nat (length s))" "terminal_write p (of_nat (length s)) st = fold terminal_putchar s st"
proof -
  have s: "str_at (tty_mem st) p s" using assms(2) by (simp add: text_at_def)
  then show "strlen (tty_mem st) p = Some (of_nat (length s))" by (rule strlen_str)
  have "unat (of_nat (length s) :: u32) = length s" using str_at_length [OF s] by (intro unat_of_nat_small) simp
  then show "terminal_write p (of_nat (length s)) st = fold terminal_putchar s st"
    unfolding terminal_write_def using assms str_at_nth [OF s] by (intro write_loop_fold) (simp_all add: text_at_def)
qed

lemma printf_u_bases:
  "printf_u i 16 up st = Inr (int (length (numeral_text up 16 (unat i))), fold terminal_putchar (numeral_text up 16 (unat i)) st)"
  "printf_u i 10 up st = Inr (int (length (numeral_text up 10 (unat i))), fold terminal_putchar (numeral_text up 10 (unat i)) st)"
  "printf_u i 8 up st = Inr (int (length (numeral_text up 8 (unat i))), fold terminal_putchar (numeral_text up 8 (unat i)) st)"
  using printf_u_run [of 16 i up st] printf_u_run [of 10 i up st] printf_u_run [of 8 i up st]
    fits_22 [of 16 i] fits_22 [of 10 i] fits_22 [of 8 i] by simp_all

lemma unat_pair: "unat (ucast lo OR push_bit 32 (ucast hi) :: u64) = unat lo + 2 ^ 32 * unat hi" for lo hi :: u32
proof -
  have "ucast lo AND push_bit 32 (ucast hi) = (0 :: u64)"
    by (rule bit_word_eqI) (auto simp: bit_simps dest: bit_imp_le_length)
  then have "ucast lo OR push_bit 32 (ucast hi) = (ucast lo + push_bit 32 (ucast hi) :: u64)"
    by (rule disjunctive_add_eq_or [symmetric])
  moreover have "unat (push_bit 32 (ucast hi) :: u64) = 2 ^ 32 * unat hi"
    using unat_u32_bound [of hi] by (simp add: unat_push_bit_mod mult.commute)
  moreover have "unat lo + 4294967296 * unat hi < 18446744073709551616"
    using unat_u32_bound [of hi] unat_u32_bound [of lo] by linarith
  ultimately show ?thesis by (simp add: unat_add_small)
qed

text \<open>One step of the loop: what a conversion or a character adds.\<close>

lemma loop_char:
  assumes "tty_mem st p = c" "c \<noteq> 0" "c \<noteq> per_cent"
  shows "printf_loop p params w st = printf_loop (p + 1) params (w + 1) (terminal_putchar c st)"
  using assms by (subst printf_loop.simps) (simp add: per_cent_def)

lemma loop_conv:
  assumes "tty_mem st p = per_cent" "printf_conv (tty_mem st (p + 1)) params st = Some (Inr (int (length out), params', fold terminal_putchar out st))"
  shows "printf_loop p params w st = printf_loop (p + 2) params' (w + int (length out)) (fold terminal_putchar out st)"
  using assms by (subst printf_loop.simps) (simp add: per_cent_def)

lemma loop_fault:
  assumes "tty_mem st p = per_cent" "printf_conv (tty_mem st (p + 1)) params st = Some (Inl e)"
  shows "printf_loop p params w st = Some (Inl e)"
  using assms by (subst printf_loop.simps) (simp add: per_cent_def)

definition printed :: "int \<Rightarrow> tty \<Rightarrow> string + u8 list \<Rightarrow> (int \<times> tty) result option" where
  "printed w st r = Some (case r of Inl e \<Rightarrow> Inl (Panic e) | Inr out \<Rightarrow> Inr (w + int (length out), fold terminal_putchar out st))"

lemma printed_append: "printed (w + int (length out)) (fold terminal_putchar out st) r = printed w st (map_sum id ((@) out) r)"
  by (cases r) (simp_all add: printed_def)

lemma printed_char: "printed (w + 1) (terminal_putchar c st) r = printed w st (map_sum id ((#) c) r)"
  by (cases r) (simp_all add: printed_def)

lemmas conv_codes = per_cent_37 printf_conv_def

lemma map_sum_cons: "map_sum id ((@) [c]) r = map_sum id ((#) c) r"
  by (cases r) simp_all

text \<open>A conversion that prints \<open>out\<close>, followed by the rest of the format.\<close>

lemma conv_step:
  assumes "tty_ok st" "same_outside st0 st" "text_at st0 p (per_cent # c # f)"
    and conv: "printf_conv c params st = Some (Inr (int (length out), params', fold terminal_putchar out st))"
    and rest: "\<And>st p w. tty_ok st \<Longrightarrow> same_outside st0 st \<Longrightarrow> text_at st0 p f \<Longrightarrow> printf_loop p params' w st = printed w st r"
  shows "printf_loop p params w st = printed w st (map_sum id ((@) out) r)"
proof -
  note t = text_at_Cons2 [OF text_at_same [OF assms(2,3)]] text_at_Cons2(4) [OF assms(3)]
  note o = putchar_fold [OF assms(1), of out]
  have "printf_loop p params w st = printf_loop (p + 2) params' (w + int (length out)) (fold terminal_putchar out st)"
    using conv t(3) by (intro loop_conv [OF t(1)]) simp
  also have "\<dots> = printed (w + int (length out)) (fold terminal_putchar out st) r"
    using o same_outside_trans [OF assms(2)] t(5) by (intro rest) blast+
  finally show ?thesis by (simp only: printed_append)
qed

lemma printf_run:
  assumes "renders st0 f params r"
  shows "tty_ok st \<Longrightarrow> same_outside st0 st \<Longrightarrow> text_at st0 p f \<Longrightarrow> printf_loop p params w st = printed w st r"
  using assms
proof (induction arbitrary: st p w rule: renders.induct)
  case (renders_end params)
  then have "tty_mem st p = 0" using text_at_same text_at_Nil by blast
  then show ?case by (subst printf_loop.simps) (simp add: printed_def)
next
  case (renders_char c f params r)
  note t = text_at_Cons [OF text_at_same [OF renders_char.prems(2,3)]] text_at_Cons(3) [OF renders_char.prems(3)]
  note 1 = putchar_run [OF renders_char.prems(1), of c]
  have "printf_loop (p + 1) params (w + 1) (terminal_putchar c st) = printed (w + 1) (terminal_putchar c st) r"
    using renders_char.IH [OF 1(2) _ t(4)] same_outside_trans [OF renders_char.prems(2) 1(3)] by blast
  then show ?case using loop_char [OF t(1,2) renders_char.hyps(1)] by (simp add: printed_char)
next
  case (renders_cut params)
  note t = text_at_Cons [OF text_at_same [OF renders_cut.prems(2,3)]]
  have "tty_mem st (p + 1) = 0" using text_at_Nil [OF t(3)] .
  then have "printf_conv (tty_mem st (p + 1)) params st = Some (Inl (Panic ''Unexpected end of format string''))"
    by (simp add: printf_conv_def)
  from loop_fault [OF t(1) this] show ?case by (simp add: printed_def)
next
  case (renders_unknown c f params)
  note t = text_at_Cons2 [OF text_at_same [OF renders_unknown.prems(2,3)]]
  have c0: "c \<noteq> 0" using text_at_Cons(2) [OF text_at_Cons(3) [OF text_at_same [OF renders_unknown.prems(2,3)]]] .
  have "printf_conv c params st = Some (Inl (Panic ''Unknown format''))"
    using renders_unknown.hyps c0 by (simp add: printf_conv_def)
  then have "printf_conv (tty_mem st (p + 1)) params st = Some (Inl (Panic ''Unknown format''))" using t(3) by simp
  from loop_fault [OF t(1) this] show ?case by (simp add: printed_def)
next
  case (renders_per_cent f params r)
  have "printf_conv per_cent params st = Some (Inr (int (length [per_cent]), params, fold terminal_putchar [per_cent] st))"
    by (simp add: conv_codes)
  from conv_step [OF renders_per_cent.prems this renders_per_cent.IH] show ?case by (simp add: map_sum_cons)
next
  case (renders_c f params r a)
  have "printf_conv (of_char CHR ''c'') (a # params) st = Some (Inr (int (length [ucast a]), params, fold terminal_putchar [ucast a] st))"
    by (simp add: printf_conv_def)
  from conv_step [OF renders_c.prems this renders_c.IH] show ?case by (simp add: map_sum_cons)
next
  case (renders_s q s f params r)
  note t = text_at_same [OF renders_s.prems(2) renders_s.hyps(1)]
  have "unat (of_nat (length s) :: u32) = length s"
    using str_at_length [of "tty_mem st" q s] t by (intro unat_of_nat_small) (simp add: text_at_def)
  then have l: "uint (of_nat (length s) :: u32) = int (length s)" unfolding uint_nat by (simp only:)
  have "printf_conv (of_char CHR ''s'') (q # params) st = Some (Inr (int (length s), params, fold terminal_putchar s st))"
    using terminal_write_text [OF renders_s.prems(1) t] l by (simp add: printf_conv_def)
  from conv_step [OF renders_s.prems this renders_s.IH] show ?case .
next
  case (renders_x f params r a)
  show ?case by (rule conv_step [OF renders_x.prems _ renders_x.IH]) (simp_all add: printf_conv_def printf_u_bases)
next
  case (renders_X f params r a)
  show ?case by (rule conv_step [OF renders_X.prems _ renders_X.IH]) (simp_all add: printf_conv_def printf_u_bases)
next
  case (renders_o f params r a)
  show ?case by (rule conv_step [OF renders_o.prems _ renders_o.IH]) (simp_all add: printf_conv_def printf_u_bases)
next
  case (renders_u f params r a)
  show ?case by (rule conv_step [OF renders_u.prems _ renders_u.IH]) (simp_all add: printf_conv_def printf_u_bases)
next
  case (renders_J f params r lo hi)
  show ?case by (rule conv_step [OF renders_J.prems _ renders_J.IH]) (simp_all add: printf_conv_def printf_u_bases unat_pair)
qed

section \<open>Properties\<close>

text \<open>The i386 compiler calls the routines of \<open>arithmetic.c\<close> for the divisions of \<open>printf_u\<close>.\<close>

lemma runtime_division:
  assumes "2 \<le> unat base" "unat base \<le> 16"
  shows "udivdi3 n (ucast (base :: u16)) = Inr (n div ucast base)" "umoddi3 n (ucast base) = Inr (n mod ucast base)"
proof -
  have b: "unat (ucast base :: u64) = unat base" by (simp add: unat_ucast_widen)
  then have nz: "(ucast base :: u64) \<noteq> 0" using assms by auto
  show "udivdi3 n (ucast base) = Inr (n div ucast base)" using nz by (simp add: udivdi3_def udiv64_eq)
  have "unat (n mod ucast base) < 16"
    using assms mod_less_divisor [of "unat base" "unat n"] unfolding unat_mod_distrib b by linarith
  then have "unat (ucast (ucast (n mod ucast base) :: u32) :: u64) = unat (n mod ucast base)"
    by (simp only: unat_ucast_mod) simp
  then show "umoddi3 n (ucast base) = Inr (n mod ucast base)"
    using nz by (simp add: umoddi3_def umod64_eq word_eq_unat_iff)
qed

text \<open>
  C33. \<open>printf\<close> ends, writes on the console the text that its format and its arguments stand for, whatever
  the conversions, and returns its length; it panics exactly at the first conversion that it does not
  know or that the end of the format cuts. Format and strings may be anywhere in memory but on the
  screen.
\<close>

theorem printf_correct:
  assumes "renders st f params r" "tty_ok st" "text_at st p f"
  shows "printf p params st =
    Some (case r of Inl e \<Rightarrow> Inl (Panic e) | Inr out \<Rightarrow> Inr (int (length out), fold terminal_putchar out st))"
  using printf_run [OF assms(1,2) same_outside_refl assms(3), of 0] by (cases r) (simp_all add: printf_def printed_def)

definition example_tty :: tty where
  "example_tty = \<lparr>terminal_row = 0, terminal_column = 0, terminal_color = 7, terminal_buffer = 0xC00B8000,
     tty_mem = (\<lambda>_. 0)(0x1000 := 37, 0x1001 := 120, 0x1002 := 33)\<rparr>"

theorem printf_correct_witness:
  "printf 0x1000 [0x2f] example_tty = Some (Inr (3, fold terminal_putchar [50, 102, 33] example_tty))"
proof -
  have d: "to_digits 16 47 = [2, 15]" by (simp add: to_digits.simps)
  have n: "numeral_text False 16 47 = [50, 102]" by (simp add: numeral_text_def d LOWER_DIGITS_def)
  have "renders example_tty (per_cent # of_char CHR ''x'' # [33]) [0x2f]
      (map_sum id ((@) (numeral_text False 16 (unat (0x2f :: u32)))) (map_sum id ((#) 33) (Inr [])))"
    by (intro renders_x renders_char renders_end) (simp add: per_cent_37)
  then have "renders example_tty [37, 120, 33] [0x2f] (Inr [50, 102, 33])" by (simp add: per_cent_37 n)
  moreover have "tty_ok example_tty" by (simp add: tty_ok_def example_tty_def)
  moreover have "text_at example_tty 0x1000 [37, 120, 33]"
  proof -
    have "unat (0x1000 + of_nat k - 0xC00B8000 :: u32) \<ge> 4000" if "k \<le> 3" for k :: nat
    proof -
      have "k = 0 \<or> k = 1 \<or> k = 2 \<or> k = 3" using that by linarith
      then show ?thesis by auto
    qed
    then show ?thesis by (simp add: text_at_def on_screen_def example_tty_def not_less)
  qed
  ultimately show ?thesis using printf_correct [of example_tty "[37, 120, 33]" "[0x2f]" "Inr [50, 102, 33]" "0x1000"] by simp
qed

text \<open>
  C34. The digits that \<open>printf_u\<close> writes in a base from 8 to 16 read back as the number, start with a zero only
  for zero itself and are as many as it returns; the array of 22 characters is large enough for every
  64-bit number, and the two divisions of the loop are computed exactly by the routines of the kernel.
\<close>

theorem printf_u_round_trip:
  assumes "8 \<le> unat base" "unat base \<le> 16"
  shows "\<exists>ds. printf_u i base uppercase st =
      Inr (int (length ds), fold terminal_putchar (map ((!) (if uppercase then UPPER_DIGITS else LOWER_DIGITS)) ds) st)
    \<and> of_digits (unat base) ds = unat i \<and> set ds \<subseteq> {0..<unat base} \<and> (hd ds = 0 \<longrightarrow> i = 0) \<and> length ds \<le> 22
    \<and> udivdi3 n (ucast base) = Inr (n div ucast base) \<and> umoddi3 n (ucast base) = Inr (n mod ucast base)"
proof -
  let ?ds = "to_digits (unat base) (unat i)"
  have b: "2 \<le> unat base" using assms(1) by simp
  note f = fits_22 [OF assms(1), of i]
  have "i = 0" if "hd ?ds = 0" using to_digits_head [OF that] by (simp add: unat_eq_zero)
  moreover have "set ?ds \<subseteq> {0..<unat base}" using to_digits_less [OF b] by auto
  ultimately show ?thesis
    using printf_u_run [OF b assms(2) f, of uppercase st] to_digits_value [of "unat base" "unat i"] to_digits_length [OF b f]
      runtime_division [OF b assms(2), of n]
    by (intro exI [of _ ?ds]) (simp add: numeral_text_def)
qed

theorem printf_u_round_trip_witness:
  "\<exists>ds. printf_u 18446744073709551615 8 True example_tty = Inr (int (length ds), fold terminal_putchar (map ((!) UPPER_DIGITS) ds) example_tty)
    \<and> of_digits 8 ds = 18446744073709551615 \<and> length ds \<le> 22"
  using printf_u_round_trip [of 8 18446744073709551615 True example_tty 0] by auto

text \<open>
  The guard of the array in \<open>printf_u\<close> lets one character too many through: in every base from 2 to 16 a
  number of more than 22 digits is written past the end of the array and never reaches the panic that
  the guard is for. No conversion of \<open>printf\<close> uses a base below 8, for which alone such numbers exist.
\<close>

theorem printf_u_overruns_array:
  assumes "2 \<le> unat base" "unat base \<le> 16" "unat base ^ 22 \<le> unat i"
  shows "printf_u i base uppercase st = Inl (BadAccess 22) \<and> unat base < 8"
proof -
  have "i \<noteq> 0" using assms(1,3) by auto
  moreover have "\<not> base > 16" using assms(2) by (simp add: word_less_nat_alt)
  moreover have "unat base < 8" using fits_22 [of base i] assms(3) by linarith
  ultimately show ?thesis
    using printf_digits_overrun [OF assms(1,3), of "[]"] by (simp add: printf_u_def Let_def)
qed

theorem printf_u_overruns_array_witness: "printf_u 4194304 2 True example_tty = Inl (BadAccess 22)"
  using printf_u_overruns_array [of 2 4194304 True example_tty] by simp

end
