(* ===== verification/KList.thy ===== *)
theory KList
  imports Sched
begin

text \<open>
  The intrusive lists of \<open>kernel/list.h\<close> and \<open>list.c\<close>: list heads in a store, klinked in both directions
  in a circle that starts and ends with the head of the list.
\<close>

record list_head =
  l_next :: u32
  l_previous :: u32

type_synonym lists = "u32 \<rightharpoonup> list_head"

text \<open>\<open>LIST_HEAD_INIT\<close>\<close>

definition list_head_init :: "u32 \<Rightarrow> list_head" where
  "list_head_init head = \<lparr>l_next = head, l_previous = head\<rparr>"

definition list_empty :: "u32 \<Rightarrow> lists \<Rightarrow> bool result" where
  "list_empty head h = bindE (deref h head) (\<lambda>l. Inr (l_next l = l_previous l))"

definition list_add :: "u32 \<Rightarrow> u32 \<Rightarrow> lists \<Rightarrow> lists result" where
  "list_add head new h =
     bindE (deref h head) (\<lambda>l.
     let after_head = l_next l
     in bindE (modify_at h head (l_next_update (\<lambda>_. new))) (\<lambda>h.
        bindE (modify_at h new (l_next_update (\<lambda>_. after_head))) (\<lambda>h.
        bindE (modify_at h after_head (l_previous_update (\<lambda>_. new))) (\<lambda>h.
        modify_at h new (l_previous_update (\<lambda>_. head))))))"

section \<open>Lists as circles\<close>

text \<open>The links from one item to the next, in both directions.\<close>

fun klinked :: "lists \<Rightarrow> u32 \<Rightarrow> u32 list \<Rightarrow> u32 \<Rightarrow> bool" where
  "klinked h a [] z \<longleftrightarrow> (\<exists>p q. h a = Some p \<and> h z = Some q \<and> l_next p = z \<and> l_previous q = a)"
| "klinked h a (x # xs) z \<longleftrightarrow> (\<exists>p q. h a = Some p \<and> h x = Some q \<and> l_next p = x \<and> l_previous q = a) \<and> klinked h x xs z"

definition klist :: "lists \<Rightarrow> u32 \<Rightarrow> u32 list \<Rightarrow> bool" where
  "klist h head xs \<longleftrightarrow> distinct (head # xs) \<and> klinked h head xs head"

lemma klinked_cong:
  assumes "klinked h a xs z" "h' a = Some p'" "l_next p' = l_next (the (h a))" "h' z = Some q'" "l_previous q' = l_previous (the (h z))"
    "\<And>x. x \<in> set xs \<Longrightarrow> h' x = h x"
  shows "klinked h' a xs z"
  using assms
proof (induction xs arbitrary: a p')
  case (Cons x xs)
  from Cons.prems(1) obtain p q where pq: "h a = Some p" "h x = Some q" "l_next p = x" "l_previous q = a" "klinked h x xs z"
    by auto
  have "klinked h' x xs z"
    by (rule Cons.IH [OF pq(5), of q]) (use Cons.prems pq in auto)
  then show ?case using pq Cons.prems by auto
qed auto

lemma klist_init: "h head = Some (list_head_init head) \<Longrightarrow> klist h head []"
  by (simp add: klist_def list_head_init_def)

text \<open>A new item comes first.\<close>

lemma list_add_run:
  assumes l: "klist h head xs" and n: "new \<notin> set (head # xs)" "new \<in> dom h"
  obtains h' where "list_add head new h = Inr h'" "klist h' head (new # xs)" "dom h' = dom h"
    "\<And>q. q \<notin> insert new (insert head (set xs)) \<Longrightarrow> h' q = h q"
proof -
  obtain hn where hn: "h new = Some hn" using n(2) by blast
  define z where "z = hd (xs @ [head])"
  obtain hh hz where hh: "h head = Some hh" "l_next hh = z" and hz: "h z = Some hz" "l_previous hz = head"
    using l by (cases xs) (auto simp: klist_def z_def)
  have d: "distinct (head # xs)" "klinked h head xs head" using l by (simp_all add: klist_def)
  have nz: "new \<noteq> head" "new \<noteq> z" using n(1) by (auto simp: z_def hd_append)
  define hh' where "hh' = hh\<lparr>l_next := new\<rparr>"
  define h1 where "h1 = h(head \<mapsto> hh')"
  define h2 where "h2 = h1(new \<mapsto> hn\<lparr>l_next := z\<rparr>)"
  have h2z: "\<exists>q. h2 z = Some q" using hz(1) by (simp add: h2_def h1_def)
  then obtain qz where qz: "h2 z = Some qz" by blast
  define h3 where "h3 = h2(z \<mapsto> qz\<lparr>l_previous := new\<rparr>)"
  define h4 where "h4 = h3(new \<mapsto> \<lparr>l_next = z, l_previous = head\<rparr>)"
  have n3: "h3 new = Some (hn\<lparr>l_next := z\<rparr>)" using nz by (simp add: h3_def h2_def)
  have run: "list_add head new h = Inr h4"
  proof -
    have "modify_at h head (l_next_update (\<lambda>_. new)) = Inr h1" using hh(1) by (simp add: h1_def hh'_def)
    moreover have "modify_at h1 new (l_next_update (\<lambda>_. z)) = Inr h2" using hn nz(1) by (simp add: h2_def h1_def)
    moreover have "modify_at h2 z (l_previous_update (\<lambda>_. new)) = Inr h3" using qz by (simp add: h3_def)
    moreover have "modify_at h3 new (l_previous_update (\<lambda>_. head)) = Inr h4" using n3 by (cases hn) (simp add: h4_def)
    ultimately show ?thesis using hh by (simp add: list_add_def)
  qed
  have dm: "dom h4 = dom h" using hh(1) hn hz(1) by (auto simp: h4_def h3_def h2_def h1_def)
  have fr: "h4 q = h q" if "q \<notin> insert new (insert head (set xs))" for q
  proof -
    have "q \<noteq> z" using that by (cases xs) (auto simp: z_def)
    then show ?thesis using that by (simp add: h4_def h3_def h2_def h1_def)
  qed
  have new4: "h4 new = Some \<lparr>l_next = z, l_previous = head\<rparr>" by (simp add: h4_def)
  have "klinked h4 head (new # xs) head"
  proof (cases xs)
    case Nil
    then have "z = head" by (simp add: z_def)
    then show ?thesis using Nil nz new4 qz by (auto simp: h4_def h3_def h2_def h1_def hh'_def)
  next
    case (Cons y ys)
    then have zy: "z = y" and dd: "distinct (head # y # ys)" "klinked h y ys head" using d by (auto simp: z_def)
    have qq: "qz = hz" using qz hz(1) zy dd(1) nz by (auto simp: h2_def h1_def)
    have h4s: "h4 head = Some hh'" "h4 y = Some (hz\<lparr>l_previous := new\<rparr>)"
      using zy dd(1) nz qq by (auto simp: h4_def h3_def h2_def h1_def)
    have "klinked h4 y ys head"
    proof (rule klinked_cong [OF dd(2) h4s(2) _ h4s(1)])
      show "h4 x = h x" if "x \<in> set ys" for x
        using that dd(1) n(1) zy Cons by (auto simp: h4_def h3_def h2_def h1_def)
    qed (use hz hh zy in \<open>simp_all add: hh'_def\<close>)
    then show ?thesis using Cons h4s new4 zy by (simp add: hh'_def)
  qed
  then have "klist h4 head (new # xs)" using d(1) n(1) by (auto simp: klist_def)
  then show ?thesis using that run dm fr by blast
qed

text \<open>\<open>list_empty\<close> compares the two neighbours of the head: it is true for a list of one item too.\<close>

lemma list_empty_run:
  assumes "klist h head xs"
  shows "list_empty head h = Inr (length xs \<le> 1)"
proof (cases xs)
  case Nil
  then show ?thesis using assms by (auto simp: klist_def list_empty_def)
next
  case (Cons x ys)
  have "\<exists>q. h head = Some q \<and> l_previous q = last (a # as)" if "klinked h a as head" for a as
    using that by (induction as arbitrary: a) auto
  then obtain q where q: "h head = Some q" "l_previous q = last (x # ys)" using assms Cons by (auto simp: klist_def)
  moreover have "l_next q = x" using assms Cons q(1) by (auto simp: klist_def)
  moreover have "x = last (x # ys) \<longleftrightarrow> ys = []" using assms Cons last_in_set [of ys] by (auto simp: klist_def)
  ultimately show ?thesis using Cons by (auto simp: list_empty_def)
qed

end
