(* ===== verification/Tarfs.thy ===== *)
theory Tarfs
  imports KList "HOL-Library.Signed_Division"
begin

text \<open>
  The file system of \<open>kernel/src/all/kernel/vfs/tarfs.c\<close>, built from the tar archive that the boot loader
  passes to the kernel: its nodes in stores from addresses to structures, allocated on the kernel
  heap, names and file contents as bytes of memory, directories as the lists of \<open>KList\<close>. It is the
  only implementation of the tables \<open>vfsops\<close> and \<open>vnodeops\<close>, so that the \<open>ops\<close> pointers are not stored.
\<close>

section \<open>Data\<close>

datatype vtype = VREG | VDIR

record vnode =
  v_type :: vtype
  v_data :: u32

record vfs =
  vfs_next :: u32
  vfs_data :: u32

datatype uio_rw = UIO_READ | UIO_WRITE

record uio =
  uio_offset :: u32
  uio_buffer :: u32
  uio_length :: u32

record tar_reg_data =
  reg_size :: u32
  reg_content :: u32

text \<open>The \<open>list\<close> member of an entry is the list head 8 bytes after it, \<open>entry_list\<close> is at the address of the directory's data.\<close>

record tar_dir_entry =
  entry_name :: u32
  entry_vnode :: u32

record fs_state =
  f_vfs :: "u32 \<rightharpoonup> vfs"
  f_roots :: "u32 \<rightharpoonup> u32"
  f_vnodes :: "u32 \<rightharpoonup> vnode"
  f_regs :: "u32 \<rightharpoonup> tar_reg_data"
  f_entries :: "u32 \<rightharpoonup> tar_dir_entry"
  f_lists :: lists
  f_sys :: heap_state

definition fs_mem :: "fs_state \<Rightarrow> mem" where
  "fs_mem fs = h_mem (f_sys fs)"

definition set_fs_mem :: "mem \<Rightarrow> fs_state \<Rightarrow> fs_state" where
  "set_fs_mem m fs = fs\<lparr>f_sys := (f_sys fs)\<lparr>h_mem := m\<rparr>\<rparr>"

definition fs_malloc :: "u32 \<Rightarrow> u32 \<Rightarrow> u32 \<Rightarrow> u32 \<Rightarrow> fs_state \<Rightarrow> (u32 \<times> fs_state) result option" where
  "fs_malloc A V me sz fs = map_option (\<lambda>r. bindE r (\<lambda>(p, sys). Inr (p, fs\<lparr>f_sys := sys\<rparr>))) (malloc A V me sz (f_sys fs))"

definition fs_free :: "u32 \<Rightarrow> u32 \<Rightarrow> u32 \<Rightarrow> fs_state \<Rightarrow> fs_state result" where
  "fs_free A me p fs = bindE (free A me p (f_sys fs)) (\<lambda>sys. Inr (fs\<lparr>f_sys := sys\<rparr>))"

section \<open>Tar headers\<close>

text \<open>The offsets of the fields of \<open>struct tar_header\<close>.\<close>

definition header_size :: u32 where "header_size = 100 + 8 + 8 + 8"
definition header_type :: u32 where "header_type = header_size + 12 + 12 + 8"
definition header_ustar :: u32 where "header_ustar = header_type + 1 + 100"
definition header_ustarversion :: u32 where "header_ustarversion = header_ustar + 6"

definition is_empty_header :: "mem \<Rightarrow> u32 \<Rightarrow> bool" where
  "is_empty_header m header \<longleftrightarrow> m header = 0"

definition is_valid_header :: "mem \<Rightarrow> u32 \<Rightarrow> bool" where
  "is_valid_header m header \<longleftrightarrow> str_at m (header + header_ustar) (map of_char ''ustar'')
     \<and> m (header + header_ustarversion) = of_char CHR ''0'' \<and> m (header + header_ustarversion + 1) = of_char CHR ''0''"

text \<open>The characters are signed; the arithmetic is that of the 32-bit registers.\<close>

partial_function (option) read_octal_loop :: "mem \<Rightarrow> u32 \<Rightarrow> u32 \<Rightarrow> u32 \<Rightarrow> u32 option" where
  "read_octal_loop m field i res =
     (if m (field + i) \<noteq> 0 then read_octal_loop m field (i + 1) (res * 8 + scast (m (field + i)) - of_char CHR ''0'')
      else Some res)"

definition read_octal :: "mem \<Rightarrow> u32 \<Rightarrow> u32 option" where
  "read_octal m field = read_octal_loop m field 0 0"

definition next_header :: "mem \<Rightarrow> u32 \<Rightarrow> u32 option" where
  "next_header m header =
     map_option (\<lambda>sz.
       let next_h = header + of_int ((sint sz sdiv 512 + 1) * 512)
       in if sint sz smod 512 \<noteq> 0 then next_h + 512 else next_h)
     (read_octal m (header + header_size))"

section \<open>Nodes\<close>

definition create_dir :: "u32 \<Rightarrow> u32 \<Rightarrow> u32 \<Rightarrow> fs_state \<Rightarrow> (u32 \<times> fs_state) result option" where
  "create_dir A V me fs =
     bindO (fs_malloc A V me 12 fs) (\<lambda>(node, fs).
     if node = 0 then Some (Inr (0, fs))
     else
       let fs = fs\<lparr>f_vnodes := (f_vnodes fs)(node \<mapsto> \<lparr>v_type = VDIR, v_data = load32 (fs_mem fs) (node + 8)\<rparr>)\<rparr>
       in bindO (fs_malloc A V me 8 fs) (\<lambda>(data, fs).
          if data = 0 then
            Some (bindE (fs_free A me node fs) (\<lambda>fs. Inr (0, fs\<lparr>f_vnodes := (f_vnodes fs)(node := None)\<rparr>)))
          else
            let fs = fs\<lparr>f_lists := (f_lists fs)(data \<mapsto> list_head_init data)\<rparr>
            in Some (bindE (modify_at (f_vnodes fs) node (v_data_update (\<lambda>_. data))) (\<lambda>vnodes.
                     Inr (node, fs\<lparr>f_vnodes := vnodes\<rparr>)))))"

definition create_file :: "u32 \<Rightarrow> u32 \<Rightarrow> u32 \<Rightarrow> u32 \<Rightarrow> fs_state \<Rightarrow> (u32 \<times> fs_state) result option" where
  "create_file A V me header fs =
     bindO (fs_malloc A V me 12 fs) (\<lambda>(node, fs).
     if node = 0 then Some (Inr (0, fs))
     else
       let fs = fs\<lparr>f_vnodes := (f_vnodes fs)(node \<mapsto> \<lparr>v_type = VREG, v_data = load32 (fs_mem fs) (node + 8)\<rparr>)\<rparr>
       in bindO (fs_malloc A V me 8 fs) (\<lambda>(data, fs).
          if data = 0 then
            Some (bindE (fs_free A me node fs) (\<lambda>fs. Inr (0, fs\<lparr>f_vnodes := (f_vnodes fs)(node := None)\<rparr>)))
          else
            bindO (Some (modify_at (f_vnodes fs) node (v_data_update (\<lambda>_. data)))) (\<lambda>vnodes.
            bindO (map_option Inr (read_octal (fs_mem fs) (header + header_size))) (\<lambda>sz.
            let fs = fs\<lparr>f_vnodes := vnodes,
                   f_regs := (f_regs fs)(data \<mapsto> \<lparr>reg_size = sz, reg_content = load32 (fs_mem fs) (data + 4)\<rparr>)\<rparr>
            in bindO (fs_malloc A V me sz fs) (\<lambda>(content, fs).
               if content = 0 then
                 Some (bindE (fs_free A me data fs) (\<lambda>fs.
                       bindE (fs_free A me node fs) (\<lambda>fs.
                       Inr (0, fs\<lparr>f_vnodes := (f_vnodes fs)(node := None), f_regs := (f_regs fs)(data := None)\<rparr>))))
               else
                 let (p, m) = memcpy (fs_mem fs) content (header + 512) sz;
                     fs = set_fs_mem m fs
                 in Some (bindE (modify_at (f_regs fs) data (reg_content_update (\<lambda>_. p))) (\<lambda>regs.
                          Inr (node, fs\<lparr>f_regs := regs\<rparr>))))))))"

text \<open>The type of \<open>dir\<close> is not looked at: its data must be those of a directory.\<close>

definition add_to_dir :: "u32 \<Rightarrow> u32 \<Rightarrow> u32 \<Rightarrow> u32 \<Rightarrow> u32 \<Rightarrow> u32 \<Rightarrow> fs_state \<Rightarrow> (int \<times> fs_state) result option" where
  "add_to_dir A V me dir name child fs =
     bindO (Some (deref (f_vnodes fs) dir)) (\<lambda>d.
     let data = v_data d
     in bindO (fs_malloc A V me 16 fs) (\<lambda>(entry, fs).
        if entry = 0 then Some (Inr (- 1, fs))
        else
          bindO (map_option Inr (strlen (fs_mem fs) name)) (\<lambda>len.
          bindO (fs_malloc A V me (len + 1) fs) (\<lambda>(name_copy, fs).
          if name_copy = 0 then Some (bindE (fs_free A me entry fs) (\<lambda>fs. Inr (- 1, fs)))
          else
            bindO (map_option Inr (strcpy (fs_mem fs) name_copy name)) (\<lambda>(_, m).
            let fs = set_fs_mem m fs;
                fs = fs\<lparr>f_entries := (f_entries fs)(entry \<mapsto> \<lparr>entry_name = name_copy, entry_vnode = child\<rparr>),
                       f_lists := (f_lists fs)(entry + 8 \<mapsto>
                          \<lparr>l_next = load32 (fs_mem fs) (entry + 8), l_previous = load32 (fs_mem fs) (entry + 12)\<rparr>)\<rparr>
            in Some (bindE (list_add data (entry + 8) (f_lists fs)) (\<lambda>lists. Inr (0, fs\<lparr>f_lists := lists\<rparr>))))))))"

section \<open>Looking up\<close>

text \<open>\<open>None\<close> stands for the result -1, with \<open>*vpp\<close> unchanged.\<close>

partial_function (option) lookup_loop :: "fs_state \<Rightarrow> u32 \<Rightarrow> u32 \<Rightarrow> u32 \<Rightarrow> u32 option result option" where
  "lookup_loop fs nm head item =
     (if item \<noteq> head then
        (case deref (f_entries fs) (item - 8) of
           Inl e \<Rightarrow> Some (Inl e)
         | Inr entry \<Rightarrow>
             (case strcmp (fs_mem fs) nm (entry_name entry) of
                None \<Rightarrow> None
              | Some c \<Rightarrow>
                  if c = 0 then Some (Inr (Some (entry_vnode entry)))
                  else (case deref (f_lists fs) item of
                          Inl e \<Rightarrow> Some (Inl e)
                        | Inr l \<Rightarrow> lookup_loop fs nm head (l_next l))))
      else Some (Inr None))"

definition node_lookup :: "u32 \<Rightarrow> u32 \<Rightarrow> fs_state \<Rightarrow> u32 option result option" where
  "node_lookup vp nm fs =
     bindO (Some (deref (f_vnodes fs) vp)) (\<lambda>n.
     if v_type n \<noteq> VDIR then Some (Inr None)
     else bindO (Some (deref (f_lists fs) (v_data n))) (\<lambda>l. lookup_loop fs nm (v_data n) (l_next l)))"

text \<open>One segment of a path, copied to the array \<open>nm\<close> of 100 characters.\<close>

function copy_segment :: "mem \<Rightarrow> u32 \<Rightarrow> int \<Rightarrow> u32 \<Rightarrow> int \<Rightarrow> int \<Rightarrow> (mem \<times> int \<times> int) result" where
  "copy_segment m path len nm nm_index index =
     (if index < len \<and> m (path + of_int index) \<noteq> of_char CHR ''/'' then
        if nm_index \<ge> 100 then Inl (BadAccess (nm + of_int nm_index))
        else copy_segment (m(nm + of_int nm_index := m (path + of_int index))) path len nm (nm_index + 1) (index + 1)
      else Inr (m, nm_index, index))"
  by pat_completeness auto
termination
  by (relation "measure (\<lambda>(m, path, len, nm, nm_index, index). nat (len - index))") auto

declare copy_segment.simps [simp del]

partial_function (option) parent_loop ::
    "u32 \<Rightarrow> int \<Rightarrow> u32 \<Rightarrow> int \<Rightarrow> u32 \<Rightarrow> fs_state \<Rightarrow> (u32 option \<times> fs_state) result option" where
  "parent_loop path len nm index current fs =
     (case copy_segment (fs_mem fs) path len nm 0 index of
        Inl e \<Rightarrow> Some (Inl e)
      | Inr (m, nm_index, index) \<Rightarrow>
          if nm_index \<ge> 100 then Some (Inl (BadAccess (nm + of_int nm_index)))
          else if index < len then
            (case node_lookup current nm (set_fs_mem (m(nm + of_int nm_index := 0)) fs) of
               None \<Rightarrow> None
             | Some (Inl e) \<Rightarrow> Some (Inl e)
             | Some (Inr None) \<Rightarrow> Some (Inr (None, set_fs_mem (m(nm + of_int nm_index := 0)) fs))
             | Some (Inr (Some current)) \<Rightarrow>
                 if index + 1 < len
                 then parent_loop path len nm (index + 1) current (set_fs_mem (m(nm + of_int nm_index := 0)) fs)
                 else Some (Inr (Some current, set_fs_mem (m(nm + of_int nm_index := 0)) fs)))
          else Some (Inr (Some current, set_fs_mem (m(nm + of_int nm_index := 0)) fs)))"

text \<open>\<open>nm\<close> is the address of the local array. The parent, or \<open>None\<close> for the result -1.\<close>

definition lookup_parent ::
    "u32 \<Rightarrow> u32 \<Rightarrow> u32 \<Rightarrow> u32 \<Rightarrow> fs_state \<Rightarrow> (u32 option \<times> fs_state) result option" where
  "lookup_parent root path name nm fs =
     bindO (map_option Inr (strlen (fs_mem fs) path)) (\<lambda>n.
     let len = sint n;
         len = (if fs_mem fs (path + of_int (len - 1)) = of_char CHR ''/'' then len - 1 else len)
     in bindO (parent_loop path len nm 0 root fs) (\<lambda>(parent, fs).
        case parent of
          None \<Rightarrow> Some (Inr (None, fs))
        | Some p \<Rightarrow>
            bindO (map_option Inr (strcpy (fs_mem fs) name nm)) (\<lambda>(_, m).
            Some (Inr (Some p, set_fs_mem m fs)))))"

section \<open>Reading\<close>

text \<open>The result, the length stored in \<open>uiop\<close> and the file system with the memory of the buffer.\<close>

definition node_rdwr :: "u32 \<Rightarrow> uio \<Rightarrow> uio_rw \<Rightarrow> fs_state \<Rightarrow> (int \<times> u32 \<times> fs_state) result" where
  "node_rdwr vp u rw fs =
     bindE (deref (f_vnodes fs) vp) (\<lambda>n.
     if v_type n \<noteq> VREG then Inr (- 1, uio_length u, fs)
     else case rw of
       UIO_READ \<Rightarrow>
         bindE (deref (f_regs fs) (v_data n)) (\<lambda>data.
         let len = (if uio_length u > reg_size data - uio_offset u then reg_size data - uio_offset u else uio_length u)
         in Inr (0, len, set_fs_mem (snd (memcpy (fs_mem fs) (uio_buffer u) (reg_content data + uio_offset u) len)) fs))
     | UIO_WRITE \<Rightarrow> Inr (- 1, uio_length u, fs))"

definition node_open :: "u32 \<Rightarrow> u32 \<Rightarrow> int" where
  "node_open vpp f = 0"

definition node_close :: "u32 \<Rightarrow> u32 \<Rightarrow> int" where
  "node_close vp f = 0"

section \<open>Mounting\<close>

text \<open>
  \<open>nm\<close> and \<open>nm'\<close> are the addresses of the arrays of \<open>fs_mount\<close> and of \<open>lookup_parent\<close>. The failures of
  \<open>add_to_dir\<close> are ignored, and what was built is kept when mounting fails.
\<close>

partial_function (option) mount_loop ::
    "u32 \<Rightarrow> u32 \<Rightarrow> u32 \<Rightarrow> u32 \<Rightarrow> u32 \<Rightarrow> u32 \<Rightarrow> u32 \<Rightarrow> fs_state \<Rightarrow> (int \<times> fs_state) result option" where
  "mount_loop A V me nm nm' root header fs =
     (if is_empty_header (fs_mem fs) header then Some (Inr (0, fs))
      else if \<not> is_valid_header (fs_mem fs) header then Some (Inr (- 1, fs))
      else
        (case lookup_parent root header nm nm' fs of
           None \<Rightarrow> None
         | Some (Inl e) \<Rightarrow> Some (Inl e)
         | Some (Inr (None, fs)) \<Rightarrow> Some (Inr (- 1, fs))
         | Some (Inr (Some parent, fs)) \<Rightarrow>
             if fs_mem fs (header + header_type) \<noteq> of_char CHR ''0'' \<and> fs_mem fs (header + header_type) \<noteq> of_char CHR ''5''
             then Some (Inr (- 1, fs))
             else
               (case (if fs_mem fs (header + header_type) = of_char CHR ''0'' then create_file A V me header fs
                      else create_dir A V me fs) of
                  None \<Rightarrow> None
                | Some (Inl e) \<Rightarrow> Some (Inl e)
                | Some (Inr (new_node, fs)) \<Rightarrow>
                    if new_node = 0 then Some (Inr (- 1, fs))
                    else
                      (case add_to_dir A V me parent nm new_node fs of
                         None \<Rightarrow> None
                       | Some (Inl e) \<Rightarrow> Some (Inl e)
                       | Some (Inr (_, fs)) \<Rightarrow>
                           (case next_header (fs_mem fs) header of
                              None \<Rightarrow> None
                            | Some header \<Rightarrow> mount_loop A V me nm nm' root header fs)))))"

definition fs_mount ::
    "u32 \<Rightarrow> u32 \<Rightarrow> u32 \<Rightarrow> u32 \<Rightarrow> u32 \<Rightarrow> u32 \<Rightarrow> u32 \<Rightarrow> fs_state \<Rightarrow> (int \<times> fs_state) result option" where
  "fs_mount A V me nm nm' vfsp datap fs =
     bindO (fs_malloc A V me 4 fs) (\<lambda>(data, fs).
     if data = 0 then Some (Inr (- 1, fs))
     else
       bindO (Some (modify_at (f_vfs fs) vfsp (vfs_data_update (\<lambda>_. data)))) (\<lambda>vfss.
       bindO (create_dir A V me (fs\<lparr>f_vfs := vfss\<rparr>)) (\<lambda>(root, fs).
       if root = 0 then Some (Inr (- 1, fs))
       else mount_loop A V me nm nm' root datap (fs\<lparr>f_roots := (f_roots fs)(data \<mapsto> root)\<rparr>))))"

definition fs_root :: "u32 \<Rightarrow> fs_state \<Rightarrow> (int \<times> u32) result" where
  "fs_root vfsp fs =
     bindE (deref (f_vfs fs) vfsp) (\<lambda>v. bindE (deref (f_roots fs) (vfs_data v)) (\<lambda>root. Inr (0, root)))"

definition vfs_tarfs_init :: "u32 \<Rightarrow> fs_state \<Rightarrow> int \<times> fs_state" where
  "vfs_tarfs_init vfsp fs =
     (if vfsp = 0 then (- 1, fs)
      else (0, fs\<lparr>f_vfs := (f_vfs fs)(vfsp \<mapsto> \<lparr>vfs_next = 0, vfs_data = load32 (fs_mem fs) (vfsp + 8)\<rparr>)\<rparr>))"

end
