(* ===== verification/Vfs.thy ===== *)
theory Vfs
  imports Tarfs
begin

text \<open>
  Files: the handles of \<open>kernel/src/all/kernel/vfs.c\<close>, opened by path, read, written and closed, and the
  functions of \<open>libk/src/all/stdio\<close> over them.
\<close>

section \<open>Data\<close>

record file_handle =
  h_node :: u32
  h_pos :: u32
  h_flags :: u32
  h_error :: int
  h_eof :: int

text \<open>A table has \<open>VFS_OPEN_FILES_LENGTH\<close> handles.\<close>

definition VFS_OPEN_FILES_LENGTH :: nat where "VFS_OPEN_FILES_LENGTH = 7"

record vfs_open_files =
  handles :: "u32 list"
  next_files :: u32

record vfs_info =
  vi_root :: u32
  vi_cwd :: u32
  vi_files :: u32

record vfs_state =
  v_fs :: fs_state
  v_handles :: "u32 \<rightharpoonup> file_handle"
  v_open_files :: "u32 \<rightharpoonup> vfs_open_files"
  v_infos :: "u32 \<rightharpoonup> vfs_info"
  v_pcbs :: "u32 \<rightharpoonup> process_control_block"
  rootvfs :: u32

definition v_mem :: "vfs_state \<Rightarrow> mem" where
  "v_mem st = fs_mem (v_fs st)"

definition set_v_mem :: "mem \<Rightarrow> vfs_state \<Rightarrow> vfs_state" where
  "set_v_mem m st = st\<lparr>v_fs := set_fs_mem m (v_fs st)\<rparr>"

definition v_malloc :: "u32 \<Rightarrow> u32 \<Rightarrow> u32 \<Rightarrow> u32 \<Rightarrow> vfs_state \<Rightarrow> (u32 \<times> vfs_state) result option" where
  "v_malloc A V me sz st = map_option (\<lambda>r. bindE r (\<lambda>(p, fs). Inr (p, st\<lparr>v_fs := fs\<rparr>))) (fs_malloc A V me sz (v_fs st))"

definition v_free :: "u32 \<Rightarrow> u32 \<Rightarrow> u32 \<Rightarrow> vfs_state \<Rightarrow> vfs_state result" where
  "v_free A me p st = bindE (fs_free A me p (v_fs st)) (\<lambda>fs. Inr (st\<lparr>v_fs := fs\<rparr>))"

text \<open>\<open>current_process_control_block()->vfs_info\<close>\<close>

definition current_vfs_info :: "u32 \<Rightarrow> vfs_state \<Rightarrow> u32 result" where
  "current_vfs_info esp0 st =
     bindE (current_process_control_block (h_mm (f_sys (v_fs st))) esp0) (\<lambda>p.
     bindE (deref (v_pcbs st) p) (\<lambda>pcb. Inr (p_vfs_info pcb)))"

section \<open>The initial file system\<close>

definition vfs_create_initial_fs ::
    "u32 \<Rightarrow> u32 \<Rightarrow> u32 \<Rightarrow> u32 \<Rightarrow> u32 \<Rightarrow> u32 \<Rightarrow> u32 \<Rightarrow> vfs_state \<Rightarrow> vfs_state result option" where
  "vfs_create_initial_fs A V me esp0 nm nm' initrd st =
     bindO (v_malloc A V me 12 st) (\<lambda>(initrdfs, st).
     if initrdfs = 0 then Some (Inl (BadAccess 0))
     else
       let (_, fs) = vfs_tarfs_init initrdfs (v_fs st)
       in bindO (fs_mount A V me nm nm' initrdfs initrd fs) (\<lambda>(error, fs).
          if error \<noteq> 0 then Some (Inl (Panic ''Unable to create initial fs''))
          else
            let st = st\<lparr>v_fs := fs, rootvfs := initrdfs\<rparr>
            in Some (bindE (current_vfs_info esp0 st) (\<lambda>info.
                     bindE (fs_root (rootvfs st) (v_fs st)) (\<lambda>(error, root).
                     bindE (modify_at (v_infos st) info (vi_root_update (\<lambda>_. root))) (\<lambda>infos.
                     if error \<noteq> 0 then Inl (Panic ''Unable to get root of inital fs'')
                     else bindE (fs_root (rootvfs st) (v_fs st)) (\<lambda>(error, root).
                          bindE (modify_at infos info (vi_cwd_update (\<lambda>_. root))) (\<lambda>infos.
                          if error \<noteq> 0 then Inl (Panic ''Unable to get root of inital fs'')
                          else Inr (st\<lparr>v_infos := infos\<rparr>)))))))))"

section \<open>Tables of open files\<close>

fun index_of :: "u32 \<Rightarrow> u32 list \<Rightarrow> nat option" where
  "index_of h [] = None"
| "index_of h (x # xs) = (if x = h then Some 0 else map_option Suc (index_of h xs))"

text \<open>A free place has the null pointer.\<close>

partial_function (option) put_loop :: "u32 \<Rightarrow> u32 \<Rightarrow> vfs_state \<Rightarrow> (int \<times> vfs_state) result option" where
  "put_loop file_handle files st =
     (case deref (v_open_files st) files of
        Inl e \<Rightarrow> Some (Inl e)
      | Inr t \<Rightarrow>
          (case index_of 0 (take VFS_OPEN_FILES_LENGTH (handles t)) of
             Some i \<Rightarrow> Some (Inr (0, st\<lparr>v_open_files := (v_open_files st)(files \<mapsto> t\<lparr>handles := (handles t)[i := file_handle]\<rparr>)\<rparr>))
           | None \<Rightarrow>
               if next_files t \<noteq> 0 then put_loop file_handle (next_files t) st
               else Some (Inl (Panic ''Must append another vfs_open_files_t''))))"

definition put_file_handle :: "u32 \<Rightarrow> u32 \<Rightarrow> vfs_state \<Rightarrow> (int \<times> vfs_state) result option" where
  "put_file_handle esp0 file_handle st =
     bindO (Some (current_vfs_info esp0 st)) (\<lambda>i.
     bindO (Some (deref (v_infos st) i)) (\<lambda>info. put_loop file_handle (vi_files info) st))"

partial_function (option) remove_loop :: "u32 \<Rightarrow> u32 \<Rightarrow> vfs_state \<Rightarrow> vfs_state result option" where
  "remove_loop file_handle files st =
     (if files \<noteq> 0 then
        (case deref (v_open_files st) files of
           Inl e \<Rightarrow> Some (Inl e)
         | Inr t \<Rightarrow>
             (case index_of file_handle (take VFS_OPEN_FILES_LENGTH (handles t)) of
                Some i \<Rightarrow> Some (Inr (st\<lparr>v_open_files := (v_open_files st)(files \<mapsto> t\<lparr>handles := (handles t)[i := 0]\<rparr>)\<rparr>))
              | None \<Rightarrow> remove_loop file_handle (next_files t) st))
      else Some (Inl (Panic ''Can't find file_handle to remove'')))"

definition remove_file_handle :: "u32 \<Rightarrow> u32 \<Rightarrow> vfs_state \<Rightarrow> vfs_state result option" where
  "remove_file_handle esp0 file_handle st =
     bindO (Some (current_vfs_info esp0 st)) (\<lambda>i.
     bindO (Some (deref (v_infos st) i)) (\<lambda>info. remove_loop file_handle (vi_files info) st))"

section \<open>Opening\<close>

text \<open>
  The walk along the path: \<open>node\<close> is the address of the current vnode pointer, \<open>slash\<close> that of the string
  literal \<open>"/"\<close>. The result of the lookup that fails, or 0.
\<close>

partial_function (option) walk_loop :: "u32 \<Rightarrow> u32 \<Rightarrow> u32 \<Rightarrow> u32 \<Rightarrow> vfs_state \<Rightarrow> (int \<times> vfs_state) result option" where
  "walk_loop slash node element saveptr st =
     (if element \<noteq> 0 then
        (case node_lookup (load32 (v_mem st) node) element (v_fs st) of
           None \<Rightarrow> None
         | Some (Inl e) \<Rightarrow> Some (Inl e)
         | Some (Inr None) \<Rightarrow> Some (Inr (- 1, st))
         | Some (Inr (Some v)) \<Rightarrow>
             (case strtok_r (store32 (v_mem st) node v) 0 slash saveptr of
                None \<Rightarrow> None
              | Some (element, m, saveptr) \<Rightarrow> walk_loop slash node element saveptr (set_v_mem m st)))
      else Some (Inr (0, st)))"

text \<open>The result and, when it is 0, the handle stored through \<open>handlepp\<close>.\<close>

definition vn_open ::
    "u32 \<Rightarrow> u32 \<Rightarrow> u32 \<Rightarrow> u32 \<Rightarrow> u32 \<Rightarrow> u32 \<Rightarrow> u32 \<Rightarrow> vfs_state \<Rightarrow> (int \<times> u32 \<times> vfs_state) result option" where
  "vn_open A V me esp0 slash path f st =
     bindO (map_option Inr (strlen (v_mem st) path)) (\<lambda>len.
     if len = 0 then Some (Inr (- 1, 0, st))
     else if v_mem st (path + (len - 1)) = of_char CHR ''/'' then Some (Inr (- 1, 0, st))
     else
       bindO (v_malloc A V me 4 st) (\<lambda>(node, st).
       bindO (Some (current_vfs_info esp0 st)) (\<lambda>i.
       bindO (Some (deref (v_infos st) i)) (\<lambda>info.
       if node = 0 then Some (Inl (BadAccess 0))
       else
         let start = (if v_mem st path = of_char CHR ''/'' then vi_root info else vi_cwd info);
             st = set_v_mem (store32 (v_mem st) node start) st
         in bindO (v_malloc A V me (len + 1) st) (\<lambda>(workpath, st).
            if workpath = 0 then Some (bindE (v_free A me node st) (\<lambda>st. Inr (- 1, 0, st)))
            else
              bindO (map_option Inr (strcpy (v_mem st) workpath path)) (\<lambda>(_, m).
              bindO (map_option Inr (strtok_r m workpath slash 0)) (\<lambda>(element, m, saveptr).
              bindO (walk_loop slash node element saveptr (set_v_mem m st)) (\<lambda>(error, st).
              if error \<noteq> 0 then
                Some (bindE (v_free A me workpath st) (\<lambda>st.
                      bindE (v_free A me node st) (\<lambda>st. Inr (error, 0, st))))
              else
                bindO (Some (v_free A me workpath st)) (\<lambda>st.
                let error = node_open node f
                in if error \<noteq> 0 then Some (bindE (v_free A me node st) (\<lambda>st. Inr (error, 0, st)))
                   else
                     bindO (v_malloc A V me 20 st) (\<lambda>(handle, st).
                     if handle = 0 then Some (bindE (v_free A me node st) (\<lambda>st. Inr (- 1, 0, st)))
                     else
                       let st = st\<lparr>v_handles := (v_handles st)(handle \<mapsto>
                                 \<lparr>h_node = load32 (v_mem st) node, h_pos = 0, h_flags = f, h_error = 0, h_eof = 0\<rparr>)\<rparr>
                       in bindO (put_file_handle esp0 handle st) (\<lambda>(_, st). Some (Inr (0, handle, st)))))))))))))"

section \<open>Reading, writing and closing\<close>

definition vn_close :: "u32 \<Rightarrow> u32 \<Rightarrow> u32 \<Rightarrow> u32 \<Rightarrow> vfs_state \<Rightarrow> (int \<times> vfs_state) result option" where
  "vn_close A me esp0 handlep st =
     bindO (Some (deref (v_handles st) handlep)) (\<lambda>h.
     let error = node_close (h_node h) (h_flags h)
     in bindO (remove_file_handle esp0 handlep st) (\<lambda>st.
        bindO (Some (modify_at (v_handles st) handlep (h_node_update (\<lambda>_. 0)))) (\<lambda>hs.
        Some (bindE (v_free A me handlep (st\<lparr>v_handles := hs\<rparr>)) (\<lambda>st.
              Inr (error, st\<lparr>v_handles := (v_handles st)(handlep := None)\<rparr>))))))"

text \<open>The position advances by the length that the node reports, whatever the result.\<close>

definition vn_rdwr ::
    "u32 \<Rightarrow> uio_rw \<Rightarrow> u32 \<Rightarrow> u32 \<Rightarrow> vfs_state \<Rightarrow> (int \<times> u32 \<times> vfs_state) result" where
  "vn_rdwr handlep rw buffer len st =
     bindE (deref (v_handles st) handlep) (\<lambda>h.
     let u = \<lparr>uio_offset = h_pos h, uio_buffer = buffer, uio_length = len\<rparr>
     in bindE (node_rdwr (h_node h) u rw (v_fs st)) (\<lambda>(error, len, fs).
        bindE (modify_at (v_handles st) handlep (\<lambda>h. h\<lparr>h_pos := h_pos h + len\<rparr>)) (\<lambda>hs.
        Inr (error, len, st\<lparr>v_fs := fs, v_handles := hs\<rparr>))))"

section \<open>Standard input and output\<close>

definition EOF :: int where "EOF = - 1"

text \<open>The stream, 0 when the file cannot be opened.\<close>

definition fopen :: "u32 \<Rightarrow> u32 \<Rightarrow> u32 \<Rightarrow> u32 \<Rightarrow> u32 \<Rightarrow> u32 \<Rightarrow> vfs_state \<Rightarrow> (u32 \<times> vfs_state) result option" where
  "fopen A V me esp0 slash filename st =
     bindO (vn_open A V me esp0 slash filename 0 st) (\<lambda>(error, file, st).
     Some (Inr (if error = 0 then file else 0, st)))"

definition fclose :: "u32 \<Rightarrow> u32 \<Rightarrow> u32 \<Rightarrow> u32 \<Rightarrow> vfs_state \<Rightarrow> (int \<times> vfs_state) result option" where
  "fclose A me esp0 stream st =
     bindO (vn_close A me esp0 stream st) (\<lambda>(error, st). Some (Inr (if error \<noteq> 0 then EOF else 0, st)))"

text \<open>\<open>out\<close> is the address of the local character.\<close>

definition fgetc :: "u32 \<Rightarrow> u32 \<Rightarrow> vfs_state \<Rightarrow> (int \<times> vfs_state) result" where
  "fgetc out stream st =
     bindE (vn_rdwr stream UIO_READ out 1 st) (\<lambda>(error, len, st).
     if error = 0 then
       if len = 1 then Inr (uint (v_mem st out), st)
       else bindE (modify_at (v_handles st) stream (h_eof_update (\<lambda>_. 1))) (\<lambda>hs. Inr (EOF, st\<lparr>v_handles := hs\<rparr>))
     else bindE (modify_at (v_handles st) stream (h_error_update (\<lambda>_. error))) (\<lambda>hs. Inr (EOF, st\<lparr>v_handles := hs\<rparr>)))"

definition feof :: "u32 \<Rightarrow> vfs_state \<Rightarrow> int result" where
  "feof stream st = bindE (deref (v_handles st) stream) (\<lambda>h. Inr (h_eof h))"

definition ferror :: "u32 \<Rightarrow> vfs_state \<Rightarrow> int result" where
  "ferror stream st = bindE (deref (v_handles st) stream) (\<lambda>h. Inr (h_error h))"

definition clearerr :: "u32 \<Rightarrow> vfs_state \<Rightarrow> vfs_state result" where
  "clearerr stream st =
     bindE (modify_at (v_handles st) stream (\<lambda>h. h\<lparr>h_error := 0, h_eof := 0\<rparr>)) (\<lambda>hs. Inr (st\<lparr>v_handles := hs\<rparr>))"

end
