(* ===== verification/FileSpec.thy ===== *)
theory FileSpec
  imports Vfs
begin

text \<open>
  The correctness of files and directories: the contents of a regular file as a list of bytes and what
  reading and writing through a handle does, and the entries of a directory as an association list in
  which \<open>node_lookup\<close> looks names up.
\<close>

section \<open>Directories\<close>

text \<open>The entries of a directory, the most recent first: names and nodes.\<close>

definition entry_at :: "fs_state \<Rightarrow> u32 \<Rightarrow> u8 list \<times> u32 \<Rightarrow> bool" where
  "entry_at fs item e \<longleftrightarrow> (case f_entries fs (item - 8) of
     None \<Rightarrow> False
   | Some x \<Rightarrow> entry_vnode x = snd e \<and> str_at (fs_mem fs) (entry_name x) (fst e))"

definition dir_at :: "fs_state \<Rightarrow> u32 \<Rightarrow> (u8 list \<times> u32) list \<Rightarrow> bool" where
  "dir_at fs vp es \<longleftrightarrow> (\<exists>n items. f_vnodes fs vp = Some n \<and> v_type n = VDIR
     \<and> klist (f_lists fs) (v_data n) items \<and> list_all2 (entry_at fs) items es)"

lemma lookup_loop_run:
  assumes "klinked (f_lists fs) a items head" "head \<notin> set items" "list_all2 (entry_at fs) items es" "str_at (fs_mem fs) nm s"
  shows "lookup_loop fs nm head (l_next (the (f_lists fs a))) = Some (Inr (map_of es s))"
  using assms
proof (induction items arbitrary: a es)
  case Nil
  then show ?case by (subst lookup_loop.simps) auto
next
  case (Cons x items)
  obtain p q where pq: "f_lists fs a = Some p" "f_lists fs x = Some q" "l_next p = x" "klinked (f_lists fs) x items head"
    using Cons.prems(1) by auto
  obtain t v es' where es: "es = (t, v) # es'" "entry_at fs x (t, v)" "list_all2 (entry_at fs) items es'"
    using Cons.prems(3) by (auto simp: list_all2_Cons1)
  obtain e where e: "f_entries fs (x - 8) = Some e" "entry_vnode e = v" "str_at (fs_mem fs) (entry_name e) t"
    using es(2) by (auto simp: entry_at_def split: option.splits)
  have c: "strcmp (fs_mem fs) nm (entry_name e) = Some (str_compare s t)"
    using strcmp_str [OF Cons.prems(4) e(3)] .
  have z: "str_compare s t = 0 \<longleftrightarrow> s = t"
    using str_compare_zero_iff str_at_nonzero [OF Cons.prems(4)] str_at_nonzero [OF e(3)] by blast
  have ih: "lookup_loop fs nm head (l_next q) = Some (Inr (map_of es' s))"
    using Cons.IH [OF pq(4) _ es(3) Cons.prems(4)] Cons.prems(2) pq(2) by simp
  have xh: "x \<noteq> head" using Cons.prems(2) by auto
  show ?case
    using xh e(1,2) c z ih pq by (subst lookup_loop.simps) (simp add: es(1))
qed

lemma node_lookup_run:
  assumes "dir_at fs vp es" "str_at (fs_mem fs) nm s"
  shows "node_lookup vp nm fs = Some (Inr (map_of es s))"
proof -
  obtain n items where n: "f_vnodes fs vp = Some n" "v_type n = VDIR" "klist (f_lists fs) (v_data n) items"
      "list_all2 (entry_at fs) items es"
    using assms(1) by (auto simp: dir_at_def)
  have l: "klinked (f_lists fs) (v_data n) items (v_data n)" "v_data n \<notin> set items" using n(3) by (simp_all add: klist_def)
  obtain h where h: "f_lists fs (v_data n) = Some h" using l(1) by (cases items) auto
  show ?thesis
    using lookup_loop_run [OF l n(4) assms(2)] n(1,2) h by (simp add: node_lookup_def bindO_def)
qed

section \<open>Regular files\<close>

text \<open>A regular file whose contents are \<open>bs\<close>, at the address \<open>c\<close>.\<close>

definition file_at :: "fs_state \<Rightarrow> u32 \<Rightarrow> u32 \<Rightarrow> u8 list \<Rightarrow> bool" where
  "file_at fs vp c bs \<longleftrightarrow> length bs < 4294967296 \<and> (\<exists>d. f_vnodes fs vp = Some \<lparr>v_type = VREG, v_data = d\<rparr>
     \<and> f_regs fs d = Some \<lparr>reg_size = of_nat (length bs), reg_content = c\<rparr>) \<and> bytes_at (fs_mem fs) c (length bs) = bs"

text \<open>A buffer that shares no byte with the contents.\<close>

definition buffer_ok :: "u32 \<Rightarrow> u8 list \<Rightarrow> u32 \<Rightarrow> u32 \<Rightarrow> bool" where
  "buffer_ok c bs buffer len \<longleftrightarrow> (\<forall>i < length bs. \<not> in_range buffer len (c + of_nat i))"

text \<open>A state in which only the memory of a buffer and the handle differ.\<close>

definition moved :: "vfs_state \<Rightarrow> u32 \<Rightarrow> file_handle \<Rightarrow> mem \<Rightarrow> vfs_state" where
  "moved st h fh m = (set_v_mem m st)\<lparr>v_handles := (v_handles st)(h \<mapsto> fh)\<rparr>"

lemma moved_simps [simp]:
  "v_handles (moved st h fh m) = (v_handles st)(h \<mapsto> fh)" "v_mem (moved st h fh m) = m"
  "moved (moved st h fh m) h fh' m' = moved st h fh' m'" "fs_mem (v_fs (moved st h fh m)) = m"
  by (simp_all add: moved_def set_v_mem_def set_fs_mem_def v_mem_def fs_mem_def)

lemma file_at_moved:
  assumes "file_at (v_fs st) vp c bs" "\<And>i. i < length bs \<Longrightarrow> m (c + of_nat i) = v_mem st (c + of_nat i)"
  shows "file_at (v_fs (moved st h fh m)) vp c bs"
proof -
  have "bytes_at m c (length bs) = bytes_at (fs_mem (v_fs st)) c (length bs)"
    using assms(2) by (intro bytes_at_cong) (simp add: v_mem_def)
  then show ?thesis
    using assms(1) by (simp add: file_at_def moved_def set_v_mem_def set_fs_mem_def fs_mem_def)
qed

lemma read_run:
  assumes h: "v_handles st h = Some fh" and f: "file_at (v_fs st) (h_node fh) c bs"
    and p: "unat (h_pos fh) \<le> length bs" and b: "buffer_ok c bs buffer len"
  defines "n \<equiv> min (unat len) (length bs - unat (h_pos fh))"
  obtains m where "vn_rdwr h UIO_READ buffer len st =
      Inr (0, of_nat n, moved st h (fh\<lparr>h_pos := h_pos fh + of_nat n\<rparr>) m)"
    "bytes_at m buffer n = take n (drop (unat (h_pos fh)) bs)" "\<And>a. \<not> in_range buffer (of_nat n) a \<Longrightarrow> m a = v_mem st a"
proof -
  let ?p = "unat (h_pos fh)"
  obtain d where d: "f_vnodes (v_fs st) (h_node fh) = Some \<lparr>v_type = VREG, v_data = d\<rparr>"
      "f_regs (v_fs st) d = Some \<lparr>reg_size = of_nat (length bs), reg_content = c\<rparr>"
      and lb: "length bs < 4294967296" and bb: "bytes_at (v_mem st) c (length bs) = bs"
    using f by (auto simp: file_at_def v_mem_def)
  have ub: "unat (of_nat (length bs) :: u32) = length bs" using lb by (intro unat_of_nat_small) simp
  have us: "unat (of_nat (length bs) - h_pos fh) = length bs - ?p" using p ub by (simp add: unat_sub_small)
  have nb: "n < 4294967296" using lb by (simp add: n_def)
  have un: "unat (of_nat n :: u32) = n" using nb by (intro unat_of_nat_small) simp
  have len: "(if len > of_nat (length bs) - h_pos fh then of_nat (length bs) - h_pos fh else len) = of_nat n"
    using us un by (auto simp: word_eq_unat_iff word_less_nat_alt n_def)
  let ?src = "c + h_pos fh"
  have src: "?src + of_nat i = c + of_nat (?p + i)" for i by (simp add: add.assoc)
  have ok: "of_nat n \<le> buffer - ?src"
  proof (rule ccontr)
    assume "\<not> of_nat n \<le> buffer - ?src"
    then have k: "unat (buffer - ?src) < n" by (simp add: word_le_nat_alt un)
    have "c + of_nat (?p + unat (buffer - ?src)) = buffer" unfolding src [symmetric] by simp
    moreover have "unat (buffer - ?src) < length bs - ?p" using k by (simp add: n_def)
    then have "?p + unat (buffer - ?src) < length bs" by linarith
    ultimately have "\<not> in_range buffer len buffer" using b unfolding buffer_ok_def by metis
    moreover have "0 < unat len" using k by (simp add: n_def)
    ultimately show False by (simp add: in_range_def word_less_nat_alt)
  qed
  define m where "m = snd (memcpy (v_mem st) buffer ?src (of_nat n))"
  have m: "m = (\<lambda>a. if a - buffer < of_nat n then v_mem st (?src + (a - buffer)) else v_mem st a)"
    unfolding m_def memcpy_def using ok by (simp add: memcpy_loop_eq)
  have run: "vn_rdwr h UIO_READ buffer len st = Inr (0, of_nat n, moved st h (fh\<lparr>h_pos := h_pos fh + of_nat n\<rparr>) m)"
    using h d len by (simp add: vn_rdwr_def node_rdwr_def m_def moved_def set_v_mem_def v_mem_def Let_def split del: if_split cong del: if_weak_cong)
  have "bytes_at m buffer n = take n (drop ?p bs)"
  proof (rule nth_equalityI)
    show "length (bytes_at m buffer n) = length (take n (drop ?p bs))" using p by (simp add: n_def)
    fix i assume "i < length (bytes_at m buffer n)"
    then have i: "i < n" by simp
    have ui: "unat (of_nat i :: u32) = i" using i nb by (intro unat_of_nat_small) simp
    have "m (buffer + of_nat i) = v_mem st (c + of_nat (?p + i))"
      using i ui un src [of i] by (simp add: m word_less_nat_alt add.assoc)
    moreover have "i < length bs - ?p" using i by (simp add: n_def)
    then have "?p + i < length bs" by linarith
    then have "v_mem st (c + of_nat (?p + i)) = bs ! (?p + i)" using bytes_at_nth [of "?p + i" "length bs" "v_mem st" c] bb by simp
    ultimately show "bytes_at m buffer n ! i = take n (drop ?p bs) ! i"
      using i p by (simp add: bytes_at_nth)
  qed
  then show ?thesis using that run by (simp add: m in_range_def)
qed

lemma in_range_one: "in_range p 1 a \<longleftrightarrow> a = p"
  by (auto simp: in_range_def word_less_nat_alt unat_eq_zero)

text \<open>Reading \<open>k\<close> characters one by one.\<close>

fun fgetcs :: "nat \<Rightarrow> u32 \<Rightarrow> u32 \<Rightarrow> vfs_state \<Rightarrow> (int list \<times> vfs_state) result" where
  "fgetcs 0 out stream st = Inr ([], st)"
| "fgetcs (Suc k) out stream st =
     bindE (fgetc out stream st) (\<lambda>(c, st). bindE (fgetcs k out stream st) (\<lambda>(cs, st). Inr (c # cs, st)))"

lemma fgetc_run:
  assumes h: "v_handles st h = Some fh" and f: "file_at (v_fs st) (h_node fh) c bs"
    and p: "unat (h_pos fh) \<le> length bs" and b: "buffer_ok c bs out 1"
  shows "\<exists>m fh'. fgetc out h st = Inr (if unat (h_pos fh) < length bs then uint (bs ! unat (h_pos fh)) else EOF, moved st h fh' m)
    \<and> file_at (v_fs (moved st h fh' m)) (h_node fh) c bs \<and> h_node fh' = h_node fh \<and> h_error fh' = h_error fh
    \<and> unat (h_pos fh') = min (length bs) (unat (h_pos fh) + 1) \<and> h_eof fh' = (if unat (h_pos fh) < length bs then h_eof fh else 1)
    \<and> (\<forall>a. a \<noteq> out \<longrightarrow> m a = v_mem st a)"
proof -
  let ?n = "min (unat (1 :: u32)) (length bs - unat (h_pos fh))"
  obtain m where m: "vn_rdwr h UIO_READ out 1 st = Inr (0, of_nat ?n, moved st h (fh\<lparr>h_pos := h_pos fh + of_nat ?n\<rparr>) m)"
    "bytes_at m out ?n = take ?n (drop (unat (h_pos fh)) bs)" "\<And>a. \<not> in_range out (of_nat ?n) a \<Longrightarrow> m a = v_mem st a"
    using read_run [OF h f p b] by blast
  have lb: "length bs < 4294967296" using f by (simp add: file_at_def)
  show ?thesis
  proof (cases "unat (h_pos fh) < length bs")
    case True
    then have n: "?n = 1" by simp
    let ?fh = "fh\<lparr>h_pos := h_pos fh + 1\<rparr>"
    have up: "unat (h_pos fh + 1) = unat (h_pos fh) + 1" using True lb by (simp add: unat_add_small)
    have "m out = bs ! unat (h_pos fh)"
    proof -
      have "m out = bytes_at m out 1 ! 0" by (simp add: bytes_at_nth)
      also have "\<dots> = bs ! unat (h_pos fh)" using m(2) True by (simp add: n)
      finally show ?thesis .
    qed
    then have "fgetc out h st = Inr (uint (bs ! unat (h_pos fh)), moved st h ?fh m)"
      using m(1) unfolding n by (simp add: fgetc_def)
    moreover have "file_at (v_fs (moved st h ?fh m)) (h_node fh) c bs"
      using m(3) b unfolding n by (intro file_at_moved [OF f]) (simp add: buffer_ok_def)
    moreover have "m a = v_mem st a" if "a \<noteq> out" for a using m(3) that unfolding n by (simp add: in_range_one)
    ultimately show ?thesis using True up by (intro exI [of _ m] exI [of _ ?fh]) simp
  next
    case False
    then have n: "?n = 0" using p by simp
    let ?fh = "fh\<lparr>h_eof := 1\<rparr>"
    have "fgetc out h st = Inr (EOF, moved st h ?fh m)"
      using m(1) unfolding n by (simp add: fgetc_def moved_def)
    moreover have "file_at (v_fs (moved st h ?fh m)) (h_node fh) c bs"
      using m(3) unfolding n by (intro file_at_moved [OF f]) (simp add: in_range_def)
    moreover have "m a = v_mem st a" for a using m(3) unfolding n by (simp add: in_range_def)
    ultimately show ?thesis using False p by (intro exI [of _ m] exI [of _ ?fh]) simp
  qed
qed

lemma fgetcs_run:
  assumes "v_handles st h = Some fh" "file_at (v_fs st) (h_node fh) c bs" "unat (h_pos fh) \<le> length bs" "buffer_ok c bs out 1"
  shows "\<exists>m fh'. fgetcs k out h st = Inr (map uint (take k (drop (unat (h_pos fh)) bs)) @ replicate (k - (length bs - unat (h_pos fh))) EOF,
      if k = 0 then st else moved st h fh' m)
    \<and> (k \<noteq> 0 \<longrightarrow> h_error fh' = h_error fh \<and> h_eof fh' = (if k \<le> length bs - unat (h_pos fh) then h_eof fh else 1))"
  using assms
proof (induction k arbitrary: st fh)
  case (Suc k)
  let ?p = "unat (h_pos fh)"
  obtain m1 f1 where 1: "fgetc out h st = Inr (if ?p < length bs then uint (bs ! ?p) else EOF, moved st h f1 m1)"
    "file_at (v_fs (moved st h f1 m1)) (h_node fh) c bs" "h_node f1 = h_node fh" "h_error f1 = h_error fh"
    "unat (h_pos f1) = min (length bs) (?p + 1)" "h_eof f1 = (if ?p < length bs then h_eof fh else 1)"
    using fgetc_run [OF Suc.prems] by blast
  have hs: "v_handles (moved st h f1 m1) h = Some f1" by simp
  have le: "unat (h_pos f1) \<le> length bs" using 1(5) by simp
  obtain m2 f2 where 2: "fgetcs k out h (moved st h f1 m1) =
      Inr (map uint (take k (drop (unat (h_pos f1)) bs)) @ replicate (k - (length bs - unat (h_pos f1))) EOF,
        if k = 0 then moved st h f1 m1 else moved (moved st h f1 m1) h f2 m2)"
    "k \<noteq> 0 \<longrightarrow> h_error f2 = h_error f1 \<and> h_eof f2 = (if k \<le> length bs - unat (h_pos f1) then h_eof f1 else 1)"
    using Suc.IH [OF hs _ le Suc.prems(4)] 1(2,3) by metis
  have cs: "(if ?p < length bs then uint (bs ! ?p) else EOF) # (map uint (take k (drop (unat (h_pos f1)) bs)) @ replicate (k - (length bs - unat (h_pos f1))) EOF)
      = map uint (take (Suc k) (drop ?p bs)) @ replicate (Suc k - (length bs - ?p)) EOF"
  proof (cases "?p < length bs")
    case True
    then have "drop ?p bs = bs ! ?p # drop (Suc ?p) bs" by (rule Cons_nth_drop_Suc [symmetric])
    moreover have "k - (length bs - Suc ?p) = Suc k - (length bs - ?p)" using True by linarith
    ultimately show ?thesis using True 1(5) by simp
  next
    case False
    then show ?thesis using 1(5) Suc.prems(3) by simp
  qed
  show ?case
  proof (cases "k = 0")
    case True
    then show ?thesis using 1 2 cs by (intro exI [of _ m1] exI [of _ f1]) auto
  next
    case False
    have "h_eof f2 = (if Suc k \<le> length bs - ?p then h_eof fh else 1)"
      using 2(2) False 1(5,6) Suc.prems(3) by (cases "?p < length bs") auto
    then show ?thesis
      using 1 2 cs False by (intro exI [of _ m2] exI [of _ f2]) simp
  qed
qed simp

text \<open>A write fails and moves the position all the same.\<close>

lemma write_run:
  assumes "v_handles st h = Some fh" "file_at (v_fs st) (h_node fh) c bs"
  shows "vn_rdwr h UIO_WRITE buffer len st = Inr (- 1, len, moved st h (fh\<lparr>h_pos := h_pos fh + len\<rparr>) (v_mem st))"
  using assms by (auto simp: vn_rdwr_def node_rdwr_def file_at_def moved_def set_v_mem_def set_fs_mem_def v_mem_def fs_mem_def)

section \<open>An example\<close>

definition example_fs :: fs_state where
  "example_fs = \<lparr>f_vfs = (\<lambda>_. None), f_roots = (\<lambda>_. None),
     f_vnodes = [0x100 \<mapsto> \<lparr>v_type = VDIR, v_data = 0x200\<rparr>, 0x300 \<mapsto> \<lparr>v_type = VREG, v_data = 0x400\<rparr>],
     f_regs = [0x400 \<mapsto> \<lparr>reg_size = 2, reg_content = 0x500\<rparr>],
     f_entries = [0x600 \<mapsto> \<lparr>entry_name = 0x700, entry_vnode = 0x300\<rparr>],
     f_lists = [0x200 \<mapsto> \<lparr>l_next = 0x608, l_previous = 0x608\<rparr>, 0x608 \<mapsto> \<lparr>l_next = 0x200, l_previous = 0x200\<rparr>],
     f_sys = \<lparr>h_mem = (\<lambda>_. 0)(0x500 := 104, 0x501 := 105, 0x700 := 97, 0x800 := 97), h_info = undefined, h_mm = undefined\<rparr>\<rparr>"

definition example_vfs :: vfs_state where
  "example_vfs = \<lparr>v_fs = example_fs,
     v_handles = [0x900 \<mapsto> \<lparr>h_node = 0x300, h_pos = 0, h_flags = 0, h_error = 0, h_eof = 0\<rparr>],
     v_open_files = (\<lambda>_. None), v_infos = (\<lambda>_. None), v_pcbs = (\<lambda>_. None), rootvfs = 0\<rparr>"

lemma example_handle: "v_handles example_vfs 0x900 = Some \<lparr>h_node = 0x300, h_pos = 0, h_flags = 0, h_error = 0, h_eof = 0\<rparr>"
  by (simp add: example_vfs_def)

lemma example_file: "file_at (v_fs example_vfs) 0x300 0x500 [104, 105]"
proof -
  have "bytes_at (fs_mem example_fs) 0x500 (Suc (Suc 0)) = [104, 105]"
    by (simp add: bytes_at_def fs_mem_def example_fs_def upt_rec)
  then show ?thesis by (simp add: file_at_def example_vfs_def) (simp add: example_fs_def)
qed

lemma example_buffer: "buffer_ok 0x500 [104, 105] 0xA00 1"
  by (simp add: buffer_ok_def in_range_def less_Suc_eq)

lemma example_dir: "dir_at example_fs 0x100 [([97], 0x300)]"
  unfolding dir_at_def
  by (rule exI [of _ "\<lparr>v_type = VDIR, v_data = 0x200\<rparr>"], rule exI [of _ "[0x608]"])
    (simp add: klist_def entry_at_def fs_mem_def example_fs_def)

section \<open>Properties\<close>

text \<open>
  Looking up a name in a directory gives the node of the most recent entry with this name, and the
  result -1 exactly when no entry has it; the walk along the links of the directory ends.
\<close>

theorem node_lookup_correct:
  assumes "dir_at fs vp es" "str_at (fs_mem fs) nm s"
  shows "node_lookup vp nm fs = Some (Inr (map_of es s))"
  by (rule node_lookup_run [OF assms])

theorem node_lookup_correct_witness: "node_lookup 0x100 0x800 example_fs = Some (Inr (Some 0x300))"
proof -
  have "str_at (fs_mem example_fs) 0x800 [97]" by (simp add: fs_mem_def example_fs_def)
  from node_lookup_correct [OF example_dir this] show ?thesis by simp
qed

text \<open>
  C35. Reading an open file character by character gives its bytes from the position of the handle on,
  each exactly once and in order, then EOF for ever; the end-of-file indicator is set by the first read
  past the end and not before, no error is recorded, and nothing but the handle and memory changes.
\<close>

theorem fgetc_reads_file:
  assumes "v_handles st h = Some fh" "file_at (v_fs st) (h_node fh) c bs" "unat (h_pos fh) \<le> length bs" "buffer_ok c bs out 1"
  shows "\<exists>st' fh' m. fgetcs k out h st = Inr (map uint (take k (drop (unat (h_pos fh)) bs)) @ replicate (k - (length bs - unat (h_pos fh))) EOF, st')
    \<and> st' = (if k = 0 then st else (set_v_mem m st)\<lparr>v_handles := (v_handles st)(h \<mapsto> fh')\<rparr>)
    \<and> feof h st' = Inr (if k \<le> length bs - unat (h_pos fh) then h_eof fh else 1) \<and> ferror h st' = Inr (h_error fh)"
proof -
  obtain m fh' where r: "fgetcs k out h st = Inr (map uint (take k (drop (unat (h_pos fh)) bs)) @ replicate (k - (length bs - unat (h_pos fh))) EOF,
      if k = 0 then st else moved st h fh' m)"
    "k \<noteq> 0 \<longrightarrow> h_error fh' = h_error fh \<and> h_eof fh' = (if k \<le> length bs - unat (h_pos fh) then h_eof fh else 1)"
    using fgetcs_run [OF assms, of k] by blast
  have "feof h (if k = 0 then st else moved st h fh' m) = Inr (if k \<le> length bs - unat (h_pos fh) then h_eof fh else 1)"
    "ferror h (if k = 0 then st else moved st h fh' m) = Inr (h_error fh)"
    using r(2) assms(1) by (simp_all add: feof_def ferror_def)
  then show ?thesis using r(1) by (auto simp: moved_def)
qed

theorem fgetc_reads_file_witness:
  "\<exists>st'. fgetcs 3 0xA00 0x900 example_vfs = Inr ([104, 105, EOF], st') \<and> feof 0x900 st' = Inr 1"
  using fgetc_reads_file [OF example_handle _ _ example_buffer, of 3] example_file by auto

text \<open>
  C36. A write to a file fails, as it is not supported, but moves the position by the number of bytes that
  should have been written; once the position is past the end, the next read does not report the end
  of the file: the remaining length wraps around, and bytes that follow the contents in memory are
  returned as if they belonged to the file.
\<close>

theorem failed_write_exposes_memory:
  assumes "v_handles st h = Some fh" "file_at (v_fs st) (h_node fh) c bs"
    and "length bs < unat (h_pos fh) + unat len" "unat (h_pos fh) + unat len < 4294967296"
    and "unat k + (unat (h_pos fh) + unat len) \<le> 4294967296 + length bs" "k \<le> buffer - (c + (h_pos fh + len))"
  shows "\<exists>st1 st2. vn_rdwr h UIO_WRITE data len st = Inr (- 1, len, st1) \<and> vn_rdwr h UIO_READ buffer k st1 = Inr (0, k, st2)
    \<and> bytes_at (v_mem st2) buffer (unat k) = bytes_at (v_mem st) (c + (h_pos fh + len)) (unat k)"
proof -
  let ?fh = "fh\<lparr>h_pos := h_pos fh + len\<rparr>"
  let ?s = "moved st h ?fh (v_mem st)" and ?src = "c + (h_pos fh + len)"
  obtain d where d: "f_vnodes (v_fs st) (h_node fh) = Some \<lparr>v_type = VREG, v_data = d\<rparr>"
      "f_regs (v_fs st) d = Some \<lparr>reg_size = of_nat (length bs), reg_content = c\<rparr>" and lb: "length bs < 4294967296"
    using assms(2) by (auto simp: file_at_def)
  have up: "unat (h_pos fh + len) = unat (h_pos fh) + unat len" using assms(4) by (simp add: unat_add_small)
  have ub: "unat (of_nat (length bs) :: u32) = length bs" using lb by (intro unat_of_nat_small) simp
  let ?d = "(h_pos fh + len) - of_nat (length bs)"
  have ud: "unat ?d = unat (h_pos fh) + unat len - length bs" using assms(3) up ub by (simp add: unat_sub_small)
  then have d0: "?d \<noteq> 0" using assms(3) by auto
  have "unat (- ?d) + unat ?d = 4294967296" using unat_uminus [OF d0] by simp
  then have "unat k \<le> unat (of_nat (length bs) - (h_pos fh + len))" using assms(3,5) ud by simp
  then have le: "\<not> k > of_nat (length bs) - (h_pos fh + len)" by (simp add: word_less_nat_alt)
  let ?m = "snd (memcpy (v_mem st) buffer ?src k)"
  have run: "vn_rdwr h UIO_READ buffer k ?s = Inr (0, k, moved ?s h (?fh\<lparr>h_pos := h_pos fh + len + k\<rparr>) ?m)"
    using d le by (simp add: vn_rdwr_def node_rdwr_def moved_def set_v_mem_def set_fs_mem_def v_mem_def fs_mem_def Let_def add.assoc)
  have "?m (buffer + of_nat i) = v_mem st (?src + of_nat i)" if "i < unat k" for i
  proof -
    have "i < 4294967296" using that unat_u32_bound [of k] by linarith
    then have "unat (of_nat i :: u32) = i" by (intro unat_of_nat_small) simp
    then have "(of_nat i :: u32) < k" using that by (simp add: word_less_nat_alt)
    then show ?thesis using assms(6) by (simp add: memcpy_def memcpy_loop_eq)
  qed
  then have "bytes_at ?m buffer (unat k) = bytes_at (v_mem st) ?src (unat k)" by (intro bytes_at_cong)
  then show ?thesis using write_run [OF assms(1,2), of data len] run by auto
qed

theorem failed_write_exposes_memory_witness:
  "\<exists>st1 st2. vn_rdwr 0x900 UIO_WRITE 0xB00 0x200 example_vfs = Inr (- 1, 0x200, st1)
    \<and> vn_rdwr 0x900 UIO_READ 0xA00 1 st1 = Inr (0, 1, st2) \<and> v_mem st2 0xA00 = 97"
proof -
  have "v_mem example_vfs 0x700 = 97" by (simp add: v_mem_def fs_mem_def example_vfs_def example_fs_def)
  moreover have "bytes_at m p 1 = [m p]" for m p by (simp add: bytes_at_def)
  ultimately show ?thesis
    using failed_write_exposes_memory [OF example_handle _ , of "0x500" "[104, 105]" "0x200" 1 "0xA00" "0xB00"] example_file
    by auto
qed

end
