(* ===== verification/PathSpec.thy ===== *)
theory PathSpec
  imports FileSpec
begin

text \<open>
  The walk of \<open>vn_open\<close> along a path: the tokens of a working copy of the path, taken one by one with
  \<open>strtok_r\<close>, are looked up in one directory after the other. The reference is \<open>resolve\<close>, a recursion over
  the list of names and a tree of directories.
\<close>

section \<open>Trees of directories\<close>

text \<open>The directories, each with its entries; every other node is no directory.\<close>

type_synonym fs_tree = "u32 \<rightharpoonup> (u8 list \<times> u32) list"

definition tree_at :: "fs_state \<Rightarrow> fs_tree \<Rightarrow> bool" where
  "tree_at fs D \<longleftrightarrow> (\<forall>vp es. D vp = Some es \<longrightarrow> dir_at fs vp es
     \<and> (\<forall>(s, v) \<in> set es. D v = None \<longrightarrow> (\<exists>n. f_vnodes fs v = Some n \<and> v_type n \<noteq> VDIR)))"

fun resolve :: "fs_tree \<Rightarrow> u32 \<Rightarrow> u8 list list \<Rightarrow> u32 option" where
  "resolve D vp [] = Some vp"
| "resolve D vp (t # ts) =
     (case D vp of
        None \<Rightarrow> None
      | Some es \<Rightarrow> (case map_of es t of None \<Rightarrow> None | Some v \<Rightarrow> resolve D v ts))"

text \<open>The node the walk is at: a directory of the tree, or no directory.\<close>

definition in_tree :: "fs_state \<Rightarrow> fs_tree \<Rightarrow> u32 \<Rightarrow> bool" where
  "in_tree fs D vp \<longleftrightarrow> D vp = None \<longrightarrow> (\<exists>n. f_vnodes fs vp = Some n \<and> v_type n \<noteq> VDIR)"

text \<open>No name of an entry has a byte in \<open>W\<close>, and memory is as in \<open>m\<close> outside \<open>W\<close>.\<close>

definition names_outside :: "fs_state \<Rightarrow> u32 set \<Rightarrow> bool" where
  "names_outside fs W \<longleftrightarrow> (\<forall>x e s i. f_entries fs x = Some e \<longrightarrow> str_at (fs_mem fs) (entry_name e) s
     \<longrightarrow> i \<le> length s \<longrightarrow> entry_name e + of_nat i \<notin> W)"

definition agree_outside :: "u32 set \<Rightarrow> mem \<Rightarrow> mem \<Rightarrow> bool" where
  "agree_outside W m m' \<longleftrightarrow> (\<forall>a. a \<notin> W \<longrightarrow> m' a = m a)"

lemma set_fs_mem_simps [simp]:
  "fs_mem (set_fs_mem m fs) = m" "f_vnodes (set_fs_mem m fs) = f_vnodes fs" "f_lists (set_fs_mem m fs) = f_lists fs"
  "f_entries (set_fs_mem m fs) = f_entries fs" "set_fs_mem m' (set_fs_mem m fs) = set_fs_mem m' fs"
  by (simp_all add: set_fs_mem_def fs_mem_def)

lemma set_v_mem_simps [simp]:
  "v_mem (set_v_mem m st) = m" "v_fs (set_v_mem m st) = set_fs_mem m (v_fs st)" "set_v_mem m' (set_v_mem m st) = set_v_mem m' st"
  by (simp_all add: set_v_mem_def v_mem_def)

lemma dir_at_outside:
  assumes "dir_at fs vp es" "names_outside fs W" "agree_outside W (fs_mem fs) m"
  shows "dir_at (set_fs_mem m fs) vp es"
proof -
  have "entry_at (set_fs_mem m fs) item e" if e: "entry_at fs item e" for item e
  proof -
    obtain x where x: "f_entries fs (item - 8) = Some x" "entry_vnode x = snd e" "str_at (fs_mem fs) (entry_name x) (fst e)"
      using e by (auto simp: entry_at_def split: option.splits)
    have "m (entry_name x + of_nat i) = fs_mem fs (entry_name x + of_nat i)" if "i \<le> length (fst e)" for i
    proof -
      have "entry_name x + of_nat i \<notin> W" using assms(2) x(1,3) that unfolding names_outside_def by blast
      then show ?thesis using assms(3) unfolding agree_outside_def by blast
    qed
    then have "str_at m (entry_name x) (fst e)"
      using str_at_copy [of "fst e" m "entry_name x" "fs_mem fs" "entry_name x"] x(3) by blast
    then show ?thesis using x by (simp add: entry_at_def)
  qed
  then have "list_all2 (entry_at (set_fs_mem m fs)) items es" if "list_all2 (entry_at fs) items es" for items
    using that by (auto elim: list_all2_mono)
  then show ?thesis using assms(1) by (auto simp: dir_at_def)
qed

lemma agree_outside_trans:
  "agree_outside W a b \<Longrightarrow> agree_outside V b c \<Longrightarrow> V \<subseteq> W \<Longrightarrow> agree_outside W a c"
  by (auto simp: agree_outside_def)

lemma str_at_outside:
  assumes "str_at m p s" "agree_outside W m m'" "\<And>j. j \<le> length s \<Longrightarrow> p + of_nat j \<notin> W"
  shows "str_at m' p s"
  using assms str_at_copy [of s m' p m p] by (simp add: agree_outside_def)

lemma valid_str_outside:
  "valid_str m p s \<Longrightarrow> agree_outside W m m' \<Longrightarrow> (\<And>j. j \<le> length s \<Longrightarrow> p + of_nat j \<notin> W) \<Longrightarrow> valid_str m' p s"
  using str_at_outside [of m p s W m'] by (simp add: valid_str_def)

lemma load32_outside:
  "agree_outside W m m' \<Longrightarrow> {p, p + 1, p + 2, p + 3} \<inter> W = {} \<Longrightarrow> load32 m' p = load32 m p"
  by (simp add: agree_outside_def load32_def)

lemma agree_outside_store32: "agree_outside {p, p + 1, p + 2, p + 3} m (store32 m p v)"
  by (simp add: agree_outside_def store32_def)

section \<open>The steps of the walk\<close>

text \<open>One lookup on the way.\<close>

lemma lookup_step:
  assumes tree: "tree_at fs D" "in_tree fs D vp" "names_outside fs W" "agree_outside W (fs_mem fs) m"
    and elem: "str_at m elem t"
  shows "\<exists>r. node_lookup vp elem (set_fs_mem m fs) = Some (Inr r)
    \<and> r = (case D vp of None \<Rightarrow> None | Some es \<Rightarrow> map_of es t) \<and> (\<forall>v. r = Some v \<longrightarrow> in_tree fs D v)"
proof (cases "D vp")
  case None
  then obtain n where "f_vnodes fs vp = Some n" "v_type n \<noteq> VDIR" using tree(2) by (auto simp: in_tree_def)
  then show ?thesis using None by (simp add: node_lookup_def bindO_def)
next
  case (Some es)
  then have d: "dir_at fs vp es" using tree(1) by (simp add: tree_at_def)
  have "node_lookup vp elem (set_fs_mem m fs) = Some (Inr (map_of es t))"
    using node_lookup_run [OF dir_at_outside [OF d tree(3,4)], of elem t] elem by simp
  moreover have "in_tree fs D v" if "map_of es t = Some v" for v
    using tree(1) Some map_of_SomeD [OF that] unfolding tree_at_def in_tree_def by fast
  ultimately show ?thesis using Some by simp
qed

text \<open>The next token of the rest \<open>s\<close> of the working copy, whose bytes are in \<open>B\<close>.\<close>

lemma next_element:
  assumes q: "q = (if p \<noteq> 0 then p else sp)" and s: "valid_str m q s" "\<forall>j \<le> length s. q + of_nat j \<in> B"
    and slash: "valid_str m slash ds" "\<forall>i \<le> length ds. slash + of_nat i \<notin> B"
  obtains (none) sp' where "tokens ds s = []" "strtok_r m p slash sp = Some (0, m, sp')"
  | (some) t ts e sp' m' rest where "tokens ds s = t # ts" "strtok_r m p slash sp = Some (e, m', sp')" "e \<noteq> 0"
      "str_at m' e t" "\<And>j. j \<le> length t \<Longrightarrow> e + of_nat j \<in> B" "valid_str m' sp' rest"
      "\<And>j. j \<le> length rest \<Longrightarrow> sp' + of_nat j \<in> B" "tokens ds rest = ts" "agree_outside B m m'"
proof (cases "tokens ds s")
  case Nil
  then show ?thesis using strtok_r_none [OF q _ slash(1) Nil] s(1) none by (auto simp: valid_str_def)
next
  case (Cons t ts)
  have apart: "slash + of_nat i \<noteq> q + of_nat j" if "i \<le> length ds" "j \<le> length s" for i j
    using s(2) slash(2) that by metis
  obtain i k rest m' where r: "strtok_r m p slash sp = Some (q + of_nat i, m', q + of_nat k)" "q + of_nat i \<noteq> 0"
    "i + length t \<le> length s" "str_at m' (q + of_nat i) t" "k + length rest \<le> length s"
    "valid_str m' (q + of_nat k) rest" "tokens ds rest = ts" "valid_str m' slash ds"
    "\<And>a. (\<And>j. j < length s \<Longrightarrow> a \<noteq> q + of_nat j) \<Longrightarrow> m' a = m a"
    using strtok_r_some [OF q s(1) slash(1) apart Cons] by metis
  have inside: "q + of_nat n + of_nat j \<in> B" if "n + l \<le> length s" "j \<le> l" for n l j
    using s(2) [rule_format, of "n + j"] that by (simp add: add.assoc)
  have same: "agree_outside B m m'"
  proof -
    have "m' a = m a" if "a \<notin> B" for a
    proof (rule r(9))
      fix j assume "j < length s"
      then show "a \<noteq> q + of_nat j" using s(2) that by auto
    qed
    then show ?thesis by (simp add: agree_outside_def)
  qed
  show ?thesis
    by (rule some [OF Cons r(1,2,4) inside [OF r(3)] r(6) inside [OF r(5)] r(7) same])
qed

text \<open>
  The bytes of the working copy are in \<open>B\<close>; the cell of the current node and the separator are elsewhere.
\<close>

abbreviation cell :: "u32 \<Rightarrow> u32 set" where
  "cell node \<equiv> {node, node + 1, node + 2, node + 3}"

lemma walk_loop_run:
  assumes tree: "tree_at (v_fs st) D" "names_outside (v_fs st) (B \<union> cell node)"
    and apart: "cell node \<inter> B = {}" "slash \<notin> B \<union> cell node" "slash + 1 \<notin> B \<union> cell node"
    and "in_tree (v_fs st) D (load32 m node)" "agree_outside (B \<union> cell node) (v_mem st) m" "valid_str m slash [d]"
    and "elem \<noteq> 0" "str_at m elem t" "\<And>j. j \<le> length t \<Longrightarrow> elem + of_nat j \<in> B"
    and "valid_str m sp s" "\<And>j. j \<le> length s \<Longrightarrow> sp + of_nat j \<in> B" "tokens [d] s = ts"
  shows "\<exists>m'. walk_loop slash node elem sp (set_v_mem m st)
      = Some (Inr (if resolve D (load32 m node) (t # ts) = None then - 1 else 0, set_v_mem m' st))
    \<and> agree_outside (B \<union> cell node) (v_mem st) m'
    \<and> (\<forall>v. resolve D (load32 m node) (t # ts) = Some v \<longrightarrow> load32 m' node = v)"
  using assms(6-)
proof (induction "length ts" arbitrary: ts m elem t sp s rule: less_induct)
  case less
  let ?W = "B \<union> cell node" and ?vp = "load32 m node" and ?fs = "v_fs st"
  have mem: "agree_outside ?W (fs_mem ?fs) m" using less.prems(2) by (simp add: v_mem_def)
  obtain r where r: "node_lookup ?vp elem (set_fs_mem m ?fs) = Some (Inr r)"
    "r = (case D ?vp of None \<Rightarrow> None | Some es \<Rightarrow> map_of es t)" "\<And>v. r = Some v \<Longrightarrow> in_tree ?fs D v"
    using lookup_step [OF tree(1) less.prems(1) tree(2) mem less.prems(5)] by blast
  show ?case
  proof (cases r)
    case None
    then have "walk_loop slash node elem sp (set_v_mem m st) = Some (Inr (- 1, set_v_mem m st))"
      using r(1) less.prems(4) by (subst walk_loop.simps) simp
    then show ?thesis using None r(2) less.prems(2) by (intro exI [of _ m]) (auto split: option.splits)
  next
    case (Some v)
    define m1 where "m1 = store32 m node v"
    have res: "resolve D ?vp (t # ts) = resolve D v ts" using Some r(2) by (auto split: option.splits)
    have m1: "load32 m1 node = v" "agree_outside (cell node) m m1" by (simp_all add: m1_def agree_outside_store32)
    have out: "agree_outside ?W (v_mem st) m1" using agree_outside_trans [OF less.prems(2) m1(2)] by simp
    have sl: "slash + of_nat i \<notin> ?W" if "i \<le> length [d]" for i
      using apart(2,3) that by (cases i) auto
    have slash1: "valid_str m1 slash [d]"
      by (rule valid_str_outside [OF less.prems(3) m1(2)]) (use sl in blast)
    have s1: "valid_str m1 sp s"
      by (rule valid_str_outside [OF less.prems(7) m1(2)]) (use apart(1) less.prems(8) in blast)
    have unfold: "walk_loop slash node elem sp (set_v_mem m st) = (case strtok_r m1 0 slash sp of
        None \<Rightarrow> None | Some (element, m, saveptr) \<Rightarrow> walk_loop slash node element saveptr (set_v_mem m st))"
      using r(1) Some less.prems(4) by (subst walk_loop.simps) (simp add: m1_def split: option.split prod.split)
    have q: "sp = (if (0 :: u32) \<noteq> 0 then 0 else sp)" by simp
    have slB: "\<forall>i \<le> length [d]. slash + of_nat i \<notin> B" using sl by blast
    have sB: "\<forall>j \<le> length s. sp + of_nat j \<in> B" using less.prems(8) by blast
    consider (none) sp' where "tokens [d] s = []" "strtok_r m1 0 slash sp = Some (0, m1, sp')"
      | (some) t' ts' e sp' m' rest where "tokens [d] s = t' # ts'" "strtok_r m1 0 slash sp = Some (e, m', sp')" "e \<noteq> 0"
          "str_at m' e t'" "\<And>j. j \<le> length t' \<Longrightarrow> e + of_nat j \<in> B" "valid_str m' sp' rest"
          "\<And>j. j \<le> length rest \<Longrightarrow> sp' + of_nat j \<in> B" "tokens [d] rest = ts'" "agree_outside B m1 m'"
      using next_element [OF q s1 sB slash1 slB] by metis
    then show ?thesis
    proof cases
      case (none sp')
      then have ts: "ts = []" using less.prems(9) by simp
      have "walk_loop slash node elem sp (set_v_mem m st) = Some (Inr (0, set_v_mem m1 st))"
        unfolding unfold by (simp add: none) (subst walk_loop.simps, simp)
      then show ?thesis using res out m1(1) by (intro exI [of _ m1]) (simp add: ts del: resolve.simps(2))
    next
      case (some t' ts' e sp' m' rest)
      have ts: "ts = t' # ts'" using less.prems(9) some(1) by simp
      have l: "load32 m' node = v" using load32_outside [OF some(9)] apart(1) m1(1) by blast
      have out': "agree_outside ?W (v_mem st) m'" using agree_outside_trans [OF out some(9)] by blast
      have slash': "valid_str m' slash [d]"
        by (rule valid_str_outside [OF slash1 some(9)]) (use sl in blast)
      have "length ts' < length ts" by (simp add: ts)
      from less.hyps [OF this _ out' slash' some(3-8)] r(3) [OF Some] show ?thesis
        unfolding unfold res unfolding ts by (simp add: some(2) l del: resolve.simps)
    qed
  qed
qed

text \<open>From the first token on.\<close>

lemma path_walk_run:
  assumes tree: "tree_at (v_fs st) D" "in_tree (v_fs st) D (load32 (v_mem st) node)"
    and names: "names_outside (v_fs st) (B \<union> cell node)"
    and apart: "cell node \<inter> B = {}" "{slash, slash + 1} \<inter> (B \<union> cell node) = {}"
    and work: "valid_str (v_mem st) work s" and slash: "valid_str (v_mem st) slash [d]" and sB: "\<forall>j \<le> length s. work + of_nat j \<in> B"
  shows "\<exists>element m1 saveptr m'. strtok_r (v_mem st) work slash 0 = Some (element, m1, saveptr)
    \<and> walk_loop slash node element saveptr (set_v_mem m1 st)
      = Some (Inr (if resolve D (load32 (v_mem st) node) (tokens [d] s) = None then - 1 else 0, set_v_mem m' st))
    \<and> (\<forall>v. resolve D (load32 (v_mem st) node) (tokens [d] s) = Some v \<longrightarrow> load32 m' node = v)
    \<and> (\<forall>a. a \<notin> B \<union> cell node \<longrightarrow> m' a = v_mem st a)"
proof -
  let ?m = "v_mem st"
  have q: "work = (if work \<noteq> 0 then work else 0)" by simp
  have sl: "slash + of_nat i \<notin> B" if "i \<le> length [d]" for i
    using apart(2) that by (cases i) auto
  then have sl0: "\<forall>i \<le> length [d]. slash + of_nat i \<notin> B" by blast
  consider (none) sp' where "tokens [d] s = []" "strtok_r ?m work slash 0 = Some (0, ?m, sp')"
    | (some) t ts e sp' m' rest where "tokens [d] s = t # ts" "strtok_r ?m work slash 0 = Some (e, m', sp')" "e \<noteq> 0"
        "str_at m' e t" "\<And>j. j \<le> length t \<Longrightarrow> e + of_nat j \<in> B" "valid_str m' sp' rest"
        "\<And>j. j \<le> length rest \<Longrightarrow> sp' + of_nat j \<in> B" "tokens [d] rest = ts" "agree_outside B ?m m'"
    using next_element [OF q work sB slash sl0] by metis
  then show ?thesis
  proof cases
    case (none sp')
    have "walk_loop slash node 0 sp' (set_v_mem ?m st) = Some (Inr (0, set_v_mem ?m st))"
      by (subst walk_loop.simps) simp
    then show ?thesis using none by auto
  next
    case (some t ts e sp' m' rest)
    have l: "load32 m' node = load32 ?m node" using load32_outside [OF some(9)] apart(1) by blast
    have out: "agree_outside (B \<union> cell node) ?m m'" using some(9) by (auto simp: agree_outside_def)
    have sl': "valid_str m' slash [d]" by (rule valid_str_outside [OF slash some(9)]) (use sl in blast)
    have tree': "in_tree (v_fs st) D (load32 m' node)" using tree(2) l by simp
    have a: "slash \<notin> B \<union> cell node" "slash + 1 \<notin> B \<union> cell node" using apart(2) by blast+
    from walk_loop_run [OF tree(1) names apart(1) a tree' out sl' some(3-8)]
    obtain m2 where m2: "walk_loop slash node e sp' (set_v_mem m' st)
        = Some (Inr (if resolve D (load32 ?m node) (t # ts) = None then - 1 else 0, set_v_mem m2 st))"
      "agree_outside (B \<union> cell node) ?m m2" "\<forall>v. resolve D (load32 ?m node) (t # ts) = Some v \<longrightarrow> load32 m2 node = v"
      unfolding l by blast
    show ?thesis
      using some(2) m2 unfolding some(1) agree_outside_def
      by (intro exI [of _ e] exI [of _ m'] exI [of _ sp'] exI [of _ m2]) (intro conjI)
  qed
qed

section \<open>An example\<close>

text \<open>The path \<open>/a\<close> at 0xD00, the cell of the node at 0xC00 and the separator at 0xE00.\<close>

definition example_walk :: vfs_state where
  "example_walk = set_v_mem ((v_mem example_vfs)(0xC01 := 1, 0xD00 := 47, 0xD01 := 97, 0xE00 := 47)) example_vfs"

definition example_tree :: fs_tree where
  "example_tree = [0x100 \<mapsto> [([97], 0x300)]]"

lemma example_walk_mem:
  "v_mem example_walk = (\<lambda>_. 0)(0x500 := 104, 0x501 := 105, 0x700 := 97, 0x800 := 97,
     0xC01 := 1, 0xD00 := 47, 0xD01 := 97, 0xE00 := 47)"
  by (simp add: example_walk_def) (simp add: v_mem_def fs_mem_def example_vfs_def example_fs_def)

lemma example_walk_fs: "v_fs example_walk = set_fs_mem (v_mem example_walk) example_fs"
  by (simp add: example_walk_def) (simp add: example_vfs_def)

lemma example_entries: "f_entries (v_fs example_walk) = [0x600 \<mapsto> \<lparr>entry_name = 0x700, entry_vnode = 0x300\<rparr>]"
  unfolding example_walk_fs by (simp add: example_fs_def)

lemma example_walk_tree: "tree_at (v_fs example_walk) example_tree"
proof -
  have "str_at (v_mem example_walk) 0x700 [97]" by (simp add: example_walk_mem)
  then have "dir_at (v_fs example_walk) 0x100 [([97], 0x300)]"
    unfolding dir_at_def
    by (intro exI [of _ "\<lparr>v_type = VDIR, v_data = 0x200\<rparr>"] exI [of _ "[0x608]"])
      (simp add: klist_def entry_at_def example_walk_fs, simp add: example_fs_def)
  moreover have "f_vnodes (v_fs example_walk) 0x300 = Some \<lparr>v_type = VREG, v_data = 0x400\<rparr>"
    unfolding example_walk_fs by (simp add: example_fs_def)
  ultimately show ?thesis by (simp add: tree_at_def example_tree_def)
qed

lemma example_walk_names: "names_outside (v_fs example_walk) ({0xD00, 0xD01, 0xD02} \<union> cell 0xC00)"
proof -
  have a: "str_at (v_mem example_walk) 0x700 [97]" by (simp add: example_walk_mem)
  have "0x700 + of_nat i \<notin> {0xD00, 0xD01, 0xD02} \<union> cell (0xC00 :: u32)"
    if "str_at (v_mem example_walk) 0x700 s" "i \<le> length s" for s i
  proof -
    have "i \<le> 1" using str_at_unique [OF that(1) a] that(2) by simp
    then consider "i = 0" | "i = 1" by linarith
    then show ?thesis by cases simp_all
  qed
  moreover have "fs_mem (v_fs example_walk) = v_mem example_walk" by (simp add: v_mem_def)
  ultimately show ?thesis unfolding names_outside_def example_entries by auto
qed

section \<open>Properties\<close>

text \<open>
  C37. The walk of \<open>vn_open\<close> along the working copy of a path ends, and agrees with \<open>resolve\<close> on
  the names of the path: it fails with -1 exactly when a name on the way does not exist or is looked up
  in something else than a directory, and otherwise leaves the node of the path in its cell. It changes
  nothing but the working copy and the cell.
\<close>

theorem path_walk_correct:
  assumes tree: "tree_at (v_fs st) D" "in_tree (v_fs st) D (load32 (v_mem st) node)"
    and names: "names_outside (v_fs st) ({work + of_nat j | j. j \<le> length s} \<union> cell node)"
    and apart: "cell node \<inter> {work + of_nat j | j. j \<le> length s} = {}"
      "{slash, slash + 1} \<inter> ({work + of_nat j | j. j \<le> length s} \<union> cell node) = {}"
    and work: "valid_str (v_mem st) work s" and slash: "valid_str (v_mem st) slash [47]"
  shows "\<exists>element m1 saveptr m'. strtok_r (v_mem st) work slash 0 = Some (element, m1, saveptr)
    \<and> walk_loop slash node element saveptr (set_v_mem m1 st)
      = Some (Inr (if resolve D (load32 (v_mem st) node) (tokens [47] s) = None then - 1 else 0, set_v_mem m' st))
    \<and> (\<forall>v. resolve D (load32 (v_mem st) node) (tokens [47] s) = Some v \<longrightarrow> load32 m' node = v)
    \<and> (\<forall>a. a \<notin> {work + of_nat j | j. j \<le> length s} \<union> cell node \<longrightarrow> m' a = v_mem st a)"
  by (rule path_walk_run [OF assms]) blast

theorem path_walk_correct_witness:
  "\<exists>element m1 saveptr m'. strtok_r (v_mem example_walk) 0xD00 0xE00 0 = Some (element, m1, saveptr)
    \<and> walk_loop 0xE00 0xC00 element saveptr (set_v_mem m1 example_walk) = Some (Inr (0, set_v_mem m' example_walk))
    \<and> load32 m' 0xC00 = 0x300"
proof -
  have B: "{0xD00 + of_nat j | j. j \<le> length [47 :: u8, 97]} = {0xD00, 0xD01, 0xD02 :: u32}"
  proof -
    have "{0xD00 + of_nat j | j. j \<le> length [47 :: u8, 97]} = (\<lambda>j. 0xD00 + of_nat j :: u32) ` {0, 1, 2}"
    proof -
      have "{j. j \<le> length [47 :: u8, 97]} = {0, 1, 2}" by auto
      then show ?thesis unfolding setcompr_eq_image by simp
    qed
    then show ?thesis by simp
  qed
  have n: "load32 (v_mem example_walk) 0xC00 = 0x100" by (simp add: example_walk_mem load32_def)
  have t: "tokens [47] [47, 97] = [[97]]" by (simp add: tokens.simps)
  have "in_tree (v_fs example_walk) example_tree (load32 (v_mem example_walk) 0xC00)"
    by (simp add: n in_tree_def example_tree_def)
  moreover have "valid_str (v_mem example_walk) 0xD00 [47, 97]" "valid_str (v_mem example_walk) 0xE00 [47]"
    by (simp_all add: valid_str_def example_walk_mem)
  ultimately show ?thesis
    using path_walk_correct [OF example_walk_tree, of "0xC00" "0xD00" "[47, 97]" "0xE00", unfolded B t n] example_walk_names
    by (simp add: example_tree_def n) blast
qed

end
