(* ===== verification/ParentSpec.thy ===== *)
theory ParentSpec
  imports PathSpec
begin

text \<open>
  The search of the parent of a path by \<open>lookup_parent\<close>: it cuts the path at its slashes, looks up all
  names but the last and leaves the last one in an array of its caller.
\<close>

section \<open>Paths\<close>

definition SLASH :: u8 where "SLASH = of_char CHR ''/''"

fun join :: "u8 list list \<Rightarrow> u8 list" where
  "join [] = []"
| "join [t] = t"
| "join (t # u # ts) = t @ SLASH # join (u # ts)"

text \<open>The names of a path: not empty, without a slash, and short enough for an array of 100 characters.\<close>

definition name_ok :: "u8 list \<Rightarrow> bool" where
  "name_ok t \<longleftrightarrow> t \<noteq> [] \<and> SLASH \<notin> set t \<and> length t < 100"

lemma join_nonempty: "ts \<noteq> [] \<Longrightarrow> \<forall>t \<in> set ts. name_ok t \<Longrightarrow> join ts \<noteq> []"
  by (cases ts rule: join.cases) (auto simp: name_ok_def)

lemma join_last: "ts \<noteq> [] \<Longrightarrow> \<forall>t \<in> set ts. name_ok t \<Longrightarrow> last (join ts) \<noteq> SLASH"
proof (induction ts rule: join.induct)
  case (2 t)
  then have "t \<noteq> []" "SLASH \<notin> set t" by (simp_all add: name_ok_def)
  then show ?case by (metis join.simps(2) last_in_set)
next
  case (3 t u ts)
  then show ?case using join_nonempty [of "u # ts"] by simp
qed simp

section \<open>Copying one name\<close>

text \<open>The characters \<open>s\<close> of the path and the array are apart.\<close>

lemma copy_segment_run:
  assumes "\<And>i. i < length t \<Longrightarrow> m (path + of_nat (a + i)) = t ! i" "SLASH \<notin> set t"
    "a + length t \<le> l" "a + length t = l \<or> m (path + of_nat (a + length t)) = SLASH" "b + length t \<le> 100"
    "\<And>i j. i < 100 \<Longrightarrow> j \<le> l \<Longrightarrow> nm + of_nat i \<noteq> path + of_nat j"
  shows "\<exists>m'. copy_segment m path (int l) nm (int b) (int a) = Inr (m', int (b + length t), int (a + length t))
    \<and> (\<forall>i < length t. m' (nm + of_nat (b + i)) = t ! i)
    \<and> (\<forall>x. (\<forall>i < length t. x \<noteq> nm + of_nat (b + i)) \<longrightarrow> m' x = m x)"
  using assms
proof (induction t arbitrary: m a b)
  case Nil
  then have "\<not> (int a < int l \<and> m (path + of_int (int a)) \<noteq> of_char CHR ''/'')" by (auto simp: SLASH_def)
  then have "copy_segment m path (int l) nm (int b) (int a) = Inr (m, int b, int a)"
    by (subst copy_segment.simps) auto
  then show ?case by (intro exI [of _ m]) simp
next
  case (Cons c t)
  let ?m = "m(nm + of_nat b := c)"
  have c: "m (path + of_nat a) = c" "c \<noteq> SLASH" using Cons.prems(1) [of 0] Cons.prems(2) by auto
  have lt: "a < l" "b < 100" using Cons.prems(3,5) by simp_all
  have same: "?m (path + of_nat j) = m (path + of_nat j)" if "j \<le> l" for j
    using Cons.prems(6) [of b j] lt(2) that by auto
  have step: "copy_segment m path (int l) nm (int b) (int a) = copy_segment ?m path (int l) nm (int (Suc b)) (int (Suc a))"
    using c lt by (subst copy_segment.simps) (simp add: SLASH_def add.commute)
  have 1: "?m (path + of_nat (Suc a + i)) = t ! i" if "i < length t" for i
    using Cons.prems(1) [of "Suc i"] Cons.prems(3) that same [of "Suc a + i"] by simp
  have 2: "Suc a + length t = l \<or> ?m (path + of_nat (Suc a + length t)) = SLASH"
    using Cons.prems(3,4) same [of "Suc a + length t"] by auto
  have 3: "SLASH \<notin> set t" "Suc a + length t \<le> l" "Suc b + length t \<le> 100" using Cons.prems(2,3,5) by simp_all
  obtain m' where m': "copy_segment ?m path (int l) nm (int (Suc b)) (int (Suc a)) = Inr (m', int (Suc b + length t), int (Suc a + length t))"
    "\<forall>i < length t. m' (nm + of_nat (Suc b + i)) = t ! i"
    "\<forall>x. (\<forall>i < length t. x \<noteq> nm + of_nat (Suc b + i)) \<longrightarrow> m' x = ?m x"
    using Cons.IH [OF 1 3(1,2) 2 3(3) Cons.prems(6)] by blast
  have apart: "nm + of_nat b \<noteq> nm + of_nat (Suc b + i)" if "i < length t" for i
  proof -
    have "b < 4294967296" "Suc b + i < 4294967296" using lt(2) 3(3) that by linarith+
    from of_nat_u32_inj [OF this] have "(of_nat b :: u32) \<noteq> of_nat (Suc b + i)" by simp
    then show ?thesis by (metis add_left_cancel)
  qed
  have b0: "m' (nm + of_nat b) = c" using m'(3) apart by (metis fun_upd_same)
  have "m' (nm + of_nat (b + i)) = (c # t) ! i" if "i < length (c # t)" for i
    using m'(2) b0 that by (cases i) auto
  moreover have "m' x = m x" if "\<forall>i < length (c # t). x \<noteq> nm + of_nat (b + i)" for x
  proof -
    have "x \<noteq> nm + of_nat b" "\<forall>i < length t. x \<noteq> nm + of_nat (Suc b + i)"
      using that [rule_format, of 0] that [rule_format, of "Suc _"] by auto
    then show ?thesis using m'(3) by simp
  qed
  ultimately show ?case using m'(1) unfolding step by (intro exI [of _ m']) simp
qed

section \<open>The loop over the names\<close>

abbreviation bytes_of :: "u32 \<Rightarrow> nat \<Rightarrow> u32 set" where
  "bytes_of p n \<equiv> {p + of_nat i | i. i < n}"

text \<open>One round of the loop: the next name \<open>t\<close> is in the array, terminated.\<close>

lemma segment_copied:
  assumes path: "\<And>i. i < length t \<Longrightarrow> m (path + of_nat (a + i)) = t ! i" "a + length t \<le> l"
      "a + length t = l \<or> m (path + of_nat (a + length t)) = SLASH"
    and t: "name_ok t" "0 \<notin> set t" and apart: "\<And>i j. i < 100 \<Longrightarrow> j \<le> l \<Longrightarrow> nm + of_nat i \<noteq> path + of_nat j"
  obtains m' where "copy_segment m path (int l) nm 0 (int a) = Inr (m', int (length t), int (a + length t))"
    "str_at (m'(nm + of_nat (length t) := 0)) nm t" "agree_outside (bytes_of nm 100) m (m'(nm + of_nat (length t) := 0))"
proof -
  have len: "length t < 100" "SLASH \<notin> set t" using t by (simp_all add: name_ok_def)
  have "0 + length t \<le> 100" using len by simp
  obtain m' where m': "copy_segment m path (int l) nm (int 0) (int a) = Inr (m', int (0 + length t), int (a + length t))"
    "\<forall>i < length t. m' (nm + of_nat (0 + i)) = t ! i" "\<forall>x. (\<forall>i < length t. x \<noteq> nm + of_nat (0 + i)) \<longrightarrow> m' x = m x"
    using copy_segment_run [of t m path a l 0 nm, OF path(1) len(2) path(2,3) _ apart] len(1) by auto
  let ?m = "m'(nm + of_nat (length t) := 0)"
  have inj: "nm + of_nat i \<noteq> nm + of_nat j" if "i < j" "j \<le> length t" for i j
    using of_nat_u32_inj [of i j] that len(1) by simp
  have bytes: "?m (nm + of_nat i) = t ! i" if "i < length t" for i using m'(2) inj [of i "length t"] that by simp
  have "str_at ?m nm t"
  proof -
    have "str_at f nm s" if "\<And>i. i < length s \<Longrightarrow> f (nm + of_nat i) = s ! i" "f (nm + of_nat (length s)) = 0" "0 \<notin> set s" for f nm and s :: "u8 list"
      using that
    proof (induction s arbitrary: nm)
      case (Cons c s)
      have "str_at f (nm + 1) s"
        using Cons.prems(1) [of "Suc _"] Cons.prems(2,3) by (intro Cons.IH) (simp_all add: add.assoc)
      then show ?case using Cons.prems(1) [of 0] Cons.prems(3) by auto
    qed simp
    then show ?thesis using bytes t(2) by simp
  qed
  moreover have "agree_outside (bytes_of nm 100) m ?m"
    unfolding agree_outside_def
  proof (intro allI impI)
    fix x assume x: "x \<notin> bytes_of nm 100"
    then have "x \<noteq> nm + of_nat i" if "i < 100" for i using that by blast
    then show "?m x = m x" using m'(3) len(1) by simp
  qed
  ultimately show ?thesis using that m'(1) by simp
qed

lemma array_apart:
  assumes "bytes_of nm 100 \<subseteq> W" "\<And>j. j \<le> l \<Longrightarrow> path + of_nat j \<notin> W" "i < 100" "j \<le> l"
  shows "nm + of_nat i \<noteq> path + of_nat j"
proof -
  have "nm + of_nat i \<in> bytes_of nm 100" using assms(3) by (intro CollectI exI [of _ i]) simp
  then have "nm + of_nat i \<in> W" using assms(1) by (rule subsetD [rotated])
  then show ?thesis using assms(2) [OF assms(4)] by metis
qed

text \<open>The names \<open>t # ts\<close> remain, from position \<open>a\<close> on.\<close>

lemma parent_loop_run:
  assumes tree: "tree_at fs D" "names_outside fs W" "bytes_of nm 100 \<subseteq> W"
    and apart: "\<And>j. j \<le> l \<Longrightarrow> path + of_nat j \<notin> W"
    and "in_tree fs D cur" "agree_outside W (fs_mem fs) m"
    and "\<And>i. i < length (join (t # ts)) \<Longrightarrow> m (path + of_nat (a + i)) = join (t # ts) ! i" "a + length (join (t # ts)) = l"
    and "\<forall>u \<in> set (t # ts). name_ok u \<and> 0 \<notin> set u"
  shows "\<exists>m'. parent_loop path (int l) nm (int a) cur (set_fs_mem m fs)
      = Some (Inr (resolve D cur (butlast (t # ts)), set_fs_mem m' fs))
    \<and> agree_outside W (fs_mem fs) m' \<and> (resolve D cur (butlast (t # ts)) \<noteq> None \<longrightarrow> str_at m' nm (last (t # ts)))"
  using assms(5-)
proof (induction ts arbitrary: m a cur t)
  case Nil
  note ap = array_apart [OF tree(3) apart]
  have al: "a + length t \<le> l" "a + length t = l \<or> m (path + of_nat (a + length t)) = SLASH" "name_ok t" "0 \<notin> set t"
    using Nil.prems by simp_all
  have bt: "m (path + of_nat (a + i)) = t ! i" if "i < length t" for i using Nil.prems(3) that by simp
  obtain m' where m': "copy_segment m path (int l) nm 0 (int a) = Inr (m', int (length t), int (a + length t))"
    "str_at (m'(nm + of_nat (length t) := 0)) nm t" "agree_outside (bytes_of nm 100) m (m'(nm + of_nat (length t) := 0))"
    by (rule segment_copied [OF bt al ap]) blast+
  define m2 where "m2 = m'(nm + of_nat (length t) := 0)"
  have "length t < 100" using al(3) by (simp add: name_ok_def)
  then have "parent_loop path (int l) nm (int a) cur (set_fs_mem m fs)
      = Some (Inr (Some cur, set_fs_mem (m'(nm + of_nat (length t) := 0)) fs))"
    using m'(1) Nil.prems(4) by (subst parent_loop.simps) simp
  then show ?case
    using m'(2) agree_outside_trans [OF Nil.prems(2) m'(3) tree(3)] unfolding m2_def [symmetric] by (intro exI [of _ m2]) simp
next
  case (Cons u ts)
  note ap = array_apart [OF tree(3) apart]
  let ?rest = "join (u # ts)" and ?b = "a + length t + 1"
  have jn: "join (t # u # ts) = t @ SLASH # ?rest" by simp
  have len: "?b + length ?rest = l" using Cons.prems(4) unfolding jn by simp
  have bt: "m (path + of_nat (a + i)) = t ! i" if "i < length t" for i
    using Cons.prems(3) [of i] that unfolding jn by (simp add: nth_append)
  have sl: "m (path + of_nat (a + length t)) = SLASH"
    using Cons.prems(3) [of "length t"] unfolding jn by (simp add: nth_append)
  have rest: "m (path + of_nat (?b + i)) = ?rest ! i" if "i < length ?rest" for i
    using Cons.prems(3) [of "length t + 1 + i"] that unfolding jn by (simp add: nth_append add_ac)
  have al: "a + length t \<le> l" "a + length t = l \<or> m (path + of_nat (a + length t)) = SLASH" "name_ok t" "0 \<notin> set t"
    using Cons.prems(5) len sl by simp_all
  obtain m' where m': "copy_segment m path (int l) nm 0 (int a) = Inr (m', int (length t), int (a + length t))"
    "str_at (m'(nm + of_nat (length t) := 0)) nm t" "agree_outside (bytes_of nm 100) m (m'(nm + of_nat (length t) := 0))"
    by (rule segment_copied [OF bt al ap]) blast+
  let ?m = "m'(nm + of_nat (length t) := 0)"
  have out: "agree_outside W (fs_mem fs) ?m" by (rule agree_outside_trans [OF Cons.prems(2) m'(3) tree(3)])
  obtain r where r: "node_lookup cur nm (set_fs_mem ?m fs) = Some (Inr r)"
    "r = (case D cur of None \<Rightarrow> None | Some es \<Rightarrow> map_of es t)" "\<forall>v. r = Some v \<longrightarrow> in_tree fs D v"
    using lookup_step [OF tree(1) Cons.prems(1) tree(2) out m'(2)] by blast
  have tl: "length t < 100" using al(3) by (simp add: name_ok_def)
  have "?rest \<noteq> []" using Cons.prems(5) by (intro join_nonempty) simp_all
  then have lt: "a + length t < l" "?b < l" using len by (cases ?rest; simp)+
  have unfold: "parent_loop path (int l) nm (int a) cur (set_fs_mem m fs) = (case r of
      None \<Rightarrow> Some (Inr (None, set_fs_mem ?m fs)) | Some cur \<Rightarrow> parent_loop path (int l) nm (int ?b) cur (set_fs_mem ?m fs))"
    using m'(1) tl lt r(1) by (subst parent_loop.simps) (simp add: add.commute split: option.split)
  show ?case
  proof (cases r)
    case None
    have none: "resolve D cur (butlast (t # u # ts)) = None" using None r(2) by (auto split: option.splits)
    have run: "parent_loop path (int l) nm (int a) cur (set_fs_mem m fs) = Some (Inr (None, set_fs_mem ?m fs))"
      using unfold None by simp
    show ?thesis unfolding none by (intro exI conjI, rule run, rule out) simp
  next
    case (Some v)
    have bt': "?m (path + of_nat (?b + i)) = ?rest ! i" if "i < length ?rest" for i
    proof -
      have "path + of_nat (?b + i) \<notin> bytes_of nm 100" using apart [of "?b + i"] tree(3) len that by auto
      then have "?m (path + of_nat (?b + i)) = m (path + of_nat (?b + i))" using m'(3) unfolding agree_outside_def by blast
      then show ?thesis using rest [OF that] by (rule trans)
    qed
    have it: "in_tree fs D v" using r(3) Some by blast
    have res: "resolve D cur (butlast (t # u # ts)) = resolve D v (butlast (u # ts))"
      using r(2) Some by (auto split: option.splits)
    have names: "\<forall>w \<in> set (u # ts). name_ok w \<and> 0 \<notin> set w" using Cons.prems(5) by simp
    have last: "last (t # u # ts) = last (u # ts)" by simp
    show ?thesis unfolding unfold Some res last option.case by (rule Cons.IH [OF it out bt' len names])
  qed
qed

section \<open>The parent and the last name\<close>

lemma sint_of_nat_small: "n < 2147483648 \<Longrightarrow> sint (of_nat n :: u32) = int n"
  by (simp add: signed_of_nat signed_take_bit_int_eq_self)

lemma join_chars: "\<forall>u \<in> set ts. 0 \<notin> set u \<Longrightarrow> 0 \<notin> set (join ts)"
  by (induction ts rule: join.induct) (auto simp: SLASH_def)

text \<open>\<open>sl\<close> is the slash that may end the path of a directory.\<close>

lemma path_length:
  assumes str: "str_at m path (join ts @ sl)" and sl: "sl = [] \<or> sl = [SLASH]"
    and ts: "ts \<noteq> []" "\<forall>u \<in> set ts. name_ok u \<and> 0 \<notin> set u" and len: "length (join ts @ sl) < 2147483648"
  defines "n \<equiv> sint (of_nat (length (join ts @ sl)) :: u32)"
  shows "(if m (path + of_int (n - 1)) = of_char CHR ''/'' then n - 1 else n) = int (length (join ts))"
proof -
  have ne: "join ts \<noteq> []" using ts by (intro join_nonempty) auto
  have n: "n = int (length (join ts @ sl))" unfolding n_def by (rule sint_of_nat_small [OF len])
  have pos: "0 < length (join ts)" using ne by simp
  have "m (path + of_int (n - 1)) = last (join ts @ sl)"
  proof -
    have lp: "0 < length (join ts @ sl)" using pos by simp
    have i: "length (join ts @ sl) - 1 < length (join ts @ sl)" using pos by simp
    have e: "of_int (n - 1) = (of_nat (length (join ts @ sl) - 1) :: u32)" unfolding n using of_nat_diff [OF Suc_leI [OF lp], where 'a = u32] by simp
    show ?thesis using str_at_nth [OF str i] ne unfolding e by (simp add: last_conv_nth)
  qed
  moreover have "last (join ts) \<noteq> SLASH" using ts by (intro join_last) auto
  ultimately show ?thesis using sl ne n by (auto simp: SLASH_def)
qed

text \<open>\<open>name\<close> and \<open>nm\<close> are the arrays of the caller and of \<open>lookup_parent\<close> itself.\<close>

lemma lookup_parent_run:
  assumes tree: "tree_at fs D" "names_outside fs W" "bytes_of nm 100 \<subseteq> W" "bytes_of name 100 \<subseteq> W" "in_tree fs D root"
    and apart: "\<And>j. j \<le> length (join ts @ sl) \<Longrightarrow> path + of_nat j \<notin> W" "100 \<le> name - nm"
    and str: "str_at (fs_mem fs) path (join ts @ sl)" "length (join ts @ sl) < 2147483648" and sl: "sl = [] \<or> sl = [SLASH]"
    and ts: "ts \<noteq> []" "\<forall>u \<in> set ts. name_ok u \<and> 0 \<notin> set u"
  shows "\<exists>m'. lookup_parent root path name nm fs = Some (Inr (resolve D root (butlast ts), set_fs_mem m' fs))
    \<and> agree_outside W (fs_mem fs) m' \<and> (resolve D root (butlast ts) \<noteq> None \<longrightarrow> str_at m' name (last ts))"
proof -
  let ?m = "fs_mem fs" and ?l = "length (join ts)"
  obtain t us where tu: "ts = t # us" using ts(1) by (cases ts) auto
  have pl: "?m (path + of_nat (0 + i)) = join (t # us) ! i" if "i < length (join (t # us))" for i
    using str_at_nth [OF str(1), of i] that unfolding tu by (simp add: nth_append)
  have aw: "path + of_nat j \<notin> W" if "j \<le> ?l" for j using apart(1) [of j] that by simp
  have same: "agree_outside W ?m ?m" by (simp add: agree_outside_def)
  have fs: "set_fs_mem ?m fs = fs" by (simp add: set_fs_mem_def fs_mem_def)
  have jl: "0 + length (join (t # us)) = ?l" by (simp add: tu)
  obtain m' where m': "parent_loop path (int ?l) nm 0 root fs = Some (Inr (resolve D root (butlast ts), set_fs_mem m' fs))"
    "agree_outside W ?m m'" "resolve D root (butlast ts) \<noteq> None \<longrightarrow> str_at m' nm (last ts)"
    using parent_loop_run [OF tree(1-3) aw tree(5) same pl jl ts(2) [unfolded tu]] unfolding fs tu by auto
  define n :: u32 where "n = of_nat (length (join ts @ sl))"
  have sn: "strlen ?m path = Some n" unfolding n_def by (rule strlen_str [OF str(1)])
  have len: "(if ?m (path + of_int (sint n - 1)) = of_char CHR ''/'' then sint n - 1 else sint n) = int ?l"
    unfolding n_def by (rule path_length [OF str(1) sl ts str(2)])
  have unfold: "lookup_parent root path name nm fs = bindO (parent_loop path (int ?l) nm 0 root fs) (\<lambda>(parent, fs).
      case parent of None \<Rightarrow> Some (Inr (None, fs))
      | Some p \<Rightarrow> bindO (map_option Inr (strcpy (fs_mem fs) name nm)) (\<lambda>(_, m). Some (Inr (Some p, set_fs_mem m fs))))"
    unfolding lookup_parent_def sn Let_def bindO_def by (simp only: option.map option.case sum.case len)
  show ?thesis
  proof (cases "resolve D root (butlast ts)")
    case None
    then have "lookup_parent root path name nm fs = Some (Inr (None, set_fs_mem m' fs))"
      using m'(1) unfolding unfold by (simp add: bindO_def)
    then show ?thesis using None m'(2) by auto
  next
    case (Some p)
    have l: "str_at m' nm (last ts)" "name_ok (last ts)" using m'(3) Some ts by auto
    then have l100: "length (last ts) + 1 \<le> 100" by (simp add: name_ok_def)
    have le: "of_nat (length (last ts)) + 1 \<le> name - nm"
    proof -
      have "unat (of_nat (length (last ts) + 1) :: u32) = length (last ts) + 1" using l100 by (intro unat_of_nat_small) simp
      then have "of_nat (length (last ts) + 1) \<le> (100 :: u32)" using l100 by (simp add: word_le_nat_alt del: of_nat_add)
      then have "of_nat (length (last ts) + 1) \<le> name - nm" using apart(2) by (rule order.trans)
      then show ?thesis by (simp add: add.commute)
    qed
    obtain m2 where m2: "strcpy m' name nm = Some (name, m2)" "str_at m2 name (last ts)"
      "\<forall>a. \<not> in_range name (of_nat (length (last ts)) + 1) a \<longrightarrow> m2 a = m' a"
      using strcpy_correct [OF l(1) _ le] l100 by auto
    have run: "lookup_parent root path name nm fs = Some (Inr (Some p, set_fs_mem m2 fs))"
      using m'(1) Some m2(1) unfolding unfold by (simp add: bindO_def)
    have "agree_outside (bytes_of name 100) m' m2"
      unfolding agree_outside_def
    proof (intro allI impI)
      fix a assume a: "a \<notin> bytes_of name 100"
      have "\<not> in_range name (of_nat (length (last ts)) + 1) a"
      proof
        assume "in_range name (of_nat (length (last ts)) + 1) a"
        then have "a - name < of_nat (length (last ts) + 1)" by (simp add: in_range_def add.commute)
        moreover have "unat (of_nat (length (last ts) + 1) :: u32) = length (last ts) + 1" using l100 by (intro unat_of_nat_small) simp
        ultimately have "unat (a - name) < 100" using l100 unfolding word_less_nat_alt by linarith
        moreover have "a = name + of_nat (unat (a - name))" by simp
        ultimately show False using a by blast
      qed
      then show "m2 a = m' a" using m2(3) by blast
    qed
    from agree_outside_trans [OF m'(2) this tree(4)] show ?thesis using run Some m2(2) by auto
  qed
qed

end
