(* ===== verification/DirSpec.thy ===== *)
theory DirSpec
  imports PathSpec HeapSpec
begin

text \<open>
  The file system on the kernel heap: its nodes, entries and names are in allocated blocks, so that an
  allocation leaves it alone, and \<open>add_to_dir\<close> extends one directory of the tree by one entry.
\<close>

section \<open>Allocation under the file system\<close>

definition fs_blocks :: "u32 \<Rightarrow> fs_state \<Rightarrow> (nat \<times> bool) list \<Rightarrow> (nat \<times> nat) set" where
  "fs_blocks A fs cs = heap_allocs A (f_sys fs) cs"

text \<open>The heap is well formed, unlocked, and can grow by \<open>N\<close> pages up to \<open>lim\<close>.\<close>

definition fs_heap :: "u32 \<Rightarrow> u32 \<Rightarrow> u32 \<Rightarrow> nat \<Rightarrow> nat \<Rightarrow> fs_state \<Rightarrow> (nat \<times> bool) list \<Rightarrow> bool" where
  "fs_heap A V me N lim fs cs \<longleftrightarrow> heap_ok A (f_sys fs) cs \<and> heap_semaphore (h_info (f_sys fs)) = 0
     \<and> heap_room V me (f_sys fs) N \<and> lim = unat (heap_end (h_info (f_sys fs))) + 4096 * N"

text \<open>The \<open>n\<close> bytes from \<open>p\<close> on are in an allocated block; or there or where the heap never comes.\<close>

definition lodged :: "(nat \<times> nat) set \<Rightarrow> u32 \<Rightarrow> nat \<Rightarrow> bool" where
  "lodged B p n \<longleftrightarrow> unat p + n \<le> 4294967296 \<and> (\<exists>(b, l) \<in> B. b \<le> unat p \<and> unat p + n \<le> b + l)"

definition settled :: "u32 \<Rightarrow> nat \<Rightarrow> fs_state \<Rightarrow> (nat \<times> bool) list \<Rightarrow> u32 \<Rightarrow> nat \<Rightarrow> bool" where
  "settled A lim fs cs p n \<longleftrightarrow> unat p + n \<le> 4294967296
     \<and> ((\<exists>(b, l) \<in> fs_blocks A fs cs. b \<le> unat p \<and> unat p + n \<le> b + l)
        \<or> unat p + n \<le> unat (heap_start (h_info (f_sys fs))) \<or> lim \<le> unat p)"

text \<open>What an allocation keeps: the bytes that are settled.\<close>

definition settled_kept :: "u32 \<Rightarrow> nat \<Rightarrow> fs_state \<Rightarrow> (nat \<times> bool) list \<Rightarrow> mem \<Rightarrow> bool" where
  "settled_kept A lim fs cs m \<longleftrightarrow>
     (\<forall>p n i. settled A lim fs cs p n \<longrightarrow> i < n \<longrightarrow> m (p + of_nat i) = fs_mem fs (p + of_nat i))"

text \<open>The bytes in allocated blocks, alone.\<close>

definition lodged_kept :: "u32 \<Rightarrow> fs_state \<Rightarrow> (nat \<times> bool) list \<Rightarrow> mem \<Rightarrow> bool" where
  "lodged_kept A fs cs m \<longleftrightarrow>
     (\<forall>p n i. lodged (fs_blocks A fs cs) p n \<longrightarrow> i < n \<longrightarrow> m (p + of_nat i) = fs_mem fs (p + of_nat i))"

lemma lodged_settled: "lodged (fs_blocks A fs cs) p n \<Longrightarrow> settled A lim fs cs p n"
  by (auto simp: lodged_def settled_def)

lemma settled_kept_lodged: "settled_kept A lim fs cs m \<Longrightarrow> lodged_kept A fs cs m"
  unfolding settled_kept_def lodged_kept_def using lodged_settled by blast

lemma lodged_mono: "lodged B p n \<Longrightarrow> B \<subseteq> B' \<Longrightarrow> lodged B' p n"
  by (auto simp: lodged_def)

lemma settled_kept_alloc:
  assumes "contents_kept (fs_blocks A fs cs) (fs_mem fs) m" "outside_kept (unat (heap_start (h_info (f_sys fs)))) e (fs_mem fs) m" "e \<le> lim"
  shows "settled_kept A lim fs cs m"
  unfolding settled_kept_def
proof (intro allI impI)
  fix p n i assume s: "settled A lim fs cs p n" and i: "i < n"
  have b: "unat p + n \<le> 4294967296" using s by (simp add: settled_def)
  have pi: "p + of_nat i = of_nat (unat p + i)" by simp
  have lt: "unat p + i < 4294967296" using b i by linarith
  consider (block) b l where "(b, l) \<in> fs_blocks A fs cs" "b \<le> unat p" "unat p + n \<le> b + l"
    | (out) "unat p + i < unat (heap_start (h_info (f_sys fs))) \<or> e \<le> unat p + i"
    using s i assms(3) by (auto simp: settled_def)
  then show "m (p + of_nat i) = fs_mem fs (p + of_nat i)"
  proof cases
    case block
    define j where "j = unat p + i - b"
    have j: "unat p + i = b + j" "j < l" using block(2,3) i by (simp_all add: j_def)
    show ?thesis using bspec [OF assms(1) [unfolded contents_kept_def] block(1)] j(2) unfolding pi j(1) by blast
  next
    case out
    then show ?thesis using assms(2) lt unfolding pi outside_kept_def by blast
  qed
qed

lemma settled_mono: "settled A lim fs cs p n \<Longrightarrow> k \<le> n \<Longrightarrow> settled A lim fs cs p k"
  by (fastforce simp: settled_def)

lemma settled_later:
  assumes "settled A lim fs cs p n" "fs_blocks A fs cs \<subseteq> fs_blocks A fs' cs'"
    "heap_start (h_info (f_sys fs')) = heap_start (h_info (f_sys fs))"
  shows "settled A lim fs' cs' p n"
  using assms by (auto simp: settled_def)

lemma aligned_size_le:
  assumes "align_ok A" "unat sz + unat A \<le> 4294967296"
  shows "unat (aligned_size A sz) + 2 * msize A \<le> unat sz + 64"
proof -
  have "unat A \<le> 16" using assms(1) by (auto simp: align_ok_def)
  moreover have "msize A \<le> 16" using marker_sizes(3) [OF assms(1)] by auto
  moreover have "unat (aligned_size A sz) < unat sz + unat A" using aligned_size_exact(3) [OF assms] .
  ultimately show ?thesis by linarith
qed

lemma fs_malloc_run:
  assumes h: "fs_heap A V me N lim fs cs" and sz: "sz \<noteq> 0" "unat sz + 64 \<le> 4096 * N"
  obtains p sys cs' len k where "fs_malloc A V me sz fs = Some (Inr (p, fs\<lparr>f_sys := sys\<rparr>))" "p \<noteq> 0"
    "k \<le> N" "4096 * k < unat sz + 4160" "fs_heap A V me (N - k) lim (fs\<lparr>f_sys := sys\<rparr>) cs'"
    "heap_allocs A sys cs' = insert (unat p, len) (fs_blocks A fs cs)" "unat sz \<le> len" "unat p + len < 4294967296"
    "heap_start (h_info sys) = heap_start (h_info (f_sys fs))" "settled_kept A lim fs cs (h_mem sys)"
    "\<And>q n. settled A lim fs cs q n \<Longrightarrow> unat q + n \<le> unat p \<or> unat p + len \<le> unat q"
    "\<And>b l. (b, l) \<in> fs_blocks A fs cs \<Longrightarrow> b + l \<le> unat p \<or> unat p + len \<le> b"
proof -
  let ?sys = "f_sys fs" and ?hs = "unat (heap_start (h_info (f_sys fs)))"
  have ok: "heap_ok A ?sys cs" "heap_semaphore (h_info ?sys) = 0" "heap_room V me ?sys N" "lim = unat (heap_end (h_info ?sys)) + 4096 * N"
    using h by (simp_all add: fs_heap_def)
  have A: "align_ok A" using ok(1) by (simp add: heap_ok_def)
  have "unat A \<le> 16" using A by (auto simp: align_ok_def)
  moreover have lim: "lim < 4294967296" using heap.room_bound [OF ok(3)] ok(4) by simp
  ultimately have fit: "unat sz + unat A \<le> 4294967296" using sz(2) ok(4) by linarith
  note al = aligned_size_le [OF A fit]
  have room: "unat (aligned_size A sz) + 2 * msize A \<le> 4096 * N" using al sz(2) by linarith
  obtain p sys cs' len k where r: "malloc A V me sz ?sys = Some (Inr (p, sys))" "heap_ok A sys cs'"
    "heap_allocs A sys cs' = insert (unat p, len) (heap_allocs A ?sys cs)" "unat sz \<le> len" "p \<noteq> 0"
    "\<forall>(b, l) \<in> heap_allocs A ?sys cs. b + l \<le> unat p \<or> unat p + len \<le> b"
    "contents_kept (heap_allocs A ?sys cs) (h_mem ?sys) (h_mem sys)"
    "outside_kept ?hs (unat (heap_end (h_info sys))) (h_mem ?sys) (h_mem sys)"
    "heap_semaphore (h_info sys) = 0" "k \<le> N" "heap_room V me sys (N - k)"
    "unat (heap_end (h_info sys)) = unat (heap_end (h_info ?sys)) + 4096 * k"
    "4096 * k < unat (aligned_size A sz) + 2 * msize A + 4096" "heap_start (h_info sys) = heap_start (h_info ?sys)"
    using malloc_spec [OF ok(1,2) sz(1) fit ok(3) room] by (elim exE conjE)
  have kN: "4096 * k \<le> 4096 * N" using r(10) by simp
  have e: "unat (heap_end (h_info sys)) \<le> lim" using ok(4) r(12) kN by simp
  have new: "(unat p, len) \<in> heap_allocs A sys cs'" using r(3) by simp
  note bd = heap_allocs_bound [OF r(2) new]
  have kept: "settled_kept A lim fs cs (h_mem sys)"
    using r(7,8) e by (intro settled_kept_alloc) (simp_all add: fs_blocks_def fs_mem_def)
  have apart: "unat q + n \<le> unat p \<or> unat p + len \<le> unat q" if "settled A lim fs cs q n" for q n
  proof -
    have "(\<exists>(b, l) \<in> heap_allocs A ?sys cs. b \<le> unat q \<and> unat q + n \<le> b + l) \<or> unat q + n \<le> ?hs \<or> lim \<le> unat q"
      using that by (simp add: settled_def fs_blocks_def)
    then show ?thesis
    proof (elim disjE)
      assume "\<exists>(b, l) \<in> heap_allocs A ?sys cs. b \<le> unat q \<and> unat q + n \<le> b + l"
      then obtain b l where "(b, l) \<in> heap_allocs A ?sys cs" "b \<le> unat q" "unat q + n \<le> b + l" by blast
      then show ?thesis using r(6) by fastforce
    qed (use bd(1,2) e r(14) in auto)
  qed
  have "fs_heap A V me (N - k) lim (fs\<lparr>f_sys := sys\<rparr>) cs'"
    using r(2,9,11,12) ok(4) kN by (simp add: fs_heap_def diff_mult_distrib2)
  moreover have "4096 * k < unat sz + 4160" using r(13) al by linarith
  moreover have "unat p + len < 4294967296" using bd(1) e lim by linarith
  moreover have "fs_malloc A V me sz fs = Some (Inr (p, fs\<lparr>f_sys := sys\<rparr>))" using r(1) by (simp add: fs_malloc_def)
  moreover have "b + l \<le> unat p \<or> unat p + len \<le> b" if "(b, l) \<in> fs_blocks A fs cs" for b l
    using r(6) that by (auto simp: fs_blocks_def)
  ultimately show ?thesis
    using that r(3-5,10,14) kept apart by (simp add: fs_blocks_def)
qed

text \<open>Copying a string into a block.\<close>

lemma in_range_span:
  assumes "unat p + n < 4294967296"
  shows "in_range p (of_nat n) a \<longleftrightarrow> unat p \<le> unat a \<and> unat a < unat p + n"
proof -
  have "in_range (0 + of_nat (unat p)) (of_nat n) (0 + of_nat (unat a)) \<longleftrightarrow> unat p \<le> unat a \<and> unat a < unat p + n"
    by (rule in_range_offsets) (use assms unat_u32_bound [of a] in simp_all)
  then show ?thesis by simp
qed

lemma distance_apart:
  assumes "unat q + n \<le> unat p \<or> unat p + n \<le> unat q" "unat q + n \<le> 4294967296" "0 < n" "n < 4294967296"
  shows "(of_nat n :: u32) \<le> p - q"
proof -
  have n: "unat (of_nat n :: u32) = n" using assms(4) by (intro unat_of_nat_small) simp
  show ?thesis
  proof (cases "unat q + n \<le> unat p")
    case True
    then have "unat (p - q) = unat p - unat q" using assms(3) by (intro unat_sub_small) simp
    then show ?thesis using True n by (simp add: word_le_nat_alt)
  next
    case False
    then have le: "unat p + n \<le> unat q" using assms(1) by blast
    then have qp: "unat (q - p) = unat q - unat p" by (intro unat_sub_small) simp
    then have "q - p \<noteq> 0" using le assms(3) by auto
    then have "unat (p - q) + unat (q - p) = 4294967296" using unat_uminus [of "q - p"] by simp
    then have "n \<le> unat (p - q)" using qp le assms(2) by linarith
    then show ?thesis using n by (simp add: word_le_nat_alt)
  qed
qed

lemma fs_block_write:
  assumes h: "fs_heap A V me N lim fs cs" and b: "(unat p, len) \<in> fs_blocks A fs cs" "unat p + len < 4294967296"
    and out: "\<And>a. \<not> (unat p \<le> unat a \<and> unat a < unat p + len) \<Longrightarrow> m a = fs_mem fs a"
  shows "fs_heap A V me N lim (set_fs_mem m fs) cs"
proof -
  have ok: "heap_ok A (f_sys fs) cs" using h by (simp add: fs_heap_def)
  have "chunks A m (unat (heap_start (h_info (f_sys fs)))) (unat (heap_end (h_info (f_sys fs)))) cs"
  proof (rule block_write(1))
    show "align_ok A" "chunks A (fs_mem fs) (unat (heap_start (h_info (f_sys fs)))) (unat (heap_end (h_info (f_sys fs)))) cs"
      using ok by (simp_all add: heap_ok_def fs_mem_def)
    show "(unat p, len) \<in> allocs A (unat (heap_start (h_info (f_sys fs)))) cs"
      using b(1) by (simp add: fs_blocks_def heap_allocs_def)
    show "m (of_nat x) = fs_mem fs (of_nat x)" if "x < 4294967296" "\<not> (unat p \<le> x \<and> x < unat p + len)" for x
    proof (rule out)
      have "unat (of_nat x :: u32) = x" using that(1) by (intro unat_of_nat_small) simp
      then show "\<not> (unat p \<le> unat (of_nat x :: u32) \<and> unat (of_nat x :: u32) < unat p + len)" using that(2) by simp
    qed
  qed simp
  then have "heap_ok A ((f_sys fs)\<lparr>h_mem := m\<rparr>) cs" using ok by (simp add: heap_ok_def)
  then show ?thesis using h by (simp add: fs_heap_def set_fs_mem_def heap.room_mem)
qed

lemma fs_strcpy_run:
  assumes h: "fs_heap A V me N lim fs cs" and new: "(unat p, len) \<in> fs_blocks A fs cs" "length s + 1 \<le> len" "unat p + len < 4294967296"
    and q: "str_at (fs_mem fs) q s" "unat q + (length s + 1) \<le> 4294967296"
    and apart: "unat q + (length s + 1) \<le> unat p \<or> unat p + len \<le> unat q"
  obtains m where "strcpy (fs_mem fs) p q = Some (p, m)" "str_at m p s" "fs_heap A V me N lim (set_fs_mem m fs) cs"
    "fs_blocks A (set_fs_mem m fs) cs = fs_blocks A fs cs"
    "\<And>a. \<not> (unat p \<le> unat a \<and> unat a < unat p + len) \<Longrightarrow> m a = fs_mem fs a"
proof -
  let ?n = "length s + 1"
  have n: "?n < 4294967296" using new(2,3) by linarith
  have w: "of_nat (length s) + 1 = (of_nat ?n :: u32)" by simp
  have d: "(of_nat ?n :: u32) \<le> p - q"
    by (rule distance_apart [OF _ q(2) _ n]) (use apart new(2) in \<open>linarith+\<close>)
  obtain m where m: "strcpy (fs_mem fs) p q = Some (p, m)" "str_at m p s"
      "\<forall>a. \<not> in_range p (of_nat ?n) a \<longrightarrow> m a = fs_mem fs a"
    using strcpy_correct [OF q(1) n, of p] d unfolding w by blast
  have pn: "unat p + ?n < 4294967296" using new(2,3) by linarith
  have out: "m a = fs_mem fs a" if "\<not> (unat p \<le> unat a \<and> unat a < unat p + len)" for a
  proof -
    have "\<not> in_range p (of_nat ?n) a" unfolding in_range_span [OF pn] using that new(2) by linarith
    then show ?thesis using m(3) by blast
  qed
  have "fs_heap A V me N lim (set_fs_mem m fs) cs" by (rule fs_block_write [OF h new(1,3) out])
  then show ?thesis
    using that m(1,2) out by (simp add: fs_blocks_def heap_allocs_def set_fs_mem_def)
qed

section \<open>The objects of the file system\<close>

definition in_block :: "(nat \<times> nat) set \<Rightarrow> u32 \<Rightarrow> bool" where
  "in_block B x \<longleftrightarrow> (\<exists>(b, l) \<in> B. b \<le> unat x \<and> unat x < b + l)"

definition fs_objects :: "u32 \<Rightarrow> fs_state \<Rightarrow> (nat \<times> bool) list \<Rightarrow> bool" where
  "fs_objects A fs cs \<longleftrightarrow>
     (\<forall>x \<in> dom (f_entries fs) \<union> dom (f_lists fs) \<union> dom (f_vnodes fs) \<union> dom (f_regs fs). in_block (fs_blocks A fs cs) x)
     \<and> (\<forall>e \<in> ran (f_entries fs). \<exists>s. str_at (fs_mem fs) (entry_name e) s \<and> lodged (fs_blocks A fs cs) (entry_name e) (length s + 1))
     \<and> (\<forall>r \<in> ran (f_regs fs). lodged (fs_blocks A fs cs) (reg_content r) (unat (reg_size r)))"

text \<open>The directories \<open>D\<close> with the items \<open>L\<close> of their lists, which no two directories share.\<close>

definition dir_span :: "fs_state \<Rightarrow> (u32 \<Rightarrow> u32 list) \<Rightarrow> u32 \<Rightarrow> u32 set" where
  "dir_span fs L vp = insert (v_data (the (f_vnodes fs vp))) (set (L vp))"

definition tree_layout :: "fs_state \<Rightarrow> fs_tree \<Rightarrow> (u32 \<Rightarrow> u32 list) \<Rightarrow> bool" where
  "tree_layout fs D L \<longleftrightarrow>
     (\<forall>vp \<in> dom D. \<exists>n. f_vnodes fs vp = Some n \<and> v_type n = VDIR \<and> klist (f_lists fs) (v_data n) (L vp)
        \<and> list_all2 (entry_at fs) (L vp) (the (D vp)))
     \<and> (\<forall>vp \<in> dom D. \<forall>vq \<in> dom D. vp \<noteq> vq \<longrightarrow> dir_span fs L vp \<inter> dir_span fs L vq = {})"

lemma settled_kept_str:
  assumes "settled_kept A lim fs cs m" "str_at (fs_mem fs) p s" "settled A lim fs cs p (length s + 1)"
  shows "str_at m p s"
proof -
  have "m (p + of_nat i) = fs_mem fs (p + of_nat i)" if "i \<le> length s" for i
    using assms(1,3) that unfolding settled_kept_def by (metis Suc_eq_plus1 le_imp_less_Suc)
  then show ?thesis using str_at_copy [of s m p "fs_mem fs" p] assms(2) by blast
qed

lemma lodged_kept_str:
  assumes "lodged_kept A fs cs m" "str_at (fs_mem fs) p s" "lodged (fs_blocks A fs cs) p (length s + 1)"
  shows "str_at m p s"
proof -
  have "m (p + of_nat i) = fs_mem fs (p + of_nat i)" if "i \<le> length s" for i
    using assms(1,3) that unfolding lodged_kept_def by (metis Suc_eq_plus1 le_imp_less_Suc)
  then show ?thesis using str_at_copy [of s m p "fs_mem fs" p] assms(2) by blast
qed

lemma settled_kept_trans:
  assumes "settled_kept A lim fs cs (fs_mem fs')" "settled_kept A lim fs' cs' m"
    "\<And>p n. settled A lim fs cs p n \<Longrightarrow> settled A lim fs' cs' p n"
  shows "settled_kept A lim fs cs m"
  using assms unfolding settled_kept_def by metis

text \<open>Changes of the heap and of memory that keep what is settled.\<close>

lemma fs_objects_alloc:
  assumes o: "fs_objects A fs cs" and k: "lodged_kept A fs cs (h_mem sys)"
    and b: "fs_blocks A fs cs \<subseteq> heap_allocs A sys cs'"
  shows "fs_objects A (fs\<lparr>f_sys := sys\<rparr>) cs'"
proof -
  let ?fs = "fs\<lparr>f_sys := sys\<rparr>"
  have B: "fs_blocks A fs cs \<subseteq> fs_blocks A ?fs cs'" using b(1) by (simp add: fs_blocks_def)
  have later: "lodged (fs_blocks A ?fs cs') p n" if "lodged (fs_blocks A fs cs) p n" for p n
    by (rule lodged_mono [OF that B])
  have names: "\<exists>s. str_at (fs_mem ?fs) (entry_name e) s \<and> lodged (fs_blocks A ?fs cs') (entry_name e) (length s + 1)"
    if "e \<in> ran (f_entries ?fs)" for e
  proof -
    have "e \<in> ran (f_entries fs)" using that by simp
    then obtain s where s: "str_at (fs_mem fs) (entry_name e) s" "lodged (fs_blocks A fs cs) (entry_name e) (length s + 1)"
      using o unfolding fs_objects_def by blast
    have "str_at (fs_mem ?fs) (entry_name e) s" using lodged_kept_str [OF k s] by (simp add: fs_mem_def)
    then show ?thesis using later [OF s(2)] by blast
  qed
  have "in_block (fs_blocks A ?fs cs') x" if "in_block (fs_blocks A fs cs) x" for x
    using that B by (auto simp: in_block_def)
  then show ?thesis
    using o names later unfolding fs_objects_def by simp
qed

lemma entry_at_alloc:
  assumes o: "fs_objects A fs cs" and k: "lodged_kept A fs cs (h_mem sys)" and e: "entry_at fs item e"
  shows "entry_at (fs\<lparr>f_sys := sys\<rparr>) item e"
proof -
  obtain x where x: "f_entries fs (item - 8) = Some x" "entry_vnode x = snd e" "str_at (fs_mem fs) (entry_name x) (fst e)"
    using e by (auto simp: entry_at_def split: option.splits)
  then obtain s where s: "str_at (fs_mem fs) (entry_name x) s" "lodged (fs_blocks A fs cs) (entry_name x) (length s + 1)"
    using o by (force simp: fs_objects_def ran_def)
  have "str_at (h_mem sys) (entry_name x) s" by (rule lodged_kept_str [OF k s])
  then show ?thesis using x str_at_unique [OF s(1) x(3)] by (simp add: entry_at_def fs_mem_def)
qed

lemma tree_layout_alloc:
  assumes o: "fs_objects A fs cs" and k: "lodged_kept A fs cs (h_mem sys)" and t: "tree_layout fs D L"
  shows "tree_layout (fs\<lparr>f_sys := sys\<rparr>) D L"
proof -
  have "list_all2 (entry_at (fs\<lparr>f_sys := sys\<rparr>)) xs es" if "list_all2 (entry_at fs) xs es" for xs es
    using that entry_at_alloc [OF o k] by (auto elim: list_all2_mono)
  then have "\<exists>n. f_vnodes fs vp = Some n \<and> v_type n = VDIR \<and> klist (f_lists fs) (v_data n) (L vp)
      \<and> list_all2 (entry_at (fs\<lparr>f_sys := sys\<rparr>)) (L vp) (the (D vp))" if "vp \<in> dom D" for vp
    using t that unfolding tree_layout_def by blast
  moreover have "dir_span fs L vp \<inter> dir_span fs L vq = {}" if "vp \<in> dom D" "vq \<in> dom D" "vp \<noteq> vq" for vp vq
    using t that unfolding tree_layout_def by blast
  ultimately show ?thesis unfolding tree_layout_def dir_span_def by simp
qed

lemma tree_layout_tree:
  assumes "tree_layout fs D L" "\<And>vp es s v. D vp = Some es \<Longrightarrow> (s, v) \<in> set es \<Longrightarrow> in_tree fs D v"
  shows "tree_at fs D"
  unfolding tree_at_def
proof (intro allI impI conjI ballI)
  fix vp es assume d: "D vp = Some es"
  show "dir_at fs vp es" using assms(1) d unfolding tree_layout_def dir_at_def by force
  fix x assume "x \<in> set es"
  then show "case x of (s, v) \<Rightarrow> D v = None \<longrightarrow> (\<exists>n. f_vnodes fs v = Some n \<and> v_type n \<noteq> VDIR)"
    using assms(2) [OF d] by (auto simp: in_tree_def)
qed

section \<open>Adding an entry\<close>

lemma klinked_same:
  "klinked h a xs z \<Longrightarrow> (\<And>q. q \<in> insert a (insert z (set xs)) \<Longrightarrow> h' q = h q) \<Longrightarrow> klinked h' a xs z"
proof (induction xs arbitrary: a)
  case (Cons x xs)
  have "klinked h' x xs z" using Cons.prems by (intro Cons.IH) auto
  then show ?case using Cons.prems by auto
qed auto

lemma klinked_dom: "klinked h a xs z \<Longrightarrow> insert a (insert z (set xs)) \<subseteq> dom h"
  by (induction xs arbitrary: a) auto

lemma klist_dom: "klist h head xs \<Longrightarrow> insert head (set xs) \<subseteq> dom h"
  using klinked_dom [of h head xs head] by (auto simp: klist_def)

lemma klist_same: "klist h head xs \<Longrightarrow> (\<And>q. q \<in> insert head (set xs) \<Longrightarrow> h' q = h q) \<Longrightarrow> klist h' head xs"
  using klinked_same [of h head xs head h'] by (auto simp: klist_def)

lemma entry_at_dom: "list_all2 (entry_at fs) xs es \<Longrightarrow> x \<in> set xs \<Longrightarrow> x - 8 \<in> dom (f_entries fs)"
  by (induction rule: list_all2_induct) (auto simp: entry_at_def split: option.splits)

text \<open>The links of a new entry; \<open>l0\<close> is what its memory held before.\<close>

lemma tree_layout_add:
  fixes child :: u32 and l0 :: list_head
  assumes t: "tree_layout fs D L" and d: "D dir = Some es" "f_vnodes fs dir = Some n"
    and fresh: "entry + 8 \<notin> dom (f_lists fs)" "entry \<notin> dom (f_entries fs)" and np: "str_at (fs_mem fs) np s"
  defines "fs1 \<equiv> fs\<lparr>f_entries := (f_entries fs)(entry \<mapsto> \<lparr>entry_name = np, entry_vnode = child\<rparr>), f_lists := (f_lists fs)(entry + 8 \<mapsto> l0)\<rparr>"
  obtains ls where "list_add (v_data n) (entry + 8) (f_lists fs1) = Inr ls" "dom ls = insert (entry + 8) (dom (f_lists fs))"
    "tree_layout (fs1\<lparr>f_lists := ls\<rparr>) (D(dir \<mapsto> (s, child) # es)) (L(dir := (entry + 8) # L dir))"
proof -
  let ?item = "entry + 8"
  have ex: "\<exists>n. f_vnodes fs vp = Some n \<and> v_type n = VDIR \<and> klist (f_lists fs) (v_data n) (L vp) \<and> list_all2 (entry_at fs) (L vp) (the (D vp))"
    if "vp \<in> dom D" for vp using t that unfolding tree_layout_def by blast
  have dj: "dir_span fs L vp \<inter> dir_span fs L vq = {}" if "vp \<in> dom D" "vq \<in> dom D" "vp \<noteq> vq" for vp vq
    using t that unfolding tree_layout_def by blast
  have dD: "dir \<in> dom D" using d(1) by blast
  have ld: "v_type n = VDIR" "klist (f_lists fs) (v_data n) (L dir)" "list_all2 (entry_at fs) (L dir) es"
    using ex [OF dD] d by auto
  have sd: "dir_span fs L vp \<subseteq> dom (f_lists fs)" if "vp \<in> dom D" for vp
    using ex [OF that] klist_dom unfolding dir_span_def by fastforce
  have new: "?item \<notin> dir_span fs L vp" if "vp \<in> dom D" for vp using sd [OF that] fresh(1) by blast
  have kl: "klist (f_lists fs1) (v_data m) (L vp)" if "klist (f_lists fs) (v_data m) (L vp)" for m vp
    using that fresh(1) klist_dom [OF that] by (intro klist_same [OF that]) (auto simp: fs1_def)
  have ni: "?item \<notin> set (v_data n # L dir)" using new [OF dD] d(2) by (simp add: dir_span_def)
  have "?item \<in> dom (f_lists fs1)" by (simp add: fs1_def)
  then obtain ls where ls: "list_add (v_data n) ?item (f_lists fs1) = Inr ls" "klist ls (v_data n) (?item # L dir)"
      "dom ls = dom (f_lists fs1)" "\<And>q. q \<notin> insert ?item (insert (v_data n) (set (L dir))) \<Longrightarrow> ls q = f_lists fs1 q"
    using list_add_run [OF kl [OF ld(2)] ni] by blast
  let ?fs = "fs1\<lparr>f_lists := ls\<rparr>" and ?D = "D(dir \<mapsto> (s, child) # es)" and ?L = "L(dir := ?item # L dir)"
  have ea: "list_all2 (entry_at ?fs) xs es'" if "list_all2 (entry_at fs) xs es'" for xs es'
  proof (rule list_all2_mono [OF that])
    fix x e assume e: "entry_at fs x e"
    then have "x - 8 \<in> dom (f_entries fs)" by (auto simp: entry_at_def split: option.splits)
    then have "x - 8 \<noteq> entry" using fresh(2) by blast
    then show "entry_at ?fs x e" using e by (auto simp: entry_at_def fs1_def fs_mem_def split: option.splits)
  qed
  have ne: "entry_at ?fs ?item (s, child)" using np by (simp add: entry_at_def fs1_def fs_mem_def)
  have vn: "f_vnodes ?fs = f_vnodes fs" by (simp add: fs1_def)
  have other: "klist ls (v_data m) (L vp)" if m: "vp \<in> dom D" "vp \<noteq> dir" "f_vnodes fs vp = Some m" "klist (f_lists fs) (v_data m) (L vp)" for vp m
  proof (rule klist_same [OF kl [OF m(4)]])
    fix q assume "q \<in> insert (v_data m) (set (L vp))"
    then have q: "q \<in> dir_span fs L vp" using m(3) by (simp add: dir_span_def)
    then have "q \<notin> dir_span fs L dir" "q \<noteq> ?item" using dj [OF m(1) dD m(2)] new [OF m(1)] by blast+
    then show "ls q = f_lists fs1 q" using d(2) by (intro ls(4)) (simp add: dir_span_def)
  qed
  have 1: "\<exists>m. f_vnodes ?fs vp = Some m \<and> v_type m = VDIR \<and> klist (f_lists ?fs) (v_data m) (?L vp) \<and> list_all2 (entry_at ?fs) (?L vp) (the (?D vp))"
    if "vp \<in> dom ?D" for vp
  proof (cases "vp = dir")
    case True
    then show ?thesis using d(2) ld ls(2) ne ea [OF ld(3)] by (simp add: vn)
  next
    case False
    then have v: "vp \<in> dom D" using that by simp
    obtain m where m: "f_vnodes fs vp = Some m" "v_type m = VDIR" "klist (f_lists fs) (v_data m) (L vp)" "list_all2 (entry_at fs) (L vp) (the (D vp))"
      using ex [OF v] by blast
    show ?thesis using m(1,2) other [OF v False m(1,3)] ea [OF m(4)] False by (simp add: vn)
  qed
  have span: "dir_span ?fs ?L vp = (if vp = dir then insert ?item (dir_span fs L dir) else dir_span fs L vp)" for vp
    by (auto simp: dir_span_def vn)
  have 2: "dir_span ?fs ?L vp \<inter> dir_span ?fs ?L vq = {}" if "vp \<in> dom ?D" "vq \<in> dom ?D" "vp \<noteq> vq" for vp vq
  proof -
    have "vp \<in> dom D" "vq \<in> dom D" using that dD by auto
    then show ?thesis using dj [of vp vq] new [of vp] new [of vq] that(3) by (auto simp: span)
  qed
  have "tree_layout ?fs ?D ?L" using 1 2 unfolding tree_layout_def by blast
  moreover have "dom (f_lists fs1) = insert ?item (dom (f_lists fs))" by (simp add: fs1_def)
  ultimately show ?thesis using that [OF ls(1)] ls(3) by blast
qed

lemma in_block_fresh:
  assumes "in_block B x" "\<And>b l. (b, l) \<in> B \<Longrightarrow> b + l \<le> p \<or> p + len \<le> b" "p \<le> unat y" "unat y < p + len"
  shows "x \<noteq> y"
  using assms unfolding in_block_def by fastforce

lemma fs_blocks_sys [simp]: "fs_blocks A (fs\<lparr>f_sys := sys\<rparr>) cs = heap_allocs A sys cs" "fs_mem (fs\<lparr>f_sys := sys\<rparr>) = h_mem sys"
  by (simp_all add: fs_blocks_def fs_mem_def)

lemma heap_allocs_mem [simp]: "heap_allocs A (sys\<lparr>h_mem := m\<rparr>) cs = heap_allocs A sys cs"
  by (simp add: heap_allocs_def)

text \<open>The allocation of an entry and of the copy of its name.\<close>

lemma entry_alloc:
  assumes h: "fs_heap A V me N lim fs cs" and room: "length s + 4300 \<le> 4096 * N"
    and nm: "str_at (fs_mem fs) name s" "settled A lim fs cs name (length s + 1)"
  obtains entry sys1 np sys2 m cs' where
    "fs_malloc A V me 16 fs = Some (Inr (entry, fs\<lparr>f_sys := sys1\<rparr>))" "entry \<noteq> 0"
    "strlen (h_mem sys1) name = Some (of_nat (length s))"
    "fs_malloc A V me (of_nat (length s) + 1) (fs\<lparr>f_sys := sys1\<rparr>) = Some (Inr (np, fs\<lparr>f_sys := sys2\<rparr>))" "np \<noteq> 0"
    "strcpy (h_mem sys2) np name = Some (np, m)" "str_at m np s"
    "\<exists>k \<le> N. 4096 * k < length s + 8400 \<and> fs_heap A V me (N - k) lim (fs\<lparr>f_sys := sys2\<lparr>h_mem := m\<rparr>\<rparr>) cs'"
    "fs_blocks A fs cs \<subseteq> heap_allocs A sys2 cs'" "heap_start (h_info sys2) = heap_start (h_info (f_sys fs))"
    "settled_kept A lim fs cs m" "lodged (heap_allocs A sys2 cs') np (length s + 1)"
    "in_block (heap_allocs A sys2 cs') entry" "in_block (heap_allocs A sys2 cs') (entry + 8)"
    "\<forall>x. in_block (fs_blocks A fs cs) x \<longrightarrow> x \<noteq> entry \<and> x \<noteq> entry + 8"
proof -
  obtain entry sys1 cs1 len1 k1 where 1: "fs_malloc A V me 16 fs = Some (Inr (entry, fs\<lparr>f_sys := sys1\<rparr>))" "entry \<noteq> 0"
    "k1 \<le> N" "4096 * k1 < unat (16 :: u32) + 4160" "fs_heap A V me (N - k1) lim (fs\<lparr>f_sys := sys1\<rparr>) cs1"
    "heap_allocs A sys1 cs1 = insert (unat entry, len1) (fs_blocks A fs cs)" "unat (16 :: u32) \<le> len1" "unat entry + len1 < 4294967296"
    "heap_start (h_info sys1) = heap_start (h_info (f_sys fs))" "settled_kept A lim fs cs (h_mem sys1)"
    "\<And>b l. (b, l) \<in> fs_blocks A fs cs \<Longrightarrow> b + l \<le> unat entry \<or> unat entry + len1 \<le> b"
    by (rule fs_malloc_run [OF h, of 16]) (use room in auto)
  let ?fs1 = "fs\<lparr>f_sys := sys1\<rparr>"
  have k1: "k1 \<le> 1" using 1(4) by simp
  have later1: "settled A lim ?fs1 cs1 p n" if "settled A lim fs cs p n" for p n
    by (rule settled_later [OF that]) (use 1(6,9) in auto)
  have nm1: "str_at (h_mem sys1) name s" by (rule settled_kept_str [OF 1(10) nm])
  have "lim < 4294967296" using heap.room_bound [of V me "f_sys fs" N] h by (simp add: fs_heap_def)
  then have small: "length s + 4300 < 4294967296" using h room by (simp add: fs_heap_def)
  have ul: "unat (of_nat (length s) + 1 :: u32) = length s + 1"
  proof -
    have "unat (of_nat (length s + 1) :: u32) = length s + 1" by (rule unat_of_nat_small) (use small in simp)
    moreover have "(of_nat (length s + 1) :: u32) = of_nat (length s) + 1" by simp
    ultimately show ?thesis by (simp only:)
  qed
  have nz: "(of_nat (length s) + 1 :: u32) \<noteq> 0"
  proof
    assume "(of_nat (length s) + 1 :: u32) = 0"
    then have "unat (of_nat (length s) + 1 :: u32) = 0" by simp
    then show False using ul by simp
  qed
  have rm: "unat (of_nat (length s) + 1 :: u32) + 64 \<le> 4096 * (N - k1)"
    unfolding ul using room k1 by (cases k1) simp_all
  obtain np sys2 cs2 len2 k2 where 2: "fs_malloc A V me (of_nat (length s) + 1) ?fs1 = Some (Inr (np, ?fs1\<lparr>f_sys := sys2\<rparr>))" "np \<noteq> 0"
    "k2 \<le> N - k1" "4096 * k2 < unat (of_nat (length s) + 1 :: u32) + 4160" "fs_heap A V me (N - k1 - k2) lim (?fs1\<lparr>f_sys := sys2\<rparr>) cs2"
    "heap_allocs A sys2 cs2 = insert (unat np, len2) (fs_blocks A ?fs1 cs1)" "unat (of_nat (length s) + 1 :: u32) \<le> len2" "unat np + len2 < 4294967296"
    "heap_start (h_info sys2) = heap_start (h_info (f_sys ?fs1))" "settled_kept A lim ?fs1 cs1 (h_mem sys2)"
    "\<And>q n. settled A lim ?fs1 cs1 q n \<Longrightarrow> unat q + n \<le> unat np \<or> unat np + len2 \<le> unat q"
    "\<And>b l. (b, l) \<in> fs_blocks A ?fs1 cs1 \<Longrightarrow> b + l \<le> unat np \<or> unat np + len2 \<le> b"
    using fs_malloc_run [OF 1(5) nz rm] by metis
  let ?fs2 = "fs\<lparr>f_sys := sys2\<rparr>"
  have nm2: "str_at (fs_mem ?fs2) name s"
    using settled_kept_str [OF 2(10) _ later1 [OF nm(2)]] nm1 by simp
  have nb: "unat name + (length s + 1) \<le> 4294967296" using nm(2) by (simp add: settled_def)
  have heap2: "fs_heap A V me (N - k1 - k2) lim ?fs2 cs2" using 2(5) by simp
  have new2: "(unat np, len2) \<in> fs_blocks A ?fs2 cs2" using 2(6) by simp
  have le2: "length s + 1 \<le> len2" using 2(7) unfolding ul .
  obtain m where m: "strcpy (fs_mem ?fs2) np name = Some (np, m)" "str_at m np s" "fs_heap A V me (N - k1 - k2) lim (set_fs_mem m ?fs2) cs2"
    "\<And>a. \<not> (unat np \<le> unat a \<and> unat a < unat np + len2) \<Longrightarrow> m a = fs_mem ?fs2 a"
    by (rule fs_strcpy_run [OF heap2 new2 le2 2(8) nm2 nb 2(11) [OF later1 [OF nm(2)]]]) blast
  have kept2: "settled_kept A lim ?fs1 cs1 m"
    unfolding settled_kept_def
  proof (intro allI impI)
    fix p n i assume st: "settled A lim ?fs1 cs1 p n" and i: "i < n"
    have "unat (p + of_nat i) = unat p + i" using st i by (intro unat_add_of_nat) (simp add: settled_def)
    then have "m (p + of_nat i) = fs_mem ?fs2 (p + of_nat i)" using 2(11) [OF st] i by (intro m(4)) linarith
    then show "m (p + of_nat i) = fs_mem ?fs1 (p + of_nat i)" using 2(10) st i unfolding settled_kept_def by simp
  qed
  have kept: "settled_kept A lim fs cs m"
    using settled_kept_trans [of A lim fs cs ?fs1 cs1 m] 1(10) kept2 later1 by simp
  have ue: "unat (entry + 8) = unat entry + 8" using 1(7,8) by (subst unat_add_small) simp_all
  have blk: "in_block (heap_allocs A sys2 cs2) entry" "in_block (heap_allocs A sys2 cs2) (entry + 8)"
    using 1(6,7) 2(6) ue by (auto simp: in_block_def intro!: bexI [of _ "(unat entry, len1)"])
  have "x \<noteq> entry \<and> x \<noteq> entry + 8" if "in_block (fs_blocks A fs cs) x" for x
    using in_block_fresh [OF that 1(11), of entry] in_block_fresh [OF that 1(11), of "entry + 8"] 1(7) ue by simp
  then have fresh: "\<forall>x. in_block (fs_blocks A fs cs) x \<longrightarrow> x \<noteq> entry \<and> x \<noteq> entry + 8" by blast
  have set: "lodged (heap_allocs A sys2 cs2) np (length s + 1)"
    unfolding lodged_def using le2 2(6,8) by (auto intro!: bexI [of _ "(unat np, len2)"])
  have pages: "\<exists>k \<le> N. 4096 * k < length s + 8400 \<and> fs_heap A V me (N - k) lim (fs\<lparr>f_sys := sys2\<lparr>h_mem := m\<rparr>\<rparr>) cs2"
  proof (intro exI [of _ "k1 + k2"] conjI)
    show "4096 * (k1 + k2) < length s + 8400" using 2(4) k1 unfolding ul by simp
    show "k1 + k2 \<le> N" using 1(3) 2(3) by simp
    show "fs_heap A V me (N - (k1 + k2)) lim (fs\<lparr>f_sys := sys2\<lparr>h_mem := m\<rparr>\<rparr>) cs2" using m(3) by (simp add: set_fs_mem_def)
  qed
  have sub: "fs_blocks A fs cs \<subseteq> heap_allocs A sys2 cs2" using 1(6) 2(6) by auto
  show ?thesis
    by (rule that [OF 1(1,2) strlen_str [OF nm1] _ 2(2) _ m(2) pages sub _ kept set blk fresh]) (use 2(1,9) 1(9) m(1) in simp_all)
qed

text \<open>The files \<open>F\<close> with their contents, and the state of the file system: heap, objects, directories and files.\<close>

definition files_at :: "fs_state \<Rightarrow> (u32 \<rightharpoonup> u8 list) \<Rightarrow> bool" where
  "files_at fs F \<longleftrightarrow> (\<forall>vp \<in> dom F. \<exists>c. file_at fs vp c (the (F vp)))"

definition fs_ok :: "u32 \<Rightarrow> u32 \<Rightarrow> u32 \<Rightarrow> nat \<Rightarrow> nat \<Rightarrow> fs_state \<Rightarrow> (nat \<times> bool) list \<Rightarrow>
    fs_tree \<Rightarrow> (u32 \<Rightarrow> u32 list) \<Rightarrow> (u32 \<rightharpoonup> u8 list) \<Rightarrow> bool" where
  "fs_ok A V me N lim fs cs D L F \<longleftrightarrow> fs_heap A V me N lim fs cs \<and> fs_objects A fs cs \<and> tree_layout fs D L \<and> files_at fs F"

lemma files_at_kept:
  assumes f: "files_at fs F" and o: "fs_objects A fs cs" and k: "lodged_kept A fs cs (fs_mem fs')"
    and v: "\<And>vp. vp \<in> dom (f_vnodes fs) \<Longrightarrow> f_vnodes fs' vp = f_vnodes fs vp"
    and r: "\<And>d. d \<in> dom (f_regs fs) \<Longrightarrow> f_regs fs' d = f_regs fs d"
  shows "files_at fs' F"
  unfolding files_at_def
proof
  fix vp assume vp: "vp \<in> dom F"
  let ?bs = "the (F vp)"
  obtain c d where c: "length ?bs < 4294967296" "f_vnodes fs vp = Some \<lparr>v_type = VREG, v_data = d\<rparr>"
      "f_regs fs d = Some \<lparr>reg_size = of_nat (length ?bs), reg_content = c\<rparr>" "bytes_at (fs_mem fs) c (length ?bs) = ?bs"
    using f vp unfolding files_at_def file_at_def by blast
  have "unat (of_nat (length ?bs) :: u32) = length ?bs" using c(1) by (intro unat_of_nat_small) simp
  moreover have "\<lparr>reg_size = of_nat (length ?bs), reg_content = c\<rparr> \<in> ran (f_regs fs)" using c(3) unfolding ran_def by blast
  then have "lodged (fs_blocks A fs cs) c (unat (of_nat (length ?bs) :: u32))"
    using o unfolding fs_objects_def by fastforce
  ultimately have "lodged (fs_blocks A fs cs) c (length ?bs)" by (simp only:)
  then have "fs_mem fs' (c + of_nat i) = fs_mem fs (c + of_nat i)" if "i < length ?bs" for i
    using k that unfolding lodged_kept_def by blast
  then have "bytes_at (fs_mem fs') c (length ?bs) = bytes_at (fs_mem fs) c (length ?bs)" by (intro bytes_at_cong)
  then have "bytes_at (fs_mem fs') c (length ?bs) = ?bs" using c(4) by simp
  moreover have "f_vnodes fs' vp = Some \<lparr>v_type = VREG, v_data = d\<rparr>" "f_regs fs' d = Some \<lparr>reg_size = of_nat (length ?bs), reg_content = c\<rparr>"
    using v [of vp] r [of d] c(2,3) by auto
  ultimately show "\<exists>c. file_at fs' vp c ?bs" using c(1) unfolding file_at_def by blast
qed

lemma add_to_dir_run:
  assumes ok: "fs_ok A V me N lim fs cs D L F" and room: "length s + 4300 \<le> 4096 * N"
    and nm: "str_at (fs_mem fs) name s" "settled A lim fs cs name (length s + 1)" and d: "D dir = Some es"
  obtains fs' cs' L' k where "add_to_dir A V me dir name child fs = Some (Inr (0, fs'))"
    "k \<le> N" "4096 * k < length s + 8400" "fs_ok A V me (N - k) lim fs' cs' (D(dir \<mapsto> (s, child) # es)) L' F"
    "f_vnodes fs' = f_vnodes fs" "f_regs fs' = f_regs fs" "settled_kept A lim fs cs (fs_mem fs')"
    "fs_blocks A fs cs \<subseteq> fs_blocks A fs' cs'" "heap_start (h_info (f_sys fs')) = heap_start (h_info (f_sys fs))"
    "f_vfs fs' = f_vfs fs" "f_roots fs' = f_roots fs"
proof -
  have h: "fs_heap A V me N lim fs cs" and o: "fs_objects A fs cs" and t: "tree_layout fs D L" and f: "files_at fs F"
    using ok by (simp_all add: fs_ok_def)
  obtain n where n: "f_vnodes fs dir = Some n" using t d unfolding tree_layout_def by blast
  obtain entry sys1 np sys2 m cs' where e: "fs_malloc A V me 16 fs = Some (Inr (entry, fs\<lparr>f_sys := sys1\<rparr>))" "entry \<noteq> 0"
    "strlen (h_mem sys1) name = Some (of_nat (length s))"
    "fs_malloc A V me (of_nat (length s) + 1) (fs\<lparr>f_sys := sys1\<rparr>) = Some (Inr (np, fs\<lparr>f_sys := sys2\<rparr>))" "np \<noteq> 0"
    "strcpy (h_mem sys2) np name = Some (np, m)" "str_at m np s"
    "\<exists>k \<le> N. 4096 * k < length s + 8400 \<and> fs_heap A V me (N - k) lim (fs\<lparr>f_sys := sys2\<lparr>h_mem := m\<rparr>\<rparr>) cs'"
    "fs_blocks A fs cs \<subseteq> heap_allocs A sys2 cs'" "heap_start (h_info sys2) = heap_start (h_info (f_sys fs))"
    "settled_kept A lim fs cs m" "lodged (heap_allocs A sys2 cs') np (length s + 1)"
    "in_block (heap_allocs A sys2 cs') entry" "in_block (heap_allocs A sys2 cs') (entry + 8)"
    "\<forall>x. in_block (fs_blocks A fs cs) x \<longrightarrow> x \<noteq> entry \<and> x \<noteq> entry + 8"
    by (rule entry_alloc [OF h room nm])
  let ?sys = "sys2\<lparr>h_mem := m\<rparr>" and ?l0 = "\<lparr>l_next = load32 m (entry + 8), l_previous = load32 m (entry + 12)\<rparr>"
  let ?fs2 = "fs\<lparr>f_sys := ?sys\<rparr>"
  have o2: "fs_objects A ?fs2 cs'" by (rule fs_objects_alloc [OF o]) (use e(9) settled_kept_lodged [OF e(11)] in simp_all)
  have t2: "tree_layout ?fs2 D L" by (rule tree_layout_alloc [OF o _ t]) (use settled_kept_lodged [OF e(11)] in simp)
  have fresh: "entry + 8 \<notin> dom (f_lists fs)" "entry \<notin> dom (f_entries fs)"
    using o e(15) unfolding fs_objects_def by blast+
  have np: "str_at (fs_mem ?fs2) np s" using e(7) by simp
  have n2: "f_vnodes ?fs2 dir = Some n" using n by simp
  have f2: "entry + 8 \<notin> dom (f_lists ?fs2)" "entry \<notin> dom (f_entries ?fs2)" using fresh by simp_all
  let ?fs3 = "?fs2\<lparr>f_entries := (f_entries ?fs2)(entry \<mapsto> \<lparr>entry_name = np, entry_vnode = child\<rparr>), f_lists := (f_lists ?fs2)(entry + 8 \<mapsto> ?l0)\<rparr>"
  obtain ls where ls: "list_add (v_data n) (entry + 8) (f_lists ?fs3) = Inr ls" "dom ls = insert (entry + 8) (dom (f_lists ?fs2))"
    "tree_layout (?fs3\<lparr>f_lists := ls\<rparr>) (D(dir \<mapsto> (s, child) # es)) (L(dir := (entry + 8) # L dir))"
    by (rule tree_layout_add [OF t2 d n2 f2 np])
  let ?fs' = "?fs3\<lparr>f_lists := ls\<rparr>"
  have "add_to_dir A V me dir name child fs = Some (Inr (0, ?fs'))"
    using e(1-6) n ls(1) by (simp add: add_to_dir_def bindO_def set_fs_mem_def Let_def)
  moreover have "fs_objects A ?fs' cs'"
  proof -
    have b: "fs_blocks A ?fs' cs' = fs_blocks A ?fs2 cs'" "fs_mem ?fs' = fs_mem ?fs2" "f_regs ?fs' = f_regs ?fs2"
      by (simp_all add: fs_blocks_def fs_mem_def)
    have "dom (f_entries ?fs') \<union> dom (f_lists ?fs') \<union> dom (f_vnodes ?fs') \<union> dom (f_regs ?fs')
        = {entry, entry + 8} \<union> (dom (f_entries ?fs2) \<union> dom (f_lists ?fs2) \<union> dom (f_vnodes ?fs2) \<union> dom (f_regs ?fs2))"
      using ls(2) by auto
    then have "\<forall>x \<in> dom (f_entries ?fs') \<union> dom (f_lists ?fs') \<union> dom (f_vnodes ?fs') \<union> dom (f_regs ?fs').
        in_block (fs_blocks A ?fs' cs') x"
      using o2 e(13,14) unfolding fs_objects_def b(1) by simp
    moreover have "ran (f_entries ?fs') = insert \<lparr>entry_name = np, entry_vnode = child\<rparr> (ran (f_entries ?fs2))"
      using ran_map_upd [of "f_entries ?fs2" entry] f2(2) by auto
    then have "\<forall>x \<in> ran (f_entries ?fs'). \<exists>s. str_at (fs_mem ?fs') (entry_name x) s \<and> lodged (fs_blocks A ?fs' cs') (entry_name x) (length s + 1)"
      unfolding b using o2 np e(12) unfolding fs_objects_def by auto
    moreover have "\<forall>r \<in> ran (f_regs ?fs'). lodged (fs_blocks A ?fs' cs') (reg_content r) (unat (reg_size r))"
      unfolding b using o2 unfolding fs_objects_def by blast
    ultimately show ?thesis unfolding fs_objects_def by blast
  qed
  moreover obtain k where "k \<le> N" "4096 * k < length s + 8400" "fs_heap A V me (N - k) lim ?fs2 cs'" using e(8) by blast
  moreover have "files_at ?fs' F"
    by (rule files_at_kept [OF f o]) (use settled_kept_lodged [OF e(11)] in \<open>simp_all add: fs_mem_def\<close>)
  moreover have "fs_heap A V me (N - k) lim ?fs' cs'" if "fs_heap A V me (N - k) lim ?fs2 cs'" for k
    using that by (simp add: fs_heap_def)
  ultimately show ?thesis
    using that [of ?fs' k cs'] ls(3) e(9-11) unfolding fs_ok_def by (simp add: fs_blocks_def fs_mem_def)
qed

end
