(* ===== verification/MountSpec.thy ===== *)
theory MountSpec
  imports DirSpec
begin

text \<open>
  Mounting an archive: the creation of directories and files, the search of the parent of a path, and
  the loop of \<open>fs_mount\<close>, which builds the tree that the archive describes.
\<close>

section \<open>New nodes\<close>

lemma fs_ok_malloc:
  assumes ok: "fs_ok A V me N lim fs cs D L F" and sz: "sz \<noteq> 0" "unat sz + 64 \<le> 4096 * N"
  obtains p sys cs' len k where "fs_malloc A V me sz fs = Some (Inr (p, fs\<lparr>f_sys := sys\<rparr>))" "p \<noteq> 0"
    "k \<le> N" "4096 * k < unat sz + 4160" "fs_ok A V me (N - k) lim (fs\<lparr>f_sys := sys\<rparr>) cs' D L F"
    "heap_allocs A sys cs' = insert (unat p, len) (fs_blocks A fs cs)" "unat sz \<le> len" "unat p + len < 4294967296"
    "heap_start (h_info sys) = heap_start (h_info (f_sys fs))" "settled_kept A lim fs cs (h_mem sys)"
    "\<forall>q n. settled A lim fs cs q n \<longrightarrow> unat q + n \<le> unat p \<or> unat p + len \<le> unat q"
    "\<forall>x. in_block (fs_blocks A fs cs) x \<longrightarrow> \<not> (unat p \<le> unat x \<and> unat x < unat p + len)"
proof -
  have h: "fs_heap A V me N lim fs cs" and o: "fs_objects A fs cs" and t: "tree_layout fs D L" and f: "files_at fs F"
    using ok by (simp_all add: fs_ok_def)
  obtain p sys cs' len k where r: "fs_malloc A V me sz fs = Some (Inr (p, fs\<lparr>f_sys := sys\<rparr>))" "p \<noteq> 0"
    "k \<le> N" "4096 * k < unat sz + 4160" "fs_heap A V me (N - k) lim (fs\<lparr>f_sys := sys\<rparr>) cs'"
    "heap_allocs A sys cs' = insert (unat p, len) (fs_blocks A fs cs)" "unat sz \<le> len" "unat p + len < 4294967296"
    "heap_start (h_info sys) = heap_start (h_info (f_sys fs))" "settled_kept A lim fs cs (h_mem sys)"
    "\<forall>q n. settled A lim fs cs q n \<longrightarrow> unat q + n \<le> unat p \<or> unat p + len \<le> unat q"
    "\<forall>b l. (b, l) \<in> fs_blocks A fs cs \<longrightarrow> b + l \<le> unat p \<or> unat p + len \<le> b"
    using fs_malloc_run [OF h sz] by metis
  have o': "fs_objects A (fs\<lparr>f_sys := sys\<rparr>) cs'" by (rule fs_objects_alloc [OF o settled_kept_lodged [OF r(10)]]) (use r(6) in blast)
  have f': "files_at (fs\<lparr>f_sys := sys\<rparr>) F" by (rule files_at_kept [OF f o]) (use settled_kept_lodged [OF r(10)] in simp_all)
  have ok': "fs_ok A V me (N - k) lim (fs\<lparr>f_sys := sys\<rparr>) cs' D L F"
    using r(5) o' f' tree_layout_alloc [OF o settled_kept_lodged [OF r(10)] t] by (simp add: fs_ok_def)
  have fresh: "\<forall>x. in_block (fs_blocks A fs cs) x \<longrightarrow> \<not> (unat p \<le> unat x \<and> unat x < unat p + len)"
    using r(12) unfolding in_block_def by fastforce
  show ?thesis by (rule that [OF r(1-4) ok' r(6-11) fresh])
qed

lemma in_block_new: "heap_allocs A sys cs' = insert (unat p, len) B \<Longrightarrow> 0 < len \<Longrightarrow> in_block (heap_allocs A sys cs') p"
  by (auto simp: in_block_def)

lemma in_block_mono: "in_block B x \<Longrightarrow> B \<subseteq> B' \<Longrightarrow> in_block B' x"
  by (auto simp: in_block_def)

text \<open>Two fresh objects of 12 and 8 bytes, as every node has.\<close>

lemma node_alloc:
  assumes ok: "fs_ok A V me N lim fs cs D L F" and room: "8400 \<le> 4096 * N"
  obtains node sys1 data sys2 cs' k where "fs_malloc A V me 12 fs = Some (Inr (node, fs\<lparr>f_sys := sys1\<rparr>))" "node \<noteq> 0"
    "\<And>g. fs_malloc A V me 8 (fs\<lparr>f_sys := sys1, f_vnodes := g\<rparr>) = Some (Inr (data, fs\<lparr>f_sys := sys2, f_vnodes := g\<rparr>))" "data \<noteq> 0"
    "k \<le> N" "k \<le> 2" "fs_ok A V me (N - k) lim (fs\<lparr>f_sys := sys2\<rparr>) cs' D L F" "fs_blocks A fs cs \<subseteq> heap_allocs A sys2 cs'"
    "heap_start (h_info sys2) = heap_start (h_info (f_sys fs))" "settled_kept A lim fs cs (h_mem sys2)"
    "in_block (heap_allocs A sys2 cs') node" "in_block (heap_allocs A sys2 cs') data"
    "\<not> in_block (fs_blocks A fs cs) node" "\<not> in_block (fs_blocks A fs cs) data"
    "node \<noteq> data" "\<exists>l1 l2. (unat node, l1) \<in> heap_allocs A sys2 cs' \<and> (unat data, l2) \<in> heap_allocs A sys2 cs'"
proof -
  have s12: "(12 :: u32) \<noteq> 0" "unat (12 :: u32) + 64 \<le> 4096 * N" using room by simp_all
  obtain node sys1 cs1 len1 k1 where 1: "fs_malloc A V me 12 fs = Some (Inr (node, fs\<lparr>f_sys := sys1\<rparr>))" "node \<noteq> 0"
    "k1 \<le> N" "4096 * k1 < unat (12 :: u32) + 4160" "fs_ok A V me (N - k1) lim (fs\<lparr>f_sys := sys1\<rparr>) cs1 D L F"
    "heap_allocs A sys1 cs1 = insert (unat node, len1) (fs_blocks A fs cs)" "unat (12 :: u32) \<le> len1"
    "heap_start (h_info sys1) = heap_start (h_info (f_sys fs))" "settled_kept A lim fs cs (h_mem sys1)"
    "\<forall>x. in_block (fs_blocks A fs cs) x \<longrightarrow> \<not> (unat node \<le> unat x \<and> unat x < unat node + len1)"
    by (rule fs_ok_malloc [OF ok s12])
  have k1: "k1 \<le> 1" using 1(4) by simp
  have s8: "(8 :: u32) \<noteq> 0" "unat (8 :: u32) + 64 \<le> 4096 * (N - k1)" using room k1 by simp_all
  obtain data sys2 cs2 len2 k2 where 2: "fs_malloc A V me 8 (fs\<lparr>f_sys := sys1\<rparr>) = Some (Inr (data, fs\<lparr>f_sys := sys1\<rparr>\<lparr>f_sys := sys2\<rparr>))" "data \<noteq> 0"
    "k2 \<le> N - k1" "4096 * k2 < unat (8 :: u32) + 4160" "fs_ok A V me (N - k1 - k2) lim (fs\<lparr>f_sys := sys1\<rparr>\<lparr>f_sys := sys2\<rparr>) cs2 D L F"
    "heap_allocs A sys2 cs2 = insert (unat data, len2) (fs_blocks A (fs\<lparr>f_sys := sys1\<rparr>) cs1)" "unat (8 :: u32) \<le> len2"
    "heap_start (h_info sys2) = heap_start (h_info (f_sys (fs\<lparr>f_sys := sys1\<rparr>)))" "settled_kept A lim (fs\<lparr>f_sys := sys1\<rparr>) cs1 (h_mem sys2)"
    "\<forall>x. in_block (fs_blocks A (fs\<lparr>f_sys := sys1\<rparr>) cs1) x \<longrightarrow> \<not> (unat data \<le> unat x \<and> unat x < unat data + len2)"
    by (rule fs_ok_malloc [OF 1(5) s8])
  have sys: "malloc A V me 8 sys1 = Some (Inr (data, sys2))"
    using 2(1) by (auto simp: fs_malloc_def bindE_eq_Inr_iff dest: arg_cong [where f = f_sys])
  have later: "settled A lim (fs\<lparr>f_sys := sys1\<rparr>) cs1 p n" if "settled A lim fs cs p n" for p n
    by (rule settled_later [OF that]) (use 1(6,8) in auto)
  have kept: "settled_kept A lim fs cs (h_mem sys2)"
    using settled_kept_trans [of A lim fs cs "fs\<lparr>f_sys := sys1\<rparr>" cs1 "h_mem sys2"] 1(9) 2(9) later by simp
  have sub: "fs_blocks A fs cs \<subseteq> heap_allocs A sys2 cs2" using 1(6) 2(6) by auto
  have n1: "in_block (heap_allocs A sys1 cs1) node" by (rule in_block_new [OF 1(6)]) (use 1(7) in simp)
  have n2: "in_block (heap_allocs A sys2 cs2) node" by (rule in_block_mono [OF n1]) (use 2(6) in auto)
  have d2: "in_block (heap_allocs A sys2 cs2) data" by (rule in_block_new [OF 2(6)]) (use 2(7) in simp)
  have fr: "\<not> in_block (fs_blocks A fs cs) node" using 1(7,10) by fastforce
  have "in_block (heap_allocs A sys1 cs1) x" if "in_block (fs_blocks A fs cs) x" for x
    by (rule in_block_mono [OF that]) (use 1(6) in blast)
  then have fr2: "\<not> in_block (fs_blocks A fs cs) data" using 2(7,10) by fastforce
  have "\<not> (unat data \<le> unat node \<and> unat node < unat data + len2)" using 2(10) n1 by simp
  then have ne: "node \<noteq> data" using 2(7) by auto
  have bl: "\<exists>l1 l2. (unat node, l1) \<in> heap_allocs A sys2 cs2 \<and> (unat data, l2) \<in> heap_allocs A sys2 cs2"
    using 1(6) 2(6) by auto
  have "k1 + k2 \<le> N" "k1 + k2 \<le> 2" using 1(3) 2(3,4) k1 by simp_all
  then show ?thesis
    using that [OF 1(1,2), of data sys2 "k1 + k2" cs2] sys 2(2,5,8) 1(8) sub kept n2 d2 fr fr2 ne bl by (simp add: fs_malloc_def)
qed

lemma fs_heap_cong:
  "f_sys fs' = f_sys fs \<Longrightarrow> fs_heap A V me N lim fs' cs = fs_heap A V me N lim fs cs"
  "f_sys fs' = f_sys fs \<Longrightarrow> fs_blocks A fs' cs = fs_blocks A fs cs"
  "f_sys fs' = f_sys fs \<Longrightarrow> fs_mem fs' = fs_mem fs"
  by (simp_all add: fs_heap_def fs_blocks_def fs_mem_def)

lemma entry_at_cong:
  "f_sys fs' = f_sys fs \<Longrightarrow> f_entries fs' = f_entries fs \<Longrightarrow> entry_at fs' = entry_at fs"
  by (intro ext) (simp add: entry_at_def fs_mem_def split: option.split)

lemma tree_dom: "tree_layout fs D L \<Longrightarrow> dom D \<subseteq> dom (f_vnodes fs)"
  unfolding tree_layout_def by blast

lemma files_dom: "files_at fs F \<Longrightarrow> dom F \<subseteq> dom (f_vnodes fs)"
  unfolding files_at_def file_at_def by blast

lemma files_at_more:
  assumes "files_at fs F" "f_sys fs' = f_sys fs"
    "\<And>vp. vp \<in> dom (f_vnodes fs) \<Longrightarrow> f_vnodes fs' vp = f_vnodes fs vp" "\<And>d. d \<in> dom (f_regs fs) \<Longrightarrow> f_regs fs' d = f_regs fs d"
  shows "files_at fs' F"
  unfolding files_at_def
proof
  fix vp assume vp: "vp \<in> dom F"
  let ?bs = "the (F vp)"
  obtain c d where c: "length ?bs < 4294967296" "f_vnodes fs vp = Some \<lparr>v_type = VREG, v_data = d\<rparr>"
      "f_regs fs d = Some \<lparr>reg_size = of_nat (length ?bs), reg_content = c\<rparr>" "bytes_at (fs_mem fs) c (length ?bs) = ?bs"
    using assms(1) vp unfolding files_at_def file_at_def by blast
  have "f_vnodes fs' vp = Some \<lparr>v_type = VREG, v_data = d\<rparr>" "f_regs fs' d = Some \<lparr>reg_size = of_nat (length ?bs), reg_content = c\<rparr>"
    using assms(3) [of vp] assms(4) [of d] c(2,3) by auto
  then show "\<exists>c. file_at fs' vp c ?bs" using c(1,4) unfolding file_at_def fs_heap_cong(3) [OF assms(2)] by blast
qed

lemma fs_ok_new_dir:
  assumes ok: "fs_ok A V me N lim fs cs D L F" and b: "in_block (fs_blocks A fs cs) node" "in_block (fs_blocks A fs cs) data"
    and fresh: "node \<notin> dom (f_vnodes fs)" "data \<notin> dom (f_lists fs)"
  shows "fs_ok A V me N lim (fs\<lparr>f_vnodes := (f_vnodes fs)(node \<mapsto> \<lparr>v_type = VDIR, v_data = data\<rparr>),
      f_lists := (f_lists fs)(data \<mapsto> list_head_init data)\<rparr>) cs (D(node \<mapsto> [])) (L(node := [])) F"
proof -
  let ?fs = "fs\<lparr>f_vnodes := (f_vnodes fs)(node \<mapsto> \<lparr>v_type = VDIR, v_data = data\<rparr>), f_lists := (f_lists fs)(data \<mapsto> list_head_init data)\<rparr>"
  have h: "fs_heap A V me N lim fs cs" and o: "fs_objects A fs cs" and t: "tree_layout fs D L" and f: "files_at fs F"
    using ok by (simp_all add: fs_ok_def)
  note e = fs_heap_cong [of ?fs fs, simplified] entry_at_cong [of ?fs fs, simplified]
  have o': "fs_objects A ?fs cs" using o b unfolding fs_objects_def e by auto
  have f': "files_at ?fs F" by (rule files_at_more [OF f]) (use fresh(1) in auto)
  have nd: "node \<notin> dom D" using tree_dom [OF t] fresh(1) by blast
  have ex: "\<exists>n. f_vnodes fs vp = Some n \<and> v_type n = VDIR \<and> klist (f_lists fs) (v_data n) (L vp) \<and> list_all2 (entry_at fs) (L vp) (the (D vp))"
    if "vp \<in> dom D" for vp using t that unfolding tree_layout_def by blast
  have span: "dir_span ?fs (L(node := [])) vp = (if vp = node then {data} else dir_span fs L vp)" for vp
    by (simp add: dir_span_def)
  have sd: "dir_span fs L vp \<subseteq> dom (f_lists fs)" if "vp \<in> dom D" for vp
    using ex [OF that] klist_dom unfolding dir_span_def by fastforce
  have 1: "\<exists>m. f_vnodes ?fs vp = Some m \<and> v_type m = VDIR \<and> klist (f_lists ?fs) (v_data m) ((L(node := [])) vp)
      \<and> list_all2 (entry_at ?fs) ((L(node := [])) vp) (the ((D(node \<mapsto> [])) vp))" if "vp \<in> dom (D(node \<mapsto> []))" for vp
  proof (cases "vp = node")
    case True
    then show ?thesis by (simp add: klist_init)
  next
    case False
    then have v: "vp \<in> dom D" using that by simp
    obtain m where m: "f_vnodes fs vp = Some m" "v_type m = VDIR" "klist (f_lists fs) (v_data m) (L vp)" "list_all2 (entry_at fs) (L vp) (the (D vp))"
      using ex [OF v] by blast
    have "klist (f_lists ?fs) (v_data m) (L vp)"
    proof (rule klist_same [OF m(3)])
      fix q assume "q \<in> insert (v_data m) (set (L vp))"
      then have "q \<in> dom (f_lists fs)" using klist_dom [OF m(3)] by blast
      then show "f_lists ?fs q = f_lists fs q" using fresh(2) by auto
    qed
    then show ?thesis using m(1,2,4) False by (simp add: e)
  qed
  have 2: "dir_span ?fs (L(node := [])) vp \<inter> dir_span ?fs (L(node := [])) vq = {}"
    if v: "vp \<in> dom (D(node \<mapsto> []))" "vq \<in> dom (D(node \<mapsto> []))" "vp \<noteq> vq" for vp vq
  proof -
    have new: "data \<notin> dir_span fs L x" if "x \<in> dom D" for x using sd [OF that] fresh(2) by blast
    have "dir_span fs L vp \<inter> dir_span fs L vq = {}" if "vp \<in> dom D" "vq \<in> dom D"
      using t that v(3) unfolding tree_layout_def by blast
    then show ?thesis using v new [of vp] new [of vq] by (auto simp: span)
  qed
  have "tree_layout ?fs (D(node \<mapsto> [])) (L(node := []))" using 1 2 unfolding tree_layout_def by blast
  then show ?thesis using h o' f' by (simp add: fs_ok_def e)
qed

lemma create_dir_run:
  assumes ok: "fs_ok A V me N lim fs cs D L F" and room: "8400 \<le> 4096 * N"
  obtains node fs' cs' L' k where "create_dir A V me fs = Some (Inr (node, fs'))" "node \<noteq> 0" "k \<le> N" "k \<le> 2"
    "fs_ok A V me (N - k) lim fs' cs' (D(node \<mapsto> [])) L' F" "node \<notin> dom D" "node \<notin> dom F"
    "settled_kept A lim fs cs (fs_mem fs')" "fs_blocks A fs cs \<subseteq> fs_blocks A fs' cs'"
    "heap_start (h_info (f_sys fs')) = heap_start (h_info (f_sys fs))" "f_vfs fs' = f_vfs fs" "f_roots fs' = f_roots fs"
proof -
  have o: "fs_objects A fs cs" and t: "tree_layout fs D L" and f: "files_at fs F" using ok by (simp_all add: fs_ok_def)
  obtain node sys1 data sys2 cs' k where r: "fs_malloc A V me 12 fs = Some (Inr (node, fs\<lparr>f_sys := sys1\<rparr>))" "node \<noteq> 0"
    "\<And>g. fs_malloc A V me 8 (fs\<lparr>f_sys := sys1, f_vnodes := g\<rparr>) = Some (Inr (data, fs\<lparr>f_sys := sys2, f_vnodes := g\<rparr>))" "data \<noteq> 0"
    "k \<le> N" "k \<le> 2" "fs_ok A V me (N - k) lim (fs\<lparr>f_sys := sys2\<rparr>) cs' D L F" "fs_blocks A fs cs \<subseteq> heap_allocs A sys2 cs'"
    "heap_start (h_info sys2) = heap_start (h_info (f_sys fs))" "settled_kept A lim fs cs (h_mem sys2)"
    "in_block (heap_allocs A sys2 cs') node" "in_block (heap_allocs A sys2 cs') data"
    "\<not> in_block (fs_blocks A fs cs) node" "\<not> in_block (fs_blocks A fs cs) data"
    using node_alloc [OF ok room] by metis
  have fresh: "node \<notin> dom (f_vnodes fs)" "data \<notin> dom (f_lists fs)"
    using o r(13,14) unfolding fs_objects_def by blast+
  let ?fs2 = "fs\<lparr>f_sys := sys2\<rparr>"
  let ?fs' = "?fs2\<lparr>f_vnodes := (f_vnodes ?fs2)(node \<mapsto> \<lparr>v_type = VDIR, v_data = data\<rparr>), f_lists := (f_lists ?fs2)(data \<mapsto> list_head_init data)\<rparr>"
  have ok': "fs_ok A V me (N - k) lim ?fs' cs' (D(node \<mapsto> [])) (L(node := [])) F"
    by (rule fs_ok_new_dir [OF r(7)]) (use r(11,12) fresh in simp_all)
  have "create_dir A V me fs = Some (Inr (node, ?fs'))"
    using r(1-4) by (simp add: create_dir_def bindO_def Let_def modify_at_def)
  moreover have "node \<notin> dom D" "node \<notin> dom F" using tree_dom [OF t] files_dom [OF f] fresh(1) by blast+
  ultimately show ?thesis
    using that [OF _ r(2,5,6) ok'] r(8-10) by (simp add: fs_blocks_def fs_mem_def)
qed

section \<open>Files\<close>

definition octal_value :: "u8 list \<Rightarrow> u32" where
  "octal_value ds = foldl (\<lambda>res c. res * 8 + scast c - of_char CHR ''0'') 0 ds"

lemma read_octal_str: "str_at m field ds \<Longrightarrow> read_octal m field = Some (octal_value ds)"
proof -
  have "read_octal_loop m field i res = Some (foldl (\<lambda>res c. res * 8 + scast c - of_char CHR ''0'') res ds)"
    if "str_at m (field + i) ds" for i res
    using that
  proof (induction ds arbitrary: i res)
    case Nil
    then show ?case by (subst read_octal_loop.simps) simp
  next
    case (Cons c ds)
    then have "m (field + i) = c" "c \<noteq> 0" "str_at m (field + (i + 1)) ds" by (simp_all add: add.assoc)
    then show ?case using Cons.IH by (subst read_octal_loop.simps) simp
  qed
  from this [of 0 0] show "str_at m field ds \<Longrightarrow> read_octal m field = Some (octal_value ds)"
    by (simp add: read_octal_def octal_value_def)
qed

lemma fs_malloc_sys: "fs_malloc A V me sz fs = Some (Inr (p, fs\<lparr>f_sys := sys\<rparr>)) \<longleftrightarrow> malloc A V me sz (f_sys fs) = Some (Inr (p, sys))"
  by (auto simp: fs_malloc_def bindE_eq_Inr_iff dest: arg_cong [where f = f_sys])

text \<open>Copying the contents of a file into its block.\<close>

lemma fs_memcpy_run:
  assumes h: "fs_heap A V me N lim fs cs" and fresh: "\<forall>p n. settled A lim fs0 cs0 p n \<longrightarrow> unat p + n \<le> unat c \<or> unat c + len \<le> unat p"
    and new: "(unat c, len) \<in> fs_blocks A fs cs" "n \<le> len" "unat c + len < 4294967296" "0 < n"
    and src: "settled A lim fs0 cs0 src n" "bytes_at (fs_mem fs) src n = bs"
  defines "m \<equiv> snd (memcpy (fs_mem fs) c src (of_nat n))"
  shows "bytes_at m c n = bs" and "fst (memcpy (fs_mem fs) c src (of_nat n)) = c"
    and "\<And>p k i. settled A lim fs0 cs0 p k \<Longrightarrow> i < k \<Longrightarrow> m (p + of_nat i) = fs_mem fs (p + of_nat i)"
    and "fs_heap A V me N lim (set_fs_mem m fs) cs"
proof -
  have apart: "unat src + n \<le> unat c \<or> unat c + len \<le> unat src" using fresh src(1) by blast
  have sb: "unat src + n \<le> 4294967296" using src(1) by (simp add: settled_def)
  have n32: "n < 4294967296" using new(2,3) by linarith
  have "(of_nat n :: u32) \<le> c - src"
    by (rule distance_apart [OF _ sb new(4) n32]) (use apart new(2) in linarith)
  then have m: "memcpy (fs_mem fs) c src (of_nat n) = (c, \<lambda>a. if in_range c (of_nat n) a then fs_mem fs (src + (a - c)) else fs_mem fs a)"
    by (intro memcpy_eq) simp
  show "fst (memcpy (fs_mem fs) c src (of_nat n)) = c" by (simp add: m)
  have cn: "unat c + n < 4294967296" using new(2,3) by linarith
  have out: "m a = fs_mem fs a" if "\<not> (unat c \<le> unat a \<and> unat a < unat c + len)" for a
  proof -
    have "\<not> in_range c (of_nat n) a" unfolding in_range_span [OF cn] using that new(2) by linarith
    then show ?thesis by (simp add: m_def m)
  qed
  show "m (p + of_nat i) = fs_mem fs (p + of_nat i)" if s: "settled A lim fs0 cs0 p k" and i: "i < k" for p k i
  proof (rule out)
    have "unat (p + of_nat i) = unat p + i" using s i by (intro unat_add_of_nat) (simp add: settled_def)
    then show "\<not> (unat c \<le> unat (p + of_nat i) \<and> unat (p + of_nat i) < unat c + len)" using fresh s i by fastforce
  qed
  show "bytes_at m c n = bs"
  proof -
    have "m (c + of_nat i) = fs_mem fs (src + of_nat i)" if "i < n" for i
    proof -
      have "unat (of_nat i :: u32) = i" using that n32 by (intro unat_of_nat_small) simp
      moreover have "unat (of_nat n :: u32) = n" using n32 by (intro unat_of_nat_small) simp
      ultimately have "in_range c (of_nat n) (c + of_nat i)" using that by (simp add: in_range_def word_less_nat_alt)
      then show ?thesis by (simp add: m_def m)
    qed
    then have "bytes_at m c n = bytes_at (fs_mem fs) src n" by (intro bytes_at_cong)
    then show ?thesis using src(2) by simp
  qed
  show "fs_heap A V me N lim (set_fs_mem m fs) cs" by (rule fs_block_write [OF h new(1,3) out])
qed

lemma settled_offset:
  assumes "settled A lim fs cs p (n + k)" "0 < k"
  shows "settled A lim fs cs (p + of_nat n) k"
proof -
  have "unat (p + of_nat n) = unat p + n" using assms by (intro unat_add_of_nat) (simp add: settled_def)
  then show ?thesis using assms(1) by (fastforce simp: settled_def)
qed

lemma fs_ok_new_file:
  assumes ok: "fs_ok A V me N lim fs cs D L F" and b: "in_block (fs_blocks A fs cs) node" "in_block (fs_blocks A fs cs) data"
    and fresh: "node \<notin> dom (f_vnodes fs)" "data \<notin> dom (f_regs fs)"
    and c: "lodged (fs_blocks A fs cs) c (length bs)" "length bs < 4294967296" "bytes_at (fs_mem fs) c (length bs) = bs"
  shows "fs_ok A V me N lim (fs\<lparr>f_vnodes := (f_vnodes fs)(node \<mapsto> \<lparr>v_type = VREG, v_data = data\<rparr>),
      f_regs := (f_regs fs)(data \<mapsto> \<lparr>reg_size = of_nat (length bs), reg_content = c\<rparr>)\<rparr>) cs D L (F(node \<mapsto> bs))"
proof -
  let ?fs = "fs\<lparr>f_vnodes := (f_vnodes fs)(node \<mapsto> \<lparr>v_type = VREG, v_data = data\<rparr>),
    f_regs := (f_regs fs)(data \<mapsto> \<lparr>reg_size = of_nat (length bs), reg_content = c\<rparr>)\<rparr>"
  have h: "fs_heap A V me N lim fs cs" and o: "fs_objects A fs cs" and t: "tree_layout fs D L" and f: "files_at fs F"
    using ok by (simp_all add: fs_ok_def)
  note e = fs_heap_cong [of ?fs fs, simplified] entry_at_cong [of ?fs fs, simplified]
  have ul: "unat (of_nat (length bs) :: u32) = length bs" using c(2) by (intro unat_of_nat_small) simp
  have "f_regs fs data = None" using fresh(2) by blast
  then have "ran (f_regs ?fs) = insert \<lparr>reg_size = of_nat (length bs), reg_content = c\<rparr> (ran (f_regs fs))" by simp
  then have o': "fs_objects A ?fs cs" using o b c(1) ul unfolding fs_objects_def e by auto
  have f': "files_at ?fs F" by (rule files_at_more [OF f]) (use fresh in auto)
  have "file_at ?fs node c bs" using c(2,3) by (simp add: file_at_def e)
  then have f': "files_at ?fs (F(node \<mapsto> bs))" using f' unfolding files_at_def by auto
  have nd: "node \<notin> dom D" using tree_dom [OF t] fresh(1) by blast
  have vn: "f_vnodes ?fs vp = f_vnodes fs vp" if "vp \<in> dom D" for vp using nd that by auto
  have "dir_span ?fs L vp = dir_span fs L vp" if "vp \<in> dom D" for vp using vn [OF that] by (simp add: dir_span_def)
  then have "tree_layout ?fs D L" using t vn unfolding tree_layout_def by (simp add: e)
  then show ?thesis using h o' f' by (simp add: fs_ok_def e)
qed

lemma fs_ok_mem:
  assumes ok: "fs_ok A V me N lim fs cs D L F" and h: "fs_heap A V me N lim (set_fs_mem m fs) cs" and k: "lodged_kept A fs cs m"
  shows "fs_ok A V me N lim (set_fs_mem m fs) cs D L F"
proof -
  have o: "fs_objects A fs cs" and t: "tree_layout fs D L" and f: "files_at fs F" using ok by (simp_all add: fs_ok_def)
  let ?sys = "(f_sys fs)\<lparr>h_mem := m\<rparr>"
  have s: "set_fs_mem m fs = fs\<lparr>f_sys := ?sys\<rparr>" by (simp add: set_fs_mem_def)
  have k': "lodged_kept A fs cs (h_mem ?sys)" using k by simp
  have "fs_objects A (fs\<lparr>f_sys := ?sys\<rparr>) cs" by (rule fs_objects_alloc [OF o k']) (simp add: fs_blocks_def)
  moreover have "tree_layout (fs\<lparr>f_sys := ?sys\<rparr>) D L" by (rule tree_layout_alloc [OF o k' t])
  moreover have "files_at (fs\<lparr>f_sys := ?sys\<rparr>) F" by (rule files_at_kept [OF f o]) (use k in simp_all)
  ultimately show ?thesis using h unfolding fs_ok_def s by blast
qed

text \<open>The header in place, its field of the size is not changed by the allocations.\<close>

lemma size_kept:
  assumes hd: "settled A lim fs cs header 512" and ds: "str_at (fs_mem fs) (header + header_size) ds" "length ds < 388"
    and k: "settled_kept A lim fs cs m"
  shows "read_octal m (header + header_size) = Some (octal_value ds)"
proof -
  have "m (header + header_size + of_nat i) = fs_mem fs (header + header_size + of_nat i)" if "i \<le> length ds" for i
  proof -
    have e: "header + header_size + of_nat i = header + of_nat (124 + i)" by (simp add: header_size_def add.assoc)
    have "124 + i < 512" using that ds(2) by simp
    then show ?thesis using k hd unfolding settled_kept_def e by blast
  qed
  then have "str_at m (header + header_size) ds"
    using str_at_copy [of ds m "header + header_size" "fs_mem fs" "header + header_size"] ds(1) by blast
  then show ?thesis by (rule read_octal_str)
qed

text \<open>The node, its data and the contents, allocated one after the other; the contents are copied.\<close>

lemma create_file_run:
  assumes ok: "fs_ok A V me N lim fs cs D L F" and room: "length bs + 8400 \<le> 4096 * N" and bs: "bs \<noteq> []"
    and hd: "settled A lim fs cs header (512 + length bs)" "bytes_at (fs_mem fs) (header + 512) (length bs) = bs"
    and ds: "str_at (fs_mem fs) (header + header_size) ds" "length ds < 388" "octal_value ds = of_nat (length bs)"
  obtains node fs' cs' k where "create_file A V me header fs = Some (Inr (node, fs'))" "node \<noteq> 0" "k \<le> N" "4096 * k < length bs + 12400"
    "fs_ok A V me (N - k) lim fs' cs' D L (F(node \<mapsto> bs))" "node \<notin> dom D" "node \<notin> dom F"
    "settled_kept A lim fs cs (fs_mem fs')" "fs_blocks A fs cs \<subseteq> fs_blocks A fs' cs'"
    "heap_start (h_info (f_sys fs')) = heap_start (h_info (f_sys fs))" "f_vfs fs' = f_vfs fs" "f_roots fs' = f_roots fs"
proof -
  have o: "fs_objects A fs cs" and t: "tree_layout fs D L" and f: "files_at fs F" using ok by (simp_all add: fs_ok_def)
  have room2: "8400 \<le> 4096 * N" using room by simp
  obtain node sys1 data sys2 cs2 k where r: "fs_malloc A V me 12 fs = Some (Inr (node, fs\<lparr>f_sys := sys1\<rparr>))" "node \<noteq> 0"
    "\<And>g. fs_malloc A V me 8 (fs\<lparr>f_sys := sys1, f_vnodes := g\<rparr>) = Some (Inr (data, fs\<lparr>f_sys := sys2, f_vnodes := g\<rparr>))" "data \<noteq> 0"
    "k \<le> N" "k \<le> 2" "fs_ok A V me (N - k) lim (fs\<lparr>f_sys := sys2\<rparr>) cs2 D L F" "fs_blocks A fs cs \<subseteq> heap_allocs A sys2 cs2"
    "heap_start (h_info sys2) = heap_start (h_info (f_sys fs))" "settled_kept A lim fs cs (h_mem sys2)"
    "in_block (heap_allocs A sys2 cs2) node" "in_block (heap_allocs A sys2 cs2) data"
    "\<not> in_block (fs_blocks A fs cs) node" "\<not> in_block (fs_blocks A fs cs) data"
    using node_alloc [OF ok room2] by metis
  let ?n = "length bs" and ?fs2 = "fs\<lparr>f_sys := sys2\<rparr>"
  have "lim < 4294967296" using heap.room_bound [of V me "f_sys fs" N] ok by (simp add: fs_ok_def fs_heap_def)
  then have n32: "?n < 4294967296" using ok room by (simp add: fs_ok_def fs_heap_def)
  have un: "unat (of_nat ?n :: u32) = ?n" using n32 by (intro unat_of_nat_small) simp
  have sz: "(of_nat ?n :: u32) \<noteq> 0" using un bs by (metis length_0_conv unat_0)
  have rm: "unat (of_nat ?n :: u32) + 64 \<le> 4096 * (N - k)" unfolding un using room r(6) by (simp add: diff_mult_distrib2)
  have later: "settled A lim ?fs2 cs2 p n" if "settled A lim fs cs p n" for p n
    by (rule settled_later [OF that]) (use r(8,9) in auto)
  have size: "read_octal (h_mem sys2) (header + header_size) = Some (of_nat ?n)"
    using size_kept [OF settled_mono [OF hd(1)] ds(1,2) r(10)] ds(3) by simp
  obtain c sys3 cs3 len k3 where 3: "fs_malloc A V me (of_nat ?n) ?fs2 = Some (Inr (c, ?fs2\<lparr>f_sys := sys3\<rparr>))" "c \<noteq> 0"
    "k3 \<le> N - k" "4096 * k3 < unat (of_nat ?n :: u32) + 4160" "fs_ok A V me (N - k - k3) lim (?fs2\<lparr>f_sys := sys3\<rparr>) cs3 D L F"
    "heap_allocs A sys3 cs3 = insert (unat c, len) (fs_blocks A ?fs2 cs2)" "unat (of_nat ?n :: u32) \<le> len" "unat c + len < 4294967296"
    "heap_start (h_info sys3) = heap_start (h_info (f_sys ?fs2))" "settled_kept A lim ?fs2 cs2 (h_mem sys3)"
    "\<forall>q n. settled A lim ?fs2 cs2 q n \<longrightarrow> unat q + n \<le> unat c \<or> unat c + len \<le> unat q"
    by (rule fs_ok_malloc [OF r(7) sz rm])
  let ?fs3 = "fs\<lparr>f_sys := sys3\<rparr>"
  have ok3: "fs_ok A V me (N - k - k3) lim ?fs3 cs3 D L F" using 3(5) by simp
  have kept3: "settled_kept A lim fs cs (h_mem sys3)"
    using settled_kept_trans [of A lim fs cs ?fs2 cs2 "h_mem sys3"] r(10) 3(10) later by simp
  have src: "settled A lim fs cs (header + 512) ?n"
    using settled_offset [of A lim fs cs header 512 ?n] hd(1) bs by simp
  have src3: "bytes_at (fs_mem ?fs3) (header + 512) ?n = bs"
  proof -
    have "bytes_at (h_mem sys3) (header + 512) ?n = bytes_at (fs_mem fs) (header + 512) ?n"
      using kept3 src unfolding settled_kept_def by (intro bytes_at_cong) blast
    then show ?thesis using hd(2) by simp
  qed
  define m where "m = snd (memcpy (fs_mem ?fs3) c (header + 512) (of_nat ?n))"
  have h3: "fs_heap A V me (N - k - k3) lim ?fs3 cs3" using ok3 by (simp add: fs_ok_def)
  have new: "(unat c, len) \<in> fs_blocks A ?fs3 cs3" "?n \<le> len" "0 < ?n" using 3(6,7) un bs by auto
  note cp = fs_memcpy_run [OF h3 3(11) new(1,2) 3(8) new(3) later [OF src] src3, folded m_def]
  have kept2: "settled_kept A lim ?fs2 cs2 m"
    using cp(3) 3(10) unfolding settled_kept_def by simp
  have kept: "settled_kept A lim fs cs m"
    using settled_kept_trans [of A lim fs cs ?fs2 cs2 m] r(10) kept2 later by simp
  let ?fs4 = "fs\<lparr>f_sys := sys3\<lparr>h_mem := m\<rparr>\<rparr>"
  have s4: "set_fs_mem m ?fs3 = ?fs4" by (simp add: set_fs_mem_def)
  have of2: "fs_objects A ?fs2 cs2" "tree_layout ?fs2 D L" "files_at ?fs2 F" using r(7) unfolding fs_ok_def by blast+
  have km: "lodged_kept A ?fs2 cs2 (h_mem (sys3\<lparr>h_mem := m\<rparr>))" using settled_kept_lodged [OF kept2] by simp
  have o4: "fs_objects A (?fs2\<lparr>f_sys := sys3\<lparr>h_mem := m\<rparr>\<rparr>) cs3"
    by (rule fs_objects_alloc [OF of2(1) km]) (use 3(6) in auto)
  have t4: "tree_layout (?fs2\<lparr>f_sys := sys3\<lparr>h_mem := m\<rparr>\<rparr>) D L" by (rule tree_layout_alloc [OF of2(1) km of2(2)])
  have f4: "files_at (?fs2\<lparr>f_sys := sys3\<lparr>h_mem := m\<rparr>\<rparr>) F" by (rule files_at_kept [OF of2(3,1)]) (use settled_kept_lodged [OF kept2] in simp_all)
  have ok4: "fs_ok A V me (N - k - k3) lim ?fs4 cs3 D L F"
    using cp(4) o4 t4 f4 unfolding s4 by (simp add: fs_ok_def)
  have fresh: "node \<notin> dom (f_vnodes ?fs4)" "data \<notin> dom (f_regs ?fs4)"
    using o r(13,14) unfolding fs_objects_def by auto
  have blk: "in_block (fs_blocks A ?fs4 cs3) node" "in_block (fs_blocks A ?fs4 cs3) data"
    using in_block_mono [OF r(11)] in_block_mono [OF r(12)] 3(6) by auto
  have lc: "lodged (fs_blocks A ?fs4 cs3) c ?n" using 3(6,8) new(2) by (auto simp: lodged_def intro!: bexI [of _ "(unat c, len)"])
  have con: "bytes_at (fs_mem ?fs4) c ?n = bs" using cp(1) by simp
  let ?fs' = "?fs4\<lparr>f_vnodes := (f_vnodes ?fs4)(node \<mapsto> \<lparr>v_type = VREG, v_data = data\<rparr>),
    f_regs := (f_regs ?fs4)(data \<mapsto> \<lparr>reg_size = of_nat ?n, reg_content = c\<rparr>)\<rparr>"
  have ok': "fs_ok A V me (N - (k + k3)) lim ?fs' cs3 D L (F(node \<mapsto> bs))"
    using fs_ok_new_file [OF ok4 blk fresh lc n32 con] by simp
  have m3: "malloc A V me (of_nat ?n) sys2 = Some (Inr (c, sys3))" using 3(1) unfolding fs_malloc_sys by simp
  have "create_file A V me header fs = Some (Inr (node, ?fs'))"
  proof -
    have mc: "memcpy (h_mem sys3) c (header + 512) (of_nat ?n) = (c, m)" using cp(2) m_def by (simp add: prod_eq_iff)
    have m3': "fs_malloc A V me (of_nat ?n) (fs\<lparr>f_sys := sys2, f_vnodes := g, f_regs := h\<rparr>)
        = Some (Inr (c, fs\<lparr>f_sys := sys3, f_vnodes := g, f_regs := h\<rparr>))" for g h
      using m3 by (simp add: fs_malloc_def)
    show ?thesis
      using r(1-4) m3' 3(2) size mc by (simp add: create_file_def bindO_def Let_def modify_at_def set_fs_mem_def fs_mem_def)
  qed
  moreover have "k + k3 \<le> N" "4096 * (k + k3) < ?n + 12400" using 3(3,4) r(5,6) un by simp_all
  moreover have "node \<notin> dom D" "node \<notin> dom F" using tree_dom [OF t] files_dom [OF f] fresh(1) by auto
  moreover have "fs_blocks A fs cs \<subseteq> fs_blocks A ?fs' cs3" using r(8) 3(6) by (auto simp: fs_blocks_def)
  ultimately show ?thesis
    using that [OF _ r(2) _ _ ok'] kept r(9) 3(9) by (simp add: fs_mem_def)
qed

section \<open>Empty files\<close>

lemma free_any:
  assumes ok: "heap_ok A sys cs" "heap_semaphore (h_info sys) = 0" and a: "(a, n) \<in> heap_allocs A sys cs"
  obtains sys' cs' where "free A me (of_nat a) sys = Inr sys'" "heap_ok A sys' cs'"
    "heap_allocs A sys' cs' = heap_allocs A sys cs - {(a, n)}" "heap_semaphore (h_info sys') = 0"
proof -
  let ?hs = "unat (heap_start (h_info sys))"
  have K: "8 \<le> msize A" using ok(1) marker_sizes(3) [of A] by (auto simp: heap_ok_def)
  obtain pre post where p: "cs = pre @ (n, False) # post" "a = ?hs + span A pre + msize A"
    using a unfolding heap_allocs_def by (rule allocs_split)
  obtain sys' where r: "free A me (of_nat a) sys = Inr sys'" "heap_ok A sys' (release (msize A) pre n post)"
    "heap_allocs A sys' (release (msize A) pre n post) = heap_allocs A sys (pre @ (n, True) # post)" "h_info sys' = h_info sys"
    using free_run [OF ok(1) [unfolded p(1)] ok(2), of me, folded p(2)] by metis
  have "heap_allocs A sys (pre @ (n, True) # post) = heap_allocs A sys cs - {(a, n)}"
    unfolding heap_allocs_def p by (rule allocs_one_freed [OF K])
  then show ?thesis using that [OF r(1,2)] r(3,4) ok(2) by simp
qed

lemma create_file_empty_run:
  assumes ok: "fs_ok A V me N lim fs cs D L F" and room: "8400 \<le> 4096 * N" and hd: "settled A lim fs cs header 512"
    and ds: "str_at (fs_mem fs) (header + header_size) ds" "length ds < 388" "octal_value ds = 0"
  shows "\<exists>fs'. create_file A V me header fs = Some (Inr (0, fs'))"
proof -
  obtain node sys1 data sys2 cs2 k where r: "fs_malloc A V me 12 fs = Some (Inr (node, fs\<lparr>f_sys := sys1\<rparr>))" "node \<noteq> 0"
    "\<And>g. fs_malloc A V me 8 (fs\<lparr>f_sys := sys1, f_vnodes := g\<rparr>) = Some (Inr (data, fs\<lparr>f_sys := sys2, f_vnodes := g\<rparr>))" "data \<noteq> 0"
    "fs_ok A V me (N - k) lim (fs\<lparr>f_sys := sys2\<rparr>) cs2 D L F" "settled_kept A lim fs cs (h_mem sys2)"
    "node \<noteq> data" "\<exists>l1 l2. (unat node, l1) \<in> heap_allocs A sys2 cs2 \<and> (unat data, l2) \<in> heap_allocs A sys2 cs2"
    using node_alloc [OF ok room] by metis
  obtain l1 l2 where l: "(unat node, l1) \<in> heap_allocs A sys2 cs2" "(unat data, l2) \<in> heap_allocs A sys2 cs2" using r(8) by blast
  have h: "heap_ok A sys2 cs2" "heap_semaphore (h_info sys2) = 0" using r(5) by (simp_all add: fs_ok_def fs_heap_def)
  obtain sys3 cs3 where 3: "free A me (of_nat (unat data)) sys2 = Inr sys3" "heap_ok A sys3 cs3"
    "heap_allocs A sys3 cs3 = heap_allocs A sys2 cs2 - {(unat data, l2)}" "heap_semaphore (h_info sys3) = 0"
    by (rule free_any [OF h l(2)])
  have n3: "(unat node, l1) \<in> heap_allocs A sys3 cs3" using l(1) r(7) unfolding 3(3) by (simp add: word_eq_unat_iff)
  obtain sys4 where 4: "free A me (of_nat (unat node)) sys3 = Inr sys4" by (rule free_any [OF 3(2,4) n3])
  have size: "read_octal (h_mem sys2) (header + header_size) = Some 0"
    using size_kept [OF hd ds(1,2) r(6)] ds(3) by simp
  have m0: "fs_malloc A V me 0 x = Some (Inr (0, x))" for x by (simp add: fs_malloc_def malloc_def)
  show ?thesis
    using r(1-4) 3(1) 4 size m0 by (simp add: create_file_def bindO_def Let_def modify_at_def fs_mem_def fs_free_def)
qed

end
