(* ===== verification/Kernel.thy ===== *)
theory Kernel
  imports FileSpec Printf
begin

text \<open>
  The banner that \<open>kernel/src/all/kernel/kernel.c\<close> shows at start-up, read from \<open>/etc/banner.conf\<close> into an
  array of 77 characters, and \<open>kernel_panic\<close> of \<open>panic.c\<close>.
\<close>

section \<open>The banner\<close>

text \<open>
  \<open>message\<close>, \<open>stars\<close> and \<open>out\<close> are the addresses of the local arrays and of the character in \<open>fgetc\<close>. The
  characters read so far are at \<open>message\<close>, and their number is \<open>i\<close>.
\<close>

function banner_loop :: "u32 \<Rightarrow> u32 \<Rightarrow> u32 \<Rightarrow> nat \<Rightarrow> vfs_state \<Rightarrow> (nat \<times> vfs_state) result" where
  "banner_loop out fp message i st =
     (case fgetc out fp st of
        Inl e \<Rightarrow> Inl e
      | Inr (c, st) \<Rightarrow>
          if c \<noteq> EOF \<and> i < 77
          then banner_loop out fp message (i + 1) (set_v_mem ((v_mem st)(message + of_nat i := word_of_int c)) st)
          else Inr (i, st))"
  by pat_completeness auto
termination
  by (relation "measure (\<lambda>(out, fp, message, i, st). 77 - i)") auto

declare banner_loop.simps [simp del]

definition read_banner :: "u32 \<Rightarrow> u32 \<Rightarrow> u32 \<Rightarrow> vfs_state \<Rightarrow> (nat \<times> vfs_state) result" where
  "read_banner out fp message st =
     bindE (banner_loop out fp message 0 st) (\<lambda>(i, st).
     if i \<ge> 77 then Inl (BadAccess (message + of_nat i))
     else Inr (i, set_v_mem ((v_mem st)(message + of_nat i := 0)) st))"

definition print_banner ::
    "u32 \<Rightarrow> u32 \<Rightarrow> u32 \<Rightarrow> u32 \<Rightarrow> u32 \<Rightarrow> u32 \<Rightarrow> u32 \<Rightarrow> u32 \<Rightarrow> u32 \<Rightarrow> u32 \<Rightarrow> tty \<Rightarrow> vfs_state \<Rightarrow> (tty \<times> vfs_state) result option" where
  "print_banner A V me esp0 slash path out message stars format t st =
     bindO (fopen A V me esp0 slash path st) (\<lambda>(fp, st).
     if fp = 0 then Some (Inl (Panic ''Failed to open banner.conf''))
     else
       bindO (Some (read_banner out fp message st)) (\<lambda>(i, st).
       bindO (Some (ferror fp st)) (\<lambda>error.
       if error \<noteq> 0 then Some (Inl (Panic ''Failed to read banner.conf''))
       else
         bindO (fclose A me esp0 fp st) (\<lambda>(_, st).
         let (_, m) = memset (v_mem st) stars (of_char CHR ''*'') (of_nat (i + 4));
             m = m(stars + of_nat (i + 4) := 0)
         in bindO (printf format [stars, message, stars] (t\<lparr>tty_mem := m\<rparr>)) (\<lambda>(_, t).
            Some (Inr (t, set_v_mem (tty_mem t) st)))))))"

text \<open>What \<open>kernel_panic\<close> writes; then it halts.\<close>

definition kernel_panic :: "u32 \<Rightarrow> u32 \<Rightarrow> u32 \<Rightarrow> u32 \<Rightarrow> tty \<Rightarrow> (int \<times> tty) result option" where
  "kernel_panic format file line msg t = printf format [msg, file, line] t"

section \<open>Reading the banner\<close>

lemma set_v_mem_moved: "set_v_mem m' (moved st h fh m) = moved st h fh m'"
  by (simp add: moved_def set_v_mem_def set_fs_mem_def)

lemma bytes_at_Suc: "bytes_at m p (Suc n) = bytes_at m p n @ [m (p + of_nat n)]"
  by (simp add: bytes_at_def)

lemma banner_loop_run:
  assumes "v_handles st h = Some fh" "file_at (v_fs st) (h_node fh) c bs" "unat (h_pos fh) = i" "i \<le> min 77 (length bs)"
    and "buffer_ok c bs out 1" "buffer_ok c bs message 77" "\<not> in_range message 77 out"
    and "bytes_at (v_mem st) message i = take i bs"
  shows "\<exists>st' fh'. banner_loop out h message i st = Inr (min 77 (length bs), st')
    \<and> bytes_at (v_mem st') message (min 77 (length bs)) = take 77 bs
    \<and> file_at (v_fs st') (h_node fh) c bs \<and> v_handles st' h = Some fh' \<and> h_error fh' = h_error fh"
  using assms
proof (induction "77 - i" arbitrary: i st fh)
  case 0
  then have i: "i = 77" by simp
  obtain m f where r: "fgetc out h st = Inr (if i < length bs then uint (bs ! i) else EOF, moved st h f m)"
    "file_at (v_fs (moved st h f m)) (h_node fh) c bs" "h_error f = h_error fh" "\<forall>a. a \<noteq> out \<longrightarrow> m a = v_mem st a"
    using fgetc_run [OF "0.prems"(1,2) _ "0.prems"(5)] "0.prems"(3,4) by fastforce
  have "bytes_at m message 77 = bytes_at (v_mem st) message 77"
  proof (rule bytes_at_cong)
    fix k :: nat assume "k < 77"
    then have "in_range message 77 (message + of_nat k)" by (simp add: in_range_def word_less_nat_alt unat_of_nat_small)
    then show "m (message + of_nat k) = v_mem st (message + of_nat k)" using r(4) "0.prems"(7) by metis
  qed
  then show ?case
    using r(1-3) "0.prems"(4,8) unfolding i by (subst banner_loop.simps) simp
next
  case (Suc x)
  note p = Suc.prems
  have i: "i < 77" using Suc.hyps(2) by simp
  obtain m f where r: "fgetc out h st = Inr (if i < length bs then uint (bs ! i) else EOF, moved st h f m)"
    "file_at (v_fs (moved st h f m)) (h_node fh) c bs" "h_error f = h_error fh" "\<forall>a. a \<noteq> out \<longrightarrow> m a = v_mem st a"
    "h_node f = h_node fh" "unat (h_pos f) = min (length bs) (i + 1)"
    using fgetc_run [OF p(1,2) _ p(5)] p(3,4) by fastforce
  have inr: "in_range message 77 (message + of_nat k)" if "k < 77" for k :: nat
    using that by (simp add: in_range_def word_less_nat_alt unat_of_nat_small)
  have same: "bytes_at m message i = take i bs"
  proof -
    have "bytes_at m message i = bytes_at (v_mem st) message i"
    proof (rule bytes_at_cong)
      fix k assume "k < i"
      then show "m (message + of_nat k) = v_mem st (message + of_nat k)" using r(4) inr [of k] i p(7) by (metis less_trans)
    qed
    then show ?thesis using p(8) by simp
  qed
  show ?case
  proof (cases "i < length bs")
    case False
    then have "i = length bs" using p(4) by simp
    then show ?thesis
      using r same i by (subst banner_loop.simps) (auto simp: min_def)
  next
    case True
    let ?m = "m(message + of_nat i := bs ! i)"
    let ?st = "moved st h f ?m"
    have eof: "uint (bs ! i) \<noteq> EOF" using uint_ge_0 [of "bs ! i"] unfolding EOF_def by linarith
    have unfold: "banner_loop out h message i st = banner_loop out h message (Suc i) ?st"
      using r(1) True i eof by (subst banner_loop.simps) (simp add: set_v_mem_moved)
    have f1: "file_at (v_fs ?st) (h_node f) c bs"
    proof -
      have "?m (c + of_nat k) = m (c + of_nat k)" if "k < length bs" for k
        using p(6) that inr [OF i] unfolding buffer_ok_def by auto
      then have "file_at (v_fs (moved (moved st h f m) h f ?m)) (h_node fh) c bs"
        by (intro file_at_moved [OF r(2)]) simp
      then show ?thesis using r(5) by simp
    qed
    have b1: "bytes_at (v_mem ?st) message (Suc i) = take (Suc i) bs"
    proof -
      have "?m (message + of_nat k) = m (message + of_nat k)" if "k < i" for k
        using of_nat_u32_inj [of k i] that i by simp
      then have "bytes_at ?m message i = take i bs" using same bytes_at_cong [of i ?m message m message] by simp
      then show ?thesis using True by (simp add: bytes_at_Suc take_Suc_conv_app_nth)
    qed
    have "x = 77 - Suc i" using Suc.hyps(2) by simp
    from Suc.hyps(1) [OF this _ f1 _ _ p(5-7) b1] show ?thesis
      using True i r(3,5,6) unfolding unfold by auto
  qed
qed

section \<open>Properties\<close>

text \<open>
  C38. The banner is read correctly when its file has fewer than 77 characters: the array holds
  exactly the contents of the file and a terminator. A file of 77 characters or more makes the
  terminator go one past the end of the array, since the loop fills all 77 places.
\<close>

theorem read_banner_correct:
  assumes h: "v_handles st h = Some fh" "h_pos fh = 0" and f: "file_at (v_fs st) (h_node fh) c bs"
    and apart: "buffer_ok c bs out 1" "buffer_ok c bs message 77" "\<not> in_range message 77 out"
  shows "if length bs < 77
    then \<exists>st'. read_banner out h message st = Inr (length bs, st') \<and> bytes_at (v_mem st') message (length bs) = bs
      \<and> v_mem st' (message + of_nat (length bs)) = 0 \<and> ferror h st' = Inr (h_error fh)
    else read_banner out h message st = Inl (BadAccess (message + 77))"
proof -
  have p0: "unat (h_pos fh) = 0" "bytes_at (v_mem st) message 0 = take 0 bs" using h(2) by (simp_all add: bytes_at_def)
  obtain st' fh' where r: "banner_loop out h message 0 st = Inr (min 77 (length bs), st')"
    "bytes_at (v_mem st') message (min 77 (length bs)) = take 77 bs" "v_handles st' h = Some fh'" "h_error fh' = h_error fh"
    using banner_loop_run [OF h(1) f p0(1) _ apart p0(2)] by auto
  show ?thesis
  proof (cases "length bs < 77")
    case True
    let ?m = "(v_mem st')(message + of_nat (length bs) := 0)"
    have "?m (message + of_nat k) = v_mem st' (message + of_nat k)" if "k < length bs" for k
      using of_nat_u32_inj [of k "length bs"] that True by simp
    then have "bytes_at ?m message (length bs) = bytes_at (v_mem st') message (length bs)" by (intro bytes_at_cong)
    moreover have "v_mem (set_v_mem ?m st') = ?m" "v_handles (set_v_mem ?m st') = v_handles st'"
      by (simp_all add: set_v_mem_def v_mem_def set_fs_mem_def fs_mem_def)
    ultimately show ?thesis using True r by (simp add: read_banner_def ferror_def min_def)
  next
    case False
    then show ?thesis using r by (simp add: read_banner_def)
  qed
qed

theorem read_banner_correct_witness:
  "\<exists>st. read_banner 0xA00 0x900 0xF00 example_vfs = Inr (2, st) \<and> bytes_at (v_mem st) 0xF00 2 = [104, 105] \<and> v_mem st 0xF02 = 0"
proof -
  have "buffer_ok 0x500 [104, 105] 0xF00 77" "\<not> in_range 0xF00 77 (0xA00 :: u32)"
    by (simp_all add: buffer_ok_def in_range_def less_Suc_eq)
  then show ?thesis
    using read_banner_correct [OF example_handle _ _ example_buffer, of "0xF00"] example_file by (simp add: numeral_2_eq_2) blast
qed

end
