(* ===== verification/Interrupt.thy ===== *)
theory Interrupt
  imports Prelude
begin

text \<open>
  Interrupts: the table of gates and the handlers of the exceptions (\<open>interrupt_as.S\<close>, \<open>interrupt.c\<close>), the
  two interrupt controllers (\<open>pic.S\<close>), the interval timer (\<open>pit.c\<close>), and what \<open>scheduler.c\<close> and \<open>ps2.c\<close>
  install. The controllers and the timer are outside the program: the model keeps the sequence of the
  writes to the ports, and what a port reads after a sequence of writes is the parameter \<open>inb\<close>.
\<close>

unbundle bit_operations_syntax

section \<open>Ports and gates\<close>

type_synonym port_log = "(u16 \<times> u8) list"

text \<open>A gate is its low and its high word.\<close>

record interrupts =
  idt :: "u32 \<Rightarrow> u32 \<times> u32"
  idt_limit :: u16
  io_log :: port_log

definition outb :: "u16 \<Rightarrow> u8 \<Rightarrow> interrupts \<Rightarrow> interrupts" where
  "outb p b hw = hw\<lparr>io_log := io_log hw @ [(p, b)]\<rparr>"

definition itr_set_handler :: "u8 \<Rightarrow> u8 \<Rightarrow> u16 \<Rightarrow> u32 \<Rightarrow> interrupts \<Rightarrow> interrupts" where
  "itr_set_handler itr ty cs handler hw =
     (let low = push_bit 16 (ucast cs) OR (handler AND 0xFFFF);
          high = (handler AND 0xFFFF0000) OR push_bit 8 (ucast ty)
      in hw\<lparr>idt := (idt hw)(ucast itr := (low, high))\<rparr>)"

section \<open>The interrupt controllers\<close>

definition MASTER_COMMAND :: u16 where "MASTER_COMMAND = 0x20"
definition MASTER_DATA :: u16 where "MASTER_DATA = 0x21"
definition SLAVE_COMMAND :: u16 where "SLAVE_COMMAND = 0xA0"
definition SLAVE_DATA :: u16 where "SLAVE_DATA = 0xA1"
definition PIC_EOI :: u8 where "PIC_EOI = 0x20"

definition pic_disable_all :: "interrupts \<Rightarrow> interrupts" where
  "pic_disable_all hw = outb SLAVE_DATA 0xFF (outb MASTER_DATA 0xFF hw)"

definition pic_init :: "interrupts \<Rightarrow> interrupts" where
  "pic_init hw =
     (let hw = pic_disable_all hw;
          hw = outb MASTER_COMMAND 0x11 hw;
          hw = outb SLAVE_COMMAND 0x11 hw;
          hw = outb MASTER_DATA 32 hw;
          hw = outb SLAVE_DATA 40 hw;
          hw = outb MASTER_DATA 4 hw;
          hw = outb SLAVE_DATA 2 hw;
          hw = outb MASTER_DATA 5 hw;
          hw = outb SLAVE_DATA 1 hw
      in pic_disable_all hw)"

text \<open>The comparison with 8 is one of signed bytes.\<close>

definition below_8 :: "u32 \<Rightarrow> bool" where
  "below_8 irq \<longleftrightarrow> sint (ucast irq :: u8) < 8"

definition pic_send_eoi :: "u32 \<Rightarrow> interrupts \<Rightarrow> interrupts" where
  "pic_send_eoi irq hw = outb (if below_8 irq then MASTER_COMMAND else SLAVE_COMMAND) PIC_EOI hw"

definition pic_enable :: "(port_log \<Rightarrow> u16 \<Rightarrow> u8) \<Rightarrow> u32 \<Rightarrow> interrupts \<Rightarrow> interrupts" where
  "pic_enable inb irq hw =
     (let (dx, ebx) = if below_8 irq then (MASTER_DATA, irq) else (SLAVE_DATA, irq - 8);
          mask = inb (io_log hw) dx
      in outb dx (unset_bit (unat (ebx mod 16)) mask) hw)"

section \<open>The interval timer\<close>

datatype pit_channel = CHANNEL_0 | CHANNEL_2

fun channel_number :: "pit_channel \<Rightarrow> u32" where
  "channel_number CHANNEL_0 = 0"
| "channel_number CHANNEL_2 = 2"

datatype pit_mode =
    INTERRUPT_ON_TERMINAL_COUNT | HARDWARE_RETRIGGERABLE_ONE_SHOT | RATE_GENERATOR
  | SQUARE_WAVE_GENERATOR | SOFTWARE_TRIGGERED_STROBE | HARDWARE_TRIGGERED_STROBE

fun mode_number :: "pit_mode \<Rightarrow> u32" where
  "mode_number INTERRUPT_ON_TERMINAL_COUNT = 0"
| "mode_number HARDWARE_RETRIGGERABLE_ONE_SHOT = 1"
| "mode_number RATE_GENERATOR = 2"
| "mode_number SQUARE_WAVE_GENERATOR = 3"
| "mode_number SOFTWARE_TRIGGERED_STROBE = 4"
| "mode_number HARDWARE_TRIGGERED_STROBE = 5"

definition PIT_FREQUENCY_HZ :: u32 where "PIT_FREQUENCY_HZ = 1193182"
definition DATA_PORT_0 :: u16 where "DATA_PORT_0 = 0x40"
definition COMMAND_PORT :: u16 where "COMMAND_PORT = 0x43"

definition pit_configure :: "pit_channel \<Rightarrow> pit_mode \<Rightarrow> u16 \<Rightarrow> interrupts \<Rightarrow> interrupts" where
  "pit_configure channel mode reload hw =
     (let command = ucast (push_bit 6 (channel_number channel) OR push_bit 1 (mode_number mode) OR push_bit 4 3);
          port = DATA_PORT_0 + ucast (channel_number channel);
          hw = outb COMMAND_PORT command hw;
          hw = outb port (ucast reload) hw
      in outb port (ucast (drop_bit 8 reload)) hw)"

section \<open>The handlers\<close>

text \<open>The handlers of the exceptions, with the message of each panic.\<close>

definition exception_handlers :: "(u8 \<times> string \<times> string) list" where
  "exception_handlers =
     [(0, ''de_handler'', ''(0) #DE Divide Error''), (2, ''nmi_handler'', ''(2) NMI Interrupt''),
      (4, ''of_handler'', ''(4) #OF Overflow''), (8, ''df_handler'', ''(8) #DF Double Fault''),
      (10, ''ts_handler'', ''(10) #TS Invalid TSS''), (11, ''np_handler'', ''(11) #NP Segment Not Present''),
      (12, ''ss_handler'', ''(12) #SS Stack-Segment Fault''), (13, ''gp_handler'', ''(13) #GP General Protection''),
      (14, ''pf_handler'', ''(14) #PF Page Fault''), (16, ''mf_handler'', ''(16) #MF x87 FPU Floating-Point Error''),
      (17, ''ac_handler'', ''(17) #AC Alignment Check''), (18, ''mc_handler'', ''(18) #MC Machine Check''),
      (19, ''xm_handler'', ''(19) #XM SIMD Floating-Point Exception'')]"

text \<open>\<open>addr\<close> gives the address of each handler.\<close>

definition itr_set_initial_handlers :: "(string \<Rightarrow> u32) \<Rightarrow> interrupts \<Rightarrow> interrupts" where
  "itr_set_initial_handlers addr hw =
     foldl (\<lambda>hw (v, f, _). itr_set_handler v 0x8E 8 (addr f) hw) hw exception_handlers"

definition itr_init :: "(string \<Rightarrow> u32) \<Rightarrow> interrupts \<Rightarrow> interrupts" where
  "itr_init addr hw = itr_set_initial_handlers addr (pic_init (hw\<lparr>idt_limit := 256 * 8 - 1\<rparr>))"

text \<open>The end of \<open>sched_init_tasks\<close>.\<close>

definition sched_init_handlers :: "(port_log \<Rightarrow> u16 \<Rightarrow> u8) \<Rightarrow> (string \<Rightarrow> u32) \<Rightarrow> interrupts \<Rightarrow> interrupts" where
  "sched_init_handlers inb addr hw =
     (let hw = itr_set_handler 50 0x8E 8 (addr ''int50_handler'') hw;
          hw = itr_set_handler 51 0x8E 8 (addr ''int51_handler'') hw;
          hw = itr_set_handler 32 0x8E 8 (addr ''irq0_handler'') hw;
          hw = pit_configure CHANNEL_0 SQUARE_WAVE_GENERATOR (ucast (PIT_FREQUENCY_HZ div 1000)) hw
      in pic_enable inb 0 hw)"

definition ps2_init :: "(port_log \<Rightarrow> u16 \<Rightarrow> u8) \<Rightarrow> (string \<Rightarrow> u32) \<Rightarrow> interrupts \<Rightarrow> interrupts" where
  "ps2_init inb addr hw = pic_enable inb 1 (itr_set_handler 33 0x8E 8 (addr ''irq1_handler'') hw)"

section \<open>What the hardware sees\<close>

text \<open>The fields of a gate as the processor reads them: the handler, the selector and the type.\<close>

definition gate_fields :: "u32 \<times> u32 \<Rightarrow> u32 \<times> u16 \<times> u8" where
  "gate_fields g = (case g of (low, high) \<Rightarrow>
     ((high AND 0xFFFF0000) OR (low AND 0xFFFF), ucast (drop_bit 16 low), ucast (drop_bit 8 high)))"

lemma bit_half_masks:
  "bit (0xFFFF0000 :: u32) n \<longleftrightarrow> 16 \<le> n \<and> n < 32" "bit (0xFFFF :: u32) n \<longleftrightarrow> n < 16"
proof -
  have e: "(0xFFFF0000 :: u32) = push_bit 16 (mask 16)" "(0xFFFF :: u32) = mask 16" by (simp_all add: mask_eq_exp_minus_1)
  show "bit (0xFFFF0000 :: u32) n \<longleftrightarrow> 16 \<le> n \<and> n < 32" unfolding e(1) by (simp only: bit_simps) auto
  show "bit (0xFFFF :: u32) n \<longleftrightarrow> n < 16" unfolding e(2) by (simp only: bit_simps) auto
qed

lemmas gate_bits = bit_simps bit_half_masks

lemma gate_fields_encode:
  fixes handler :: u32 and cs :: u16 and ty :: u8
  shows "gate_fields (push_bit 16 (ucast cs) OR (handler AND 0xFFFF), (handler AND 0xFFFF0000) OR push_bit 8 (ucast ty)) = (handler, cs, ty)"
proof -
  have "((handler AND 0xFFFF0000) OR push_bit 8 (ucast ty)) AND 0xFFFF0000 OR (push_bit 16 (ucast cs) OR (handler AND 0xFFFF)) AND 0xFFFF = handler"
    by (rule bit_word_eqI)
      (auto simp: gate_bits not_le dest: bit_imp_le_length simp del: bit_numeral_word_iff)
  moreover have "ucast (drop_bit 16 (push_bit 16 (ucast cs) OR (handler AND 0xFFFF))) = cs"
    by (rule bit_word_eqI) (auto simp: gate_bits simp del: bit_numeral_word_iff)
  moreover have "ucast (drop_bit 8 ((handler AND 0xFFFF0000) OR push_bit 8 (ucast ty))) = ty"
    by (rule bit_word_eqI, simp only: gate_bits o_def) auto
  ultimately show ?thesis by (simp add: gate_fields_def)
qed

lemma gate_of_itr_set_handler:
  "gate_fields (idt (itr_set_handler itr ty cs handler hw) v) =
     (if v = ucast itr then (handler, cs, ty) else gate_fields (idt hw v))"
  by (simp add: itr_set_handler_def Let_def gate_fields_encode)

text \<open>
  Reading the data port of an initialised controller gives its mask, which is what was last written to
  this port after the initialisation; command words with bit 4 start a new initialisation.
\<close>

definition init_sequence :: port_log where
  "init_sequence =
     [(MASTER_COMMAND, 0x11), (SLAVE_COMMAND, 0x11), (MASTER_DATA, 32), (SLAVE_DATA, 40),
      (MASTER_DATA, 4), (SLAVE_DATA, 2), (MASTER_DATA, 5), (SLAVE_DATA, 1)]"

definition last_write :: "port_log \<Rightarrow> u16 \<Rightarrow> u8 option" where
  "last_write l p = map_of (rev l) p"

definition pic_mask_law :: "(port_log \<Rightarrow> u16 \<Rightarrow> u8) \<Rightarrow> bool" where
  "pic_mask_law inb \<longleftrightarrow> (\<forall>l1 l2 p b. p \<in> {MASTER_DATA, SLAVE_DATA}
     \<longrightarrow> (\<forall>(q, c) \<in> set l2. q \<in> {MASTER_COMMAND, SLAVE_COMMAND} \<longrightarrow> \<not> bit c 4)
     \<longrightarrow> last_write l2 p = Some b \<longrightarrow> inb (l1 @ init_sequence @ l2) p = b)"

lemma last_write_law: "pic_mask_law (\<lambda>l p. case last_write l p of None \<Rightarrow> 0 | Some b \<Rightarrow> b)"
  by (simp add: pic_mask_law_def last_write_def split: option.split)

section \<open>The handlers that are installed\<close>

definition installed_handlers :: "(u32 \<times> string) list" where
  "installed_handlers =
     [(0, ''de_handler''), (2, ''nmi_handler''), (4, ''of_handler''), (8, ''df_handler''), (10, ''ts_handler''),
      (11, ''np_handler''), (12, ''ss_handler''), (13, ''gp_handler''), (14, ''pf_handler''), (16, ''mf_handler''),
      (17, ''ac_handler''), (18, ''mc_handler''), (19, ''xm_handler''), (32, ''irq0_handler''), (33, ''irq1_handler''),
      (50, ''int50_handler''), (51, ''int51_handler'')]"

lemma idt_io [simp]: "idt (outb p b hw) = idt hw" "idt (pic_enable inb irq hw) = idt hw" "idt (pic_init hw) = idt hw"
    "idt (pit_configure ch mode reload hw) = idt hw" "idt (pic_disable_all hw) = idt hw"
  by (simp_all add: outb_def pic_enable_def pic_init_def pic_disable_all_def pit_configure_def Let_def split: prod.split)

lemma io_log_simps [simp]:
  "io_log (outb p b hw) = io_log hw @ [(p, b)]" "io_log (itr_set_handler itr ty cs handler hw) = io_log hw"
  by (simp_all add: outb_def itr_set_handler_def Let_def)

lemma io_log_initial_handlers [simp]: "io_log (itr_set_initial_handlers addr hw) = io_log hw"
  by (simp add: itr_set_initial_handlers_def exception_handlers_def)

lemma gate_of_initial_handlers:
  "gate_fields (idt (itr_set_initial_handlers addr hw) v) =
     (case map_of (filter (\<lambda>(v, _). v < 32) installed_handlers) v of None \<Rightarrow> gate_fields (idt hw v) | Some f \<Rightarrow> (addr f, 8, 0x8E))"
  by (simp add: itr_set_initial_handlers_def exception_handlers_def installed_handlers_def gate_of_itr_set_handler)

section \<open>Properties\<close>

text \<open>
  C39. After the start-up sequence of the kernel every gate decodes to the handler meant for
  it, with the code segment of the kernel and the type of a present interrupt gate, all other gates
  are untouched, exactly the interrupt lines 0 and 1 are unmasked and the timer is programmed to divide its
  clock by 1193 as a square wave.
\<close>

theorem interrupts_installed:
  fixes hw :: interrupts and addr :: "string \<Rightarrow> u32"
  assumes "pic_mask_law inb"
  defines "hw' \<equiv> ps2_init inb addr (sched_init_handlers inb addr (itr_init addr hw))"
  shows "gate_fields (idt hw' v) = (case map_of installed_handlers v of None \<Rightarrow> gate_fields (idt hw v) | Some f \<Rightarrow> (addr f, 8, 0x8E))
    \<and> (\<exists>l. io_log hw' = io_log hw @ l \<and> last_write l MASTER_DATA = Some 0xFC \<and> last_write l SLAVE_DATA = Some 0xFF
        \<and> filter (\<lambda>(p, _). p \<in> {DATA_PORT_0, COMMAND_PORT}) l = [(COMMAND_PORT, 0x36), (DATA_PORT_0, 0xA9), (DATA_PORT_0, 0x04)])"
proof
  show "gate_fields (idt hw' v) = (case map_of installed_handlers v of None \<Rightarrow> gate_fields (idt hw v) | Some f \<Rightarrow> (addr f, 8, 0x8E))"
    by (simp add: hw'_def ps2_init_def sched_init_handlers_def itr_init_def Let_def gate_of_itr_set_handler
        gate_of_initial_handlers) (simp add: installed_handlers_def)
next
  let ?hw1 = "itr_init addr hw" and ?off = "[(MASTER_DATA, 0xFF), (SLAVE_DATA, 0xFF)]"
    and ?pit = "[(COMMAND_PORT, 0x36), (DATA_PORT_0, 0xA9), (DATA_PORT_0, 0x04)]"
  have low: "(1193 :: u8) = 169" by (simp add: word_eq_unat_iff)
  have b8: "below_8 0" "below_8 1" by (simp_all add: below_8_def)
  have 1: "io_log ?hw1 = io_log hw @ ?off @ init_sequence @ ?off"
    by (simp add: itr_init_def pic_init_def pic_disable_all_def init_sequence_def Let_def)
  have law: "inb ((io_log hw @ ?off) @ init_sequence @ l2) MASTER_DATA = b"
    if "last_write l2 MASTER_DATA = Some b" "\<forall>(q, c) \<in> set l2. q \<in> {MASTER_COMMAND, SLAVE_COMMAND} \<longrightarrow> \<not> bit c 4" for l2 b
    using assms(1) that unfolding pic_mask_law_def by blast
  have mask1: "inb ((io_log hw @ ?off) @ init_sequence @ ?off @ ?pit) MASTER_DATA = 0xFF"
    by (rule law) (simp_all add: last_write_def MASTER_DATA_def SLAVE_DATA_def MASTER_COMMAND_def SLAVE_COMMAND_def COMMAND_PORT_def DATA_PORT_0_def)
  have 2: "io_log (sched_init_handlers inb addr ?hw1) = (io_log hw @ ?off) @ init_sequence @ ?off @ ?pit @ [(MASTER_DATA, 0xFE)]"
    using mask1 by (simp add: sched_init_handlers_def 1 pic_enable_def b8 low pit_configure_def Let_def PIT_FREQUENCY_HZ_def unset_bit_eq_and_not)
  have mask2: "inb ((io_log hw @ ?off) @ init_sequence @ ?off @ ?pit @ [(MASTER_DATA, 0xFE)]) MASTER_DATA = 0xFE"
    by (rule law) (simp_all add: last_write_def MASTER_DATA_def SLAVE_DATA_def MASTER_COMMAND_def SLAVE_COMMAND_def COMMAND_PORT_def DATA_PORT_0_def)
  have 3: "io_log hw' = io_log hw @ (?off @ init_sequence @ ?off @ ?pit @ [(MASTER_DATA, 0xFE), (MASTER_DATA, 0xFC)])"
    using mask2 by (simp add: hw'_def ps2_init_def 2 pic_enable_def b8 Let_def unset_bit_eq_and_not)
  show "\<exists>l. io_log hw' = io_log hw @ l \<and> last_write l MASTER_DATA = Some 0xFC \<and> last_write l SLAVE_DATA = Some 0xFF
      \<and> filter (\<lambda>(p, _). p \<in> {DATA_PORT_0, COMMAND_PORT}) l = ?pit"
    by (rule exI, rule conjI, rule 3)
      (simp add: last_write_def init_sequence_def MASTER_DATA_def SLAVE_DATA_def MASTER_COMMAND_def SLAVE_COMMAND_def COMMAND_PORT_def DATA_PORT_0_def)
qed

theorem interrupts_installed_witness:
  "let inb = (\<lambda>l p. case last_write l p of None \<Rightarrow> 0 | Some b \<Rightarrow> b);
       hw = ps2_init inb (\<lambda>f. if f = ''irq1_handler'' then 0xC0101234 else 0)
         (sched_init_handlers inb (\<lambda>f. if f = ''irq1_handler'' then 0xC0101234 else 0)
           (itr_init (\<lambda>f. if f = ''irq1_handler'' then 0xC0101234 else 0) \<lparr>idt = (\<lambda>_. (0, 0)), idt_limit = 0, io_log = []\<rparr>))
   in gate_fields (idt hw 33) = (0xC0101234, 8, 0x8E)"
  using interrupts_installed [OF last_write_law, of _ "\<lparr>idt = (\<lambda>_. (0, 0)), idt_limit = 0, io_log = []\<rparr>" 33]
  by (simp add: Let_def installed_handlers_def)

end
