(* ===== verification/Process.thy ===== *)
theory Process
  imports Vfs HeapChunks
begin

text \<open>
  Processes and threads: the control structures of the initial process (\<open>kernel/src/all/kernel/sched/process.c\<close>)
  and the functions of \<open>libk/src/all/threads\<close>, \<open>abort\<close> and \<open>process_create\<close>, which rest on the scheduler.
\<close>

section \<open>The initial process\<close>

text \<open>The addresses of the static structures and of the symbols of the linker script and of \<open>boot.S\<close>.\<close>

record statics =
  a_kernel_end :: u32
  a_boot_pagedir :: u32
  a_mm_kernel_info :: u32
  a_mm_info :: u32
  a_vfs_open_files :: u32
  a_vfs_info :: u32
  a_pcb :: u32

text \<open>The structures of the process, next to the stores of the file system.\<close>

record process_state =
  k_vfs :: vfs_state
  k_mm_infos :: "u32 \<rightharpoonup> mm_info"

definition init_mm_kernel_info :: "statics \<Rightarrow> mm_ring_info" where
  "init_mm_kernel_info a =
     \<lparr>heap_semaphore = 0, heap_start = a_kernel_end a, heap_end = a_kernel_end a,
      stacks_semaphore = 0, stacks_start = 0xFFC00000, stacks_bitmaps_length = 0, stacks_bitmaps = []\<rparr>"

definition init_mm_info :: "statics \<Rightarrow> mm_info" where
  "init_mm_info a = \<lparr>page_dir = a_boot_pagedir a - 0xC0000000, kernel_info = a_mm_kernel_info a\<rparr>"

definition init_vfs_open_files :: vfs_open_files where
  "init_vfs_open_files = \<lparr>handles = replicate VFS_OPEN_FILES_LENGTH 0, next_files = 0\<rparr>"

definition init_vfs_info :: "statics \<Rightarrow> vfs_info" where
  "init_vfs_info a = \<lparr>vi_root = 0, vi_cwd = 0, vi_files = a_vfs_open_files a\<rparr>"

definition init_pcb :: "statics \<Rightarrow> process_control_block" where
  "init_pcb a = \<lparr>tgid = 1, tid = 1, priority = priority_ticks PRIORITY_NORMAL, p_mm_info = a_mm_info a, p_vfs_info = a_vfs_info a\<rparr>"

fun clear_handles :: "nat \<Rightarrow> u32 list \<Rightarrow> u32 list" where
  "clear_handles 0 hs = hs"
| "clear_handles (Suc i) hs = (clear_handles i hs)[i := 0]"

text \<open>The static structures are in place when the kernel starts; the code clears the handles and stores the pointer.\<close>

definition sched_init_process_control_block :: "statics \<Rightarrow> u32 \<Rightarrow> process_state \<Rightarrow> process_state result" where
  "sched_init_process_control_block a esp0 k =
     (let st = k_vfs k;
          fs = v_fs st;
          files = init_vfs_open_files;
          files = files\<lparr>handles := clear_handles VFS_OPEN_FILES_LENGTH (handles files)\<rparr>
      in bindE (vwrite (h_mm (f_sys fs)) (current_process_control_block_ptr esp0) (a_pcb a)) (\<lambda>mm.
         Inr (k\<lparr>k_vfs := st\<lparr>v_fs := fs\<lparr>f_sys := (f_sys fs)\<lparr>h_info := init_mm_kernel_info a, h_mm := mm\<rparr>\<rparr>,
                  v_open_files := (v_open_files st)(a_vfs_open_files a \<mapsto> files),
                  v_infos := (v_infos st)(a_vfs_info a \<mapsto> init_vfs_info a),
                  v_pcbs := (v_pcbs st)(a_pcb a \<mapsto> init_pcb a)\<rparr>,
                k_mm_infos := (k_mm_infos k)(a_mm_info a \<mapsto> init_mm_info a)\<rparr>)))"

definition process_create :: "u32 \<Rightarrow> u32 \<Rightarrow> int" where
  "process_create filename argv = - 1"

section \<open>Threads\<close>

datatype thrd_result = thrd_success | thrd_nomem | thrd_timedout | thrd_busy | thrd_error

text \<open>The identifier of the new thread and the result.\<close>

definition thrd_create ::
    "u32 \<Rightarrow> u32 \<Rightarrow> u32 \<Rightarrow> u32 \<Rightarrow> u32 \<Rightarrow> u32 \<Rightarrow> u32 \<Rightarrow> sched_state \<Rightarrow> (u32 \<times> thrd_result \<times> sched_state) result option" where
  "thrd_create A V me esp0 exit_addr func arg st =
     bindO (sched_new_thread A V me esp0 exit_addr func arg PRIORITY_NORMAL st) (\<lambda>(thr, st). Some (Inr (thr, thrd_success, st)))"

definition thrd_current :: "u32 \<Rightarrow> mm_state \<Rightarrow> (u32 \<rightharpoonup> process_control_block) \<Rightarrow> u32 result" where
  "thrd_current esp0 mm pcbs =
     bindE (current_process_control_block mm esp0) (\<lambda>p. bindE (deref pcbs p) (\<lambda>pcb. Inr (tid pcb)))"

text \<open>The difference of two unsigned integers, converted to \<open>int\<close>.\<close>

definition thrd_equal :: "u32 \<Rightarrow> u32 \<Rightarrow> int" where
  "thrd_equal lhs rhs = sint (lhs - rhs)"

text \<open>\<open>sched_sleep\<close> and \<open>sched_exit\<close> raise the software interrupts 50 and 51.\<close>

definition sched_sleep :: "u32 \<Rightarrow> u16 \<Rightarrow> u32 \<Rightarrow> sched_state \<Rightarrow> ((u32 \<times> u16 \<times> u32) \<times> sched_state) result option" where
  "sched_sleep ms0 = int50_handler ms0"

definition sched_yield :: "u16 \<Rightarrow> u32 \<Rightarrow> sched_state \<Rightarrow> ((u32 \<times> u16 \<times> u32) \<times> sched_state) result option" where
  "sched_yield = sched_sleep 0"

definition thrd_yield :: "u16 \<Rightarrow> u32 \<Rightarrow> sched_state \<Rightarrow> ((u32 \<times> u16 \<times> u32) \<times> sched_state) result option" where
  "thrd_yield = sched_yield"

definition sched_exit :: "int \<Rightarrow> u16 \<Rightarrow> u32 \<Rightarrow> sched_state \<Rightarrow> ((u32 \<times> u16 \<times> u32) \<times> sched_state) result" where
  "sched_exit res = int51_handler"

definition thrd_exit :: "int \<Rightarrow> u16 \<Rightarrow> u32 \<Rightarrow> sched_state \<Rightarrow> ((u32 \<times> u16 \<times> u32) \<times> sched_state) result" where
  "thrd_exit res = sched_exit res"

definition abort :: "'a result" where
  "abort = Inl (Panic ''abort'')"

text \<open>The function returns 0 exactly for equal threads.\<close>

lemma thrd_equal_zero: "thrd_equal lhs rhs = 0 \<longleftrightarrow> lhs = rhs"
  by (simp add: thrd_equal_def signed_eq_0_iff)

section \<open>Writing one word through the page tables\<close>

text \<open>A word of data: it is not one of the two table entries of its own translation.\<close>

definition data_word :: "mm_state \<Rightarrow> u32 \<Rightarrow> u32 \<Rightarrow> bool" where
  "data_word mm va p \<longleftrightarrow> translate mm va = Inr p \<and> p \<noteq> frame (cr3 mm) + 4 * drop_bit 22 va
     \<and> p \<noteq> frame (phys mm (frame (cr3 mm) + 4 * drop_bit 22 va)) + 4 * (drop_bit 12 va AND 0x3FF)"

lemma vread_vwrite:
  assumes "data_word mm va p"
  obtains mm' where "vwrite mm va v = Inr mm'" "vread mm' va = Inr v" "mm' = mm\<lparr>phys := (phys mm)(p := v)\<rparr>"
proof
  let ?mm = "mm\<lparr>phys := (phys mm)(p := v)\<rparr>"
  show "vwrite mm va v = Inr ?mm" using assms by (simp add: data_word_def vwrite_def)
  have "translate ?mm va = Inr p" using assms by (auto simp: data_word_def translate_def Let_def split: if_splits)
  then show "vread ?mm va = Inr v" by (simp add: vread_def)
qed simp

lemma clear_handles_eq: "n = length hs \<Longrightarrow> clear_handles n hs = replicate n 0"
proof -
  have "clear_handles i hs = replicate i 0 @ drop i hs" if "i \<le> length hs" for i
    using that
  proof (induction i)
    case (Suc i)
    then have "drop i hs = hs ! i # drop (Suc i) hs" by (intro Cons_nth_drop_Suc [symmetric]) simp
    then show ?case using Suc by (simp add: list_update_append replicate_append_same)
  qed simp
  then show "n = length hs \<Longrightarrow> clear_handles n hs = replicate n 0" by simp
qed

section \<open>Properties\<close>

text \<open>
  C40. After the initialisation the running thread is found from any pointer into the boot stack: it
  is thread 1, its structures are linked up to the empty table of open files, which takes the first file
  in its first place, and the kernel heap is well formed, unlocked and without a block.
\<close>

theorem initial_process_correct:
  assumes cell: "data_word (h_mm (f_sys (v_fs (k_vfs k)))) (current_process_control_block_ptr esp0) p"
    and heap: "align_ok A" "unat A dvd unat (a_kernel_end a)" "msize A \<le> unat (a_kernel_end a)"
  shows "\<exists>k'. sched_init_process_control_block a esp0 k = Inr k'
    \<and> thrd_current esp0 (h_mm (f_sys (v_fs (k_vfs k')))) (v_pcbs (k_vfs k')) = Inr 1
    \<and> bindE (current_vfs_info esp0 (k_vfs k')) (deref (v_infos (k_vfs k'))) = Inr \<lparr>vi_root = 0, vi_cwd = 0, vi_files = a_vfs_open_files a\<rparr>
    \<and> (\<exists>st'. put_file_handle esp0 h (k_vfs k') = Some (Inr (0, st'))
        \<and> v_open_files st' (a_vfs_open_files a) = Some \<lparr>handles = h # replicate 6 0, next_files = 0\<rparr>)
    \<and> heap_ok A (f_sys (v_fs (k_vfs k'))) [] \<and> heap_allocs A (f_sys (v_fs (k_vfs k'))) [] = {}
    \<and> heap_semaphore (h_info (f_sys (v_fs (k_vfs k')))) = 0
    \<and> bindE (deref (v_pcbs (k_vfs k')) (a_pcb a)) (\<lambda>pcb. deref (k_mm_infos k') (p_mm_info pcb)) = Inr (init_mm_info a)"
proof -
  let ?st = "k_vfs k" and ?cell = "current_process_control_block_ptr esp0"
  obtain mm where mm: "vwrite (h_mm (f_sys (v_fs ?st))) ?cell (a_pcb a) = Inr mm" "vread mm ?cell = Inr (a_pcb a)"
    using vread_vwrite [OF cell] by metis
  define k' where "k' = k\<lparr>k_vfs := ?st\<lparr>v_fs := (v_fs ?st)\<lparr>f_sys := (f_sys (v_fs ?st))\<lparr>h_info := init_mm_kernel_info a, h_mm := mm\<rparr>\<rparr>,
      v_open_files := (v_open_files ?st)(a_vfs_open_files a \<mapsto> \<lparr>handles = replicate 7 0, next_files = 0\<rparr>),
      v_infos := (v_infos ?st)(a_vfs_info a \<mapsto> init_vfs_info a), v_pcbs := (v_pcbs ?st)(a_pcb a \<mapsto> init_pcb a)\<rparr>,
    k_mm_infos := (k_mm_infos k)(a_mm_info a \<mapsto> init_mm_info a)\<rparr>"
  have "sched_init_process_control_block a esp0 k = Inr k'"
    using mm(1) by (simp add: sched_init_process_control_block_def init_vfs_open_files_def VFS_OPEN_FILES_LENGTH_def
        clear_handles_eq k'_def Let_def)
  moreover have pcb: "current_process_control_block (h_mm (f_sys (v_fs (k_vfs k')))) esp0 = Inr (a_pcb a)"
    using mm(2) by (simp add: k'_def current_process_control_block_def)
  moreover have info: "current_vfs_info esp0 (k_vfs k') = Inr (a_vfs_info a)"
    using pcb by (simp add: current_vfs_info_def) (simp add: k'_def init_pcb_def)
  moreover have "v_infos (k_vfs k') (a_vfs_info a) = Some (init_vfs_info a)" "v_pcbs (k_vfs k') (a_pcb a) = Some (init_pcb a)"
      "k_mm_infos k' (a_mm_info a) = Some (init_mm_info a)"
      "v_open_files (k_vfs k') (a_vfs_open_files a) = Some \<lparr>handles = replicate 7 0, next_files = 0\<rparr>"
    by (simp_all add: k'_def)
  moreover have "heap_ok A (f_sys (v_fs (k_vfs k'))) []" "heap_allocs A (f_sys (v_fs (k_vfs k'))) [] = {}"
      "heap_semaphore (h_info (f_sys (v_fs (k_vfs k')))) = 0"
    using heap by (simp_all add: k'_def heap_ok_def heap_allocs_def init_mm_kernel_info_def)
  moreover have "\<exists>st'. put_file_handle esp0 h (k_vfs k') = Some (Inr (0, st'))
        \<and> v_open_files st' (a_vfs_open_files a) = Some \<lparr>handles = h # replicate 6 0, next_files = 0\<rparr>"
    using calculation(3,4,7) by (simp add: put_file_handle_def bindO_def init_vfs_info_def)
      (subst put_loop.simps, simp add: VFS_OPEN_FILES_LENGTH_def numeral_eq_Suc)
  ultimately show ?thesis
    by (intro exI [of _ k']) (simp add: thrd_current_def init_pcb_def init_vfs_info_def)
qed

text \<open>A boot stack below 0x4000, which one page table maps to the page at 0x5000.\<close>

definition example_process :: process_state where
  "example_process = \<lparr>k_vfs = \<lparr>v_fs = \<lparr>f_vfs = (\<lambda>_. None), f_roots = (\<lambda>_. None), f_vnodes = (\<lambda>_. None), f_regs = (\<lambda>_. None),
       f_entries = (\<lambda>_. None), f_lists = (\<lambda>_. None), f_sys = \<lparr>h_mem = (\<lambda>_. 0), h_info = undefined,
         h_mm = \<lparr>phys = (\<lambda>_. 0)(0x1000 := 0x2001, 0x200C := 0x5001), cr3 = 0x1000, first_free_page = 0, stat_mark = 0,
           mm_mutex = \<lparr>mtx_lock = 0, mtx_level = 0\<rparr>, mm_freepage_pte = 0\<rparr>\<rparr>\<rparr>,
     v_handles = (\<lambda>_. None), v_open_files = (\<lambda>_. None), v_infos = (\<lambda>_. None), v_pcbs = (\<lambda>_. None), rootvfs = 0\<rparr>,
     k_mm_infos = (\<lambda>_. None)\<rparr>"

definition example_statics :: statics where
  "example_statics = \<lparr>a_kernel_end = 0xC0120000, a_boot_pagedir = 0xC0101000, a_mm_kernel_info = 0xC0110000,
     a_mm_info = 0xC0110020, a_vfs_open_files = 0xC0110030, a_vfs_info = 0xC0110050, a_pcb = 0xC0110060\<rparr>"

theorem initial_process_correct_witness:
  "\<exists>k'. sched_init_process_control_block example_statics 0x3F00 example_process = Inr k'
    \<and> thrd_current 0x3F00 (h_mm (f_sys (v_fs (k_vfs k')))) (v_pcbs (k_vfs k')) = Inr 1"
proof -
  have "current_process_control_block_ptr 0x3F00 = 0x3FF8" by (simp add: current_process_control_block_ptr_def)
  then have "data_word (h_mm (f_sys (v_fs (k_vfs example_process)))) (current_process_control_block_ptr 0x3F00) 0x5FF8"
    by (simp add: data_word_def translate_def frame_def present_def example_process_def)
  moreover have "align_ok 4" "unat (4 :: u32) dvd unat (a_kernel_end example_statics)" "msize 4 \<le> unat (a_kernel_end example_statics)"
    by (simp_all add: align_ok_def example_statics_def msize_def start_size_def aligned_size_def)
  ultimately show ?thesis using initial_process_correct [of example_process "0x3F00" "0x5FF8" 4 example_statics 0] by blast
qed

end
