(* ===== verification/Spec2Isabelle.thy ===== *)
theory Spec2Isabelle
  imports Keyboard HeapSpec SchedSpec StackSpec Printf ParentSpec MountSpec Kernel Interrupt Process
begin

text \<open>
  A verification of the kernel n00b-os and of its C library, a single-processor system for 32-bit x86.

  \<^bold>\<open>The program.\<close> After \<open>boot.S\<close>, \<open>kernel_main\<close> (\<open>kernel/src/all/kernel/kernel.c\<close>) sets up the control structures
  of the first process, the console, the page allocator, the kernel stacks, the scheduler with its timer,
  the file system from the archive that the boot loader has read, and the keyboard. Physical pages come from a free
  list through the pages themselves (\<open>page_allocator.c\<close>), kernel stacks (\<open>stack.c\<close>) and the kernel heap (\<open>malloc.c\<close>)
  take their pages from it, threads (\<open>scheduler.c\<close>) their stack and structures from both, and the nodes and names of
  the file system (\<open>tarfs.c\<close>, \<open>vfs.c\<close>) live on the heap. The timer interrupt wakes and switches threads, the
  keyboard interrupt (\<open>keyboard.c\<close>) fills a ring buffer that readers empty, and shared structures are
  guarded by a spin lock and a mutex (\<open>semaphore.c\<close>, \<open>mutex.c\<close>), whose waiting threads yield.

  \<^bold>\<open>The theories,\<close> definitions first, then what is proved of them. Source paths are below \<open>kernel/src\<close> and \<open>libk/src\<close>.

  \<^item> \<open>Prelude\<close>: machine integers, faults and results, sequencing \<open>bindE\<close>, and facts on words; \<open>Memory\<close>: memory
    as a function from addresses to bytes, words, byte ranges and strings in it.
  \<^item> \<open>Arith64\<close> (\<open>arithmetic.c\<close>): the 64-bit division the compiler calls, by a 64-by-32 instruction, a normalising
    shift and one correction. It is exact for quotients; remainders are cut to 32 bits.
  \<^item> \<open>KString\<close> (\<open>string/*.c\<close>, \<open>ctype/*.c\<close>): copies, comparisons, searches and \<open>strtok_r\<close>, each against a function on lists.
  \<^item> \<open>RingBuffer\<close> (\<open>ringbuffer.c\<close>): the buffer with running counters refines the bounded queue of the locale
    \<open>bounded_queue\<close>. \<open>Keyboard\<close> (\<open>keyboard.c\<close>) is its client: the interrupt side queues what the keys type, the
    reader takes the first character.
  \<^item> \<open>Sync\<close> (\<open>semaphore.c\<close>, \<open>mutex.c\<close>): the instructions of the two locks as steps of threads that interleave freely; what
    a call of \<open>sched_yield\<close> leaves in \<open>%eax\<close> is the parameter \<open>Y\<close>, on which the exclusion depends.
  \<^item> \<open>Paging\<close>, \<open>PageTables\<close> (\<open>mm/page_allocator.c\<close>): physical memory as words, the two levels of tables that the
    directory maps into itself, and the window page through which pages are read and written. \<open>mm_ok\<close> is the invariant: the
    free pages are a chain, in use for nothing else. Allocation, release, mapping, unmapping, new directories
    and the construction of the free list are shown correct; \<open>page_supply\<close> is their interface.
  \<^item> \<open>Malloc\<close>, \<open>HeapChunks\<close>, \<open>HeapSpec\<close> (\<open>stdlib/malloc.c\<close>): the heap as a sequence of chunks with a marker at both ends. The
    abstract heap is the list of chunk sizes and states; \<open>malloc\<close>, \<open>free\<close> and \<open>realloc\<close> refine
    best fit with splitting, release with merging, and moving. They take pages through the locale \<open>heap_supply\<close>.
  \<^item> \<open>Stack\<close>, \<open>StackSpec\<close> (\<open>mm/stack.c\<close>): slots of four pages from a bitmap, canaries, and the pointer to the control block of
    the running thread at the bottom of its stack.
  \<^item> \<open>Sched\<close>, \<open>SchedLinks\<close>, \<open>SchedSpec\<close> (\<open>sched/scheduler.c\<close>, \<open>sched/interrupts.S\<close>): the schedule ring, the sleepers with delays
    relative to one another and the doomed threads, as linked tasks in a store. The three interrupt handlers refine an abstract
    scheduler of a rotating list, absolute delays and a set; runs of interrupts keep the invariant, and a sleeper
    wakes with exactly the tick that ends its delay.
  \<^item> \<open>Tty\<close>, \<open>Printf\<close> (\<open>arch/i386/tty.c\<close>, \<open>stdio/printf.c\<close>): the screen as a list of cells, typing and scrolling; \<open>printf\<close>
    against the relation \<open>renders\<close> between a format, its arguments and the text.
  \<^item> \<open>KList\<close> (\<open>list.c\<close>), \<open>Tarfs\<close> (\<open>vfs/tarfs.c\<close>), \<open>Vfs\<close> (\<open>vfs.c\<close>, \<open>stdio/f*.c\<close>): circular lists, the archive reader, directories
    and files, handles and streams. \<open>FileSpec\<close> shows what reading and looking up do, \<open>PathSpec\<close> that the walk along a
    path is the recursive resolution of its names, \<open>DirSpec\<close>, \<open>ParentSpec\<close> and \<open>MountSpec\<close> that new entries, directories and files
    lie in blocks of the heap and leave the others alone, and that the parent of a path in the archive is found.
  \<^item> \<open>Kernel\<close> (\<open>kernel.c\<close>, \<open>panic.c\<close>), \<open>Interrupt\<close> (\<open>interrupt_as.S\<close>, \<open>interrupt.c\<close>, \<open>pic.S\<close>, \<open>pit.c\<close>, \<open>ps2.c\<close>), \<open>Process\<close>
    (\<open>sched/process.c\<close>, \<open>threads/*.c\<close>): the banner, the handlers and ports after start-up, and the structures of the first
    process, in which the invariants of heap and stacks begin to hold.
\<close>

text \<open>
  \<^bold>\<open>Conventions.\<close> C integers are words of their width, and signed integers of C that cannot overflow are
  integers. A result is \<open>Inl\<close> of a fault (a panic with its message, the exception of a division, a bad access, a lock that
  is never released) or \<open>Inr\<close> of the value and the new state. Structures that the code reaches through typed pointers are
  records in partial maps from addresses, so that an access through a null or freed pointer is a fault; buffers, names,
  file contents and the heap are bytes. Loops that stop by their own counting are total functions; loops whose
  end depends on what they find in memory (strings, lists, the heap, the path) are \<open>partial_function (option)\<close>, so that a
  loop that runs for ever has the value \<open>None\<close>, and each theorem about them shows that the value is \<open>Some\<close>. No definition
  has fuel, and there is no bound on the number of threads, files or chunks but those of the code: 22 digits, 7 files in a
  table, 8 characters in the keyboard buffer, 100 characters of a name.

  \<^bold>\<open>Parameters.\<close> \<open>A\<close> is \<open>alignof(max_align_t)\<close>, one of 4, 8 and 16; \<open>V\<close> is the address of the page window; \<open>me\<close> (or \<open>tid\<close>) is the
  identifier of the running thread as the locks read it; \<open>esp0\<close> is its stack pointer. The addresses of string literals and
  of local arrays are arguments too. \<open>inb\<close> is what a port reads after a sequence of writes, which is the behaviour of the
  controllers and not of the program.

  \<^bold>\<open>Assumptions of the model.\<close> The heap starts at a page boundary, where the linker places \<open>kernel_end\<close>, and its bytes are
  kept apart from the words of physical memory that hold tables, free pages and stacks: mapping a page of the heap changes the
  latter only. One thread runs at a time and an operation is not interrupted except where a theory says so: \<open>Sync\<close> interleaves
  the instructions of the locks, \<open>Keyboard\<close> lets keys arrive while a reader waits and \<open>SchedSpec\<close> interleaves interrupts with
  the threads. The tables of file-system operations are resolved to \<open>tarfs.c\<close>, the only implementation. The
  count of characters that \<open>printf\<close> returns is an unbounded integer.

  \<^bold>\<open>Not modelled.\<close> The boot code and the code that saves and restores registers (\<open>boot.S\<close>, \<open>halt.S\<close>, most of
  \<open>interrupts.S\<close>), since it is made of privileged instructions on registers that the rest of the program never names; the body of
  \<open>kernel_main\<close>, which calls the initialisations one after the other, each on its own part of the state, and prints their
  parameters; the shell and the other programs under \<open>test\<close>; the two programs of \<open>utils\<close>, which return
  a constant; the structures of \<open>multiboot.h\<close> that no code reads; the message that \<open>fs_mount\<close> prints.
\<close>

end
